(* ===== verification/Prelude.thy ===== *)
theory Prelude
  imports Main "HOL-Library.Word"
begin

text \<open>
  The shared vocabulary of the development: bytes and C strings, the few functions of the C
  library the firmware calls (\<open>memcmp\<close>, \<open>strncmp\<close>, \<open>memchr\<close>, \<open>strncpy\<close>, \<open>snprintf\<close> with
  \<open>%d\<close>, \<open>strtol\<close>), the array idioms its modules repeat (linear search up to a count, removal
  that shifts the tail down), and the lemmas about them that the component theories use.

  A byte is a \<^typ>\<open>char\<close> (256 values), so a protocol keyword is a string literal. A C buffer is
  the list of its bytes; a C string is the part in front of the first NUL.
\<close>

named_theorems cy_simps \<open>unfolding rules of small helper definitions\<close>

type_synonym byte = char
type_synonym bytes = "char list"

abbreviation NUL :: byte where "NUL \<equiv> CHR 0x00"
abbreviation LF :: byte where "LF \<equiv> CHR 0x0A"
abbreviation CR :: byte where "CR \<equiv> CHR 0x0D"
abbreviation COMMA :: byte where "COMMA \<equiv> CHR '',''"
abbreviation COLON :: byte where "COLON \<equiv> CHR '':''"

section \<open>C strings\<close>

text \<open>The C string a buffer holds: the bytes before the first NUL.\<close>

definition cstr :: "bytes \<Rightarrow> bytes" where
  "cstr b = takeWhile (\<lambda>c. c \<noteq> NUL) b"

text \<open>\<open>strncmp(a, b, n) == 0\<close>.\<close>

definition strncmp_eq :: "nat \<Rightarrow> bytes \<Rightarrow> bytes \<Rightarrow> bool" where
  "strncmp_eq n a b \<longleftrightarrow> take n (cstr a) = take n (cstr b)"

text \<open>\<open>memcmp(buf, p, strlen(p)) == 0\<close>.\<close>

definition memcmp_eq :: "bytes \<Rightarrow> bytes \<Rightarrow> bool" where
  "memcmp_eq buf p \<longleftrightarrow> take (length p) buf = p"

text \<open>\<open>snprintf(dst, n, "%s", s)\<close>: the string left in \<open>dst\<close>; the return value is \<open>length s\<close>.\<close>

definition snprintf_buf :: "nat \<Rightarrow> bytes \<Rightarrow> bytes" where
  "snprintf_buf n s = take (n - 1) s"

text \<open>
  \<open>memchr(p, c, end - p)\<close> as the C code uses it, to split a field off: the bytes before the
  first \<open>c\<close> and, when there is one, the bytes after it.
\<close>

definition split_at :: "byte \<Rightarrow> bytes \<Rightarrow> bytes \<times> bytes option" where
  "split_at c s =
     (let f = takeWhile (\<lambda>x. x \<noteq> c) s
      in (f, if length f < length s then Some (drop (Suc (length f)) s) else None))"

lemma cstr_no_nul [simp]: "NUL \<notin> set (cstr s)"
  by (auto simp: cstr_def dest: set_takeWhileD)

lemma cstr_id [simp]: "NUL \<notin> set s \<Longrightarrow> cstr s = s"
  by (simp add: cstr_def takeWhile_eq_all_conv) blast

lemma cstr_cstr [simp]: "cstr (cstr s) = cstr s"
  by simp

lemma cstr_append_nul [simp]: "NUL \<notin> set s \<Longrightarrow> cstr (s @ NUL # t) = s"
  by (auto simp: cstr_def takeWhile_append)

lemma length_cstr_le: "length (cstr s) \<le> length s"
  by (simp add: cstr_def length_takeWhile_le)

lemma strncmp_eq_refl [simp]: "strncmp_eq n a a"
  by (simp add: strncmp_eq_def)

lemma strncmp_eq_sym: "strncmp_eq n a b \<longleftrightarrow> strncmp_eq n b a"
  by (auto simp: strncmp_eq_def)

lemma strncmp_eq_trans: "strncmp_eq n a b \<Longrightarrow> strncmp_eq n b c \<Longrightarrow> strncmp_eq n a c"
  by (simp add: strncmp_eq_def)

lemma memcmp_eq_append [simp]: "memcmp_eq (p @ s) p"
  by (simp add: memcmp_eq_def)

lemma split_at_none: "c \<notin> set s \<Longrightarrow> split_at c s = (s, None)"
proof -
  assume "c \<notin> set s"
  then have "takeWhile (\<lambda>x. x \<noteq> c) s = s"
    by (simp add: takeWhile_eq_all_conv) blast
  then show ?thesis by (simp add: split_at_def Let_def del: takeWhile_eq_all_conv)
qed

lemma split_at_some: "c \<notin> set f \<Longrightarrow> split_at c (f @ c # r) = (f, Some r)"
proof -
  assume "c \<notin> set f"
  then have "takeWhile (\<lambda>x. x \<noteq> c) (f @ c # r) = f"
    by (auto simp: takeWhile_append)
  then show ?thesis by (simp add: split_at_def Let_def)
qed

lemma split_at_rest_shorter: "split_at c s = (f, Some r) \<Longrightarrow> length r < length s"
  by (auto simp: split_at_def Let_def split: if_splits)

section \<open>Decimal numbers\<close>

definition digit :: "nat \<Rightarrow> byte" where
  "digit d = char_of (48 + d)"

fun dec_nat :: "nat \<Rightarrow> bytes" where
  "dec_nat n = (if n < 10 then [digit n] else dec_nat (n div 10) @ [digit (n mod 10)])"

declare dec_nat.simps [simp del]

text \<open>\<open>%d\<close>.\<close>

definition dec_int :: "int \<Rightarrow> bytes" where
  "dec_int i = (if i < 0 then CHR ''-'' # dec_nat (nat (- i)) else dec_nat (nat i))"

definition is_digit :: "byte \<Rightarrow> bool" where
  "is_digit c \<longleftrightarrow> 48 \<le> (of_char c :: nat) \<and> (of_char c :: nat) \<le> 57"

definition is_space :: "byte \<Rightarrow> bool" where
  "is_space c \<longleftrightarrow> c = CHR '' '' \<or> (9 \<le> (of_char c :: nat) \<and> (of_char c :: nat) \<le> 13)"

fun digits_value :: "nat \<Rightarrow> bytes \<Rightarrow> nat" where
  "digits_value acc [] = acc"
| "digits_value acc (c # cs) = digits_value (10 * acc + (of_char c - 48)) cs"

definition LONG_MAX :: int where "LONG_MAX = 2147483647"
definition LONG_MIN :: int where "LONG_MIN = - 2147483648"

text \<open>
  \<open>strtol(s, &endptr, 10)\<close>: white space, an optional sign, then the longest run of digits,
  saturating at the 32-bit \<open>long\<close> of the target. The second component is \<open>endptr\<close>, as the rest
  of the input; without any digit it is the whole input and the value is 0.
\<close>

definition strtol :: "bytes \<Rightarrow> int \<times> bytes" where
  "strtol s =
     (let t = dropWhile is_space s;
          neg = (t \<noteq> [] \<and> hd t = CHR ''-'');
          u = (if t \<noteq> [] \<and> (hd t = CHR ''-'' \<or> hd t = CHR ''+'') then tl t else t);
          ds = takeWhile is_digit u;
          v = int (digits_value 0 ds)
      in if ds = [] then (0, s)
         else (max LONG_MIN (min LONG_MAX (if neg then - v else v)), dropWhile is_digit u))"

lemma of_char_digit: "d < 10 \<Longrightarrow> (of_char (digit d) :: nat) = 48 + d"
  by (simp add: digit_def)

lemma is_digit_digit [simp]: "d < 10 \<Longrightarrow> is_digit (digit d)"
  by (simp add: is_digit_def of_char_digit)

lemma dec_nat_digits: "\<forall>c \<in> set (dec_nat n). is_digit c"
proof (induction n rule: dec_nat.induct)
  case (1 n)
  then show ?case
    by (cases "n < 10") (auto simp: dec_nat.simps [of n])
qed

lemma dec_nat_nonempty [simp]: "dec_nat n \<noteq> []"
  by (subst dec_nat.simps) simp

lemma digits_value_append:
  "digits_value acc (xs @ ys) = digits_value (digits_value acc xs) ys"
  by (induction xs arbitrary: acc) auto

lemma digits_value_dec_nat: "digits_value 0 (dec_nat n) = n"
proof (induction n rule: dec_nat.induct)
  case (1 n)
  show ?case
  proof (cases "n < 10")
    case True
    then show ?thesis by (simp add: dec_nat.simps [of n] of_char_digit)
  next
    case False
    with 1 have "digits_value 0 (dec_nat (n div 10)) = n div 10" by simp
    with False show ?thesis
      by (simp add: dec_nat.simps [of n] digits_value_append of_char_digit)
  qed
qed

lemma is_digit_neq [simp]:
  "is_digit c \<Longrightarrow> c \<noteq> COLON" "is_digit c \<Longrightarrow> c \<noteq> CHR ''-''" "is_digit c \<Longrightarrow> c \<noteq> CHR ''+''"
  "is_digit c \<Longrightarrow> c \<noteq> LF" "is_digit c \<Longrightarrow> c \<noteq> NUL" "is_digit c \<Longrightarrow> c \<noteq> COMMA"
  by (auto simp: is_digit_def)

lemma is_digit_not_space [simp]: "is_digit c \<Longrightarrow> \<not> is_space c"
  by (auto simp: is_digit_def is_space_def)

lemma dec_int_chars: "c \<in> set (dec_int i) \<Longrightarrow> is_digit c \<or> c = CHR ''-''"
  using dec_nat_digits by (auto simp: dec_int_def split: if_splits)

lemma dec_int_nonempty [simp]: "dec_int i \<noteq> []"
  by (simp add: dec_int_def)

lemma not_is_digit [simp]:
  "\<not> is_digit COLON" "\<not> is_digit LF" "\<not> is_digit NUL" "\<not> is_digit COMMA"
  by (auto simp: is_digit_def)

lemma dec_int_not_in [simp]:
  "COLON \<notin> set (dec_int i)" "LF \<notin> set (dec_int i)" "NUL \<notin> set (dec_int i)"
  "COMMA \<notin> set (dec_int i)"
  by (auto dest!: dec_int_chars)

lemma dropWhile_is_space_dec_nat: "dropWhile is_space (dec_nat n @ r) = dec_nat n @ r"
proof -
  obtain c cs where c: "dec_nat n = c # cs" by (cases "dec_nat n") auto
  with dec_nat_digits [of n] have "is_digit c" by simp
  with c show ?thesis by simp
qed

lemma hd_dec_nat: "is_digit (hd (dec_nat n))"
  using dec_nat_digits [of n] by (cases "dec_nat n") auto

lemma takeWhile_dec_nat:
  "takeWhile is_digit (dec_nat n @ COLON # r) = dec_nat n"
  "dropWhile is_digit (dec_nat n @ COLON # r) = COLON # r"
  using dec_nat_digits [of n] by (auto simp: takeWhile_append dropWhile_append is_digit_def)

text \<open>What the firmware prints in front of a colon, \<open>strtol\<close> reads back.\<close>

lemma strtol_dec_int:
  assumes "LONG_MIN \<le> i" "i \<le> LONG_MAX"
  shows "strtol (dec_int i @ COLON # r) = (i, COLON # r)"
proof (cases "i < 0")
  case True
  have "is_space (CHR ''-'') = False" by (simp add: is_space_def)
  with True assms show ?thesis
    by (simp add: strtol_def dec_int_def takeWhile_dec_nat digits_value_dec_nat Let_def)
next
  case False
  have h: "hd (dec_nat (nat i)) \<noteq> CHR ''-''" "hd (dec_nat (nat i)) \<noteq> CHR ''+''"
    using hd_dec_nat [of "nat i"] by auto
  from False assms h show ?thesis
    by (simp add: strtol_def dec_int_def takeWhile_dec_nat digits_value_dec_nat Let_def
        dropWhile_is_space_dec_nat)
qed

section \<open>Linear search\<close>

text \<open>\<open>for (i = 0; i < n; i++) if (P(xs[i])) return i;\<close>, with \<open>None\<close> for falling out of the loop.\<close>

fun index_of :: "('a \<Rightarrow> bool) \<Rightarrow> 'a list \<Rightarrow> nat option" where
  "index_of P [] = None"
| "index_of P (x # xs) = (if P x then Some 0 else map_option Suc (index_of P xs))"

lemma index_of_None: "index_of P xs = None \<longleftrightarrow> (\<forall>x \<in> set xs. \<not> P x)"
  by (induction xs) auto

lemma index_of_Some:
  "index_of P xs = Some i \<longleftrightarrow> i < length xs \<and> P (xs ! i) \<and> (\<forall>j < i. \<not> P (xs ! j))"
proof (induction xs arbitrary: i)
  case Nil
  then show ?case by simp
next
  case (Cons x xs)
  show ?case
  proof (cases i)
    case 0
    then show ?thesis by auto
  next
    case (Suc k)
    have "(\<forall>j < Suc k. \<not> P ((x # xs) ! j)) \<longleftrightarrow> \<not> P x \<and> (\<forall>j < k. \<not> P (xs ! j))"
      by (auto simp: less_Suc_eq_0_disj)
    with Suc Cons.IH [of k] show ?thesis by auto
  qed
qed

lemma index_of_SomeD:
  "index_of P xs = Some i \<Longrightarrow> i < length xs" "index_of P xs = Some i \<Longrightarrow> P (xs ! i)"
  by (auto simp: index_of_Some)

lemma index_of_cong: "(\<And>x. x \<in> set xs \<Longrightarrow> P x = Q x) \<Longrightarrow> index_of P xs = index_of Q xs"
  by (induction xs) auto

section \<open>Removal by shifting the tail down\<close>

text \<open>\<open>for (k = j; k < count - 1; k++) xs[k] = xs[k + 1];\<close>\<close>

function shift_down :: "'a list \<Rightarrow> nat \<Rightarrow> nat \<Rightarrow> 'a list" where
  "shift_down xs k c = (if Suc k < c then shift_down (xs[k := xs ! Suc k]) (Suc k) c else xs)"
  by pat_completeness auto
termination
  by (relation "measure (\<lambda>(xs, k, c). c - k)") auto

declare shift_down.simps [simp del]

definition del_at :: "nat \<Rightarrow> 'a list \<Rightarrow> 'a list" where
  "del_at k xs = take k xs @ drop (Suc k) xs"

lemma length_shift_down [simp]: "length (shift_down xs k c) = length xs"
  by (induction xs k c rule: shift_down.induct) (simp add: shift_down.simps)

lemma length_del_at: "k < length xs \<Longrightarrow> length (del_at k xs) = length xs - 1"
  by (simp add: del_at_def)

lemma nth_del_at:
  "k < length xs \<Longrightarrow> i < length xs - 1 \<Longrightarrow> del_at k xs ! i = (if i < k then xs ! i else xs ! Suc i)"
  by (auto simp: del_at_def nth_append)

lemma set_del_at_subset: "set (del_at k xs) \<subseteq> set xs"
  by (auto simp: del_at_def dest: in_set_takeD in_set_dropD)

lemma map_del_at: "map f (del_at k xs) = del_at k (map f xs)"
  by (simp add: del_at_def take_map drop_map)

lemma distinct_del_at: "distinct xs \<Longrightarrow> distinct (del_at k xs)"
  using set_take_disj_set_drop_if_distinct [of xs k "Suc k"] by (auto simp: del_at_def)

lemma nth_shift_down:
  "k < c \<Longrightarrow> c \<le> length xs \<Longrightarrow> i < length xs \<Longrightarrow>
   shift_down xs k c ! i = (if k \<le> i \<and> Suc i < c then xs ! Suc i else xs ! i)"
proof (induction xs k c rule: shift_down.induct)
  case (1 xs k c)
  show ?case
  proof (cases "Suc k < c")
    case True
    with 1 have "shift_down (xs[k := xs ! Suc k]) (Suc k) c ! i =
      (if Suc k \<le> i \<and> Suc i < c then xs[k := xs ! Suc k] ! Suc i else xs[k := xs ! Suc k] ! i)"
      by simp
    with True 1 show ?thesis
      by (auto simp: shift_down.simps [of xs k c] nth_list_update)
  next
    case False
    with 1 show ?thesis by (auto simp: shift_down.simps [of xs k c])
  qed
qed

lemma take_shift_down:
  assumes "k < c" "c \<le> length xs"
  shows "take (c - 1) ((shift_down xs k c)[c - 1 := z]) = del_at k (take c xs)"
proof (rule nth_equalityI)
  from assms show len: "length (take (c - 1) ((shift_down xs k c)[c - 1 := z]))
      = length (del_at k (take c xs))"
    by (simp add: length_del_at)
  fix i
  assume "i < length (take (c - 1) ((shift_down xs k c)[c - 1 := z]))"
  with assms show "take (c - 1) ((shift_down xs k c)[c - 1 := z]) ! i = del_at k (take c xs) ! i"
    by (auto simp: nth_shift_down nth_del_at)
qed

lemma drop_shift_down:
  assumes "k < c" "c \<le> length xs"
  shows "drop (c - 1) ((shift_down xs k c)[c - 1 := z]) = z # drop c xs"
proof (rule nth_equalityI)
  from assms show "length (drop (c - 1) ((shift_down xs k c)[c - 1 := z])) = length (z # drop c xs)"
    by simp
  fix i
  assume "i < length (drop (c - 1) ((shift_down xs k c)[c - 1 := z]))"
  with assms show "drop (c - 1) ((shift_down xs k c)[c - 1 := z]) ! i = (z # drop c xs) ! i"
    by (cases i) (auto simp: nth_shift_down nth_list_update)
qed

section \<open>Generic list facts\<close>

lemma list_all_updateI: "list_all P xs \<Longrightarrow> P x \<Longrightarrow> list_all P (xs[i := x])"
  by (auto simp: list_all_iff dest: set_update_subset_insert [THEN subsetD])

lemma take_Suc_update:
  "i < length xs \<Longrightarrow> take (Suc i) (xs[i := x]) = take i xs @ [x]"
  by (simp add: take_Suc_conv_app_nth)

lemma concat_replicate_replicate: "concat (replicate k (replicate n x)) = replicate (k * n) x"
  by (induction k) (simp_all add: replicate_add)

lemma take_drop_chunks:
  assumes "\<And>e. e \<in> set es \<Longrightarrow> length (f e) = n" "i < length es"
  shows "take n (drop (n * i) (concat (map f es))) = f (es ! i)"
  using assms
proof (induction es arbitrary: i)
  case (Cons e es)
  have e: "length (f e) = n" by (rule Cons(2)) simp
  show ?case
  proof (cases i)
    case (Suc j)
    then have "drop (n * i) (concat (map f (e # es))) = drop (n * j) (concat (map f es))"
      using e by simp
    then show ?thesis using Cons Suc by simp
  qed (use e in simp)
qed simp

lemma length_concat_chunks:
  "(\<And>e. e \<in> set es \<Longrightarrow> length (f e) = n) \<Longrightarrow> length (concat (map f es)) = n * length es"
  by (induction es) simp_all

section \<open>Byte buffers and machine words\<close>

text \<open>\<open>memcpy(dst, src, strlen(src))\<close> onto the front of a buffer.\<close>

definition memcpy_into :: "bytes \<Rightarrow> bytes \<Rightarrow> bytes" where
  "memcpy_into dst src = src @ drop (length src) dst"

text \<open>\<open>strncpy\<close> into a field of \<open>n\<close> bytes that keeps its last byte NUL: the string, cut to
  \<open>n - 1\<close> bytes, padded with NULs.\<close>

definition field_of :: "nat \<Rightarrow> bytes \<Rightarrow> bytes" where
  "field_of n s = (let t = take (n - 1) (cstr s) in t @ replicate (n - length t) NUL)"

definition byte_of :: "'a::len word \<Rightarrow> byte" where
  "byte_of w = char_of (unat w mod 256)"

definition word_of_byte :: "byte \<Rightarrow> 'a::len word" where
  "word_of_byte c = word_of_nat (of_char c)"

lemma char_of_0 [simp]: "char_of (0 :: nat) = NUL"
  by (simp add: char_of_eq_iff)

lemma length_memcpy_into [simp]: "length src \<le> length dst \<Longrightarrow> length (memcpy_into dst src) = length dst"
  by (simp add: memcpy_into_def)

lemma take_memcpy_into [simp]: "take (length src) (memcpy_into dst src) = src"
  by (simp add: memcpy_into_def)

lemma length_field_of [simp]: "0 < n \<Longrightarrow> length (field_of n s) = n"
  by (auto simp: field_of_def Let_def)

lemma cstr_field_of [simp]: "0 < n \<Longrightarrow> cstr (field_of n s) = take (n - 1) (cstr s)"
proof -
  assume n: "0 < n"
  let ?t = "take (n - 1) (cstr s)"
  have nt: "NUL \<notin> set ?t" using in_set_takeD by fastforce
  obtain m where m: "n - length ?t = Suc m" using n by (cases "n - length ?t") auto
  then have "field_of n s = ?t @ NUL # replicate m NUL"
    by (simp add: field_of_def Let_def)
  with nt show ?thesis by simp
qed

lemma cstr_Nil_iff: "xs \<noteq> [] \<Longrightarrow> cstr xs = [] \<longleftrightarrow> xs ! 0 = NUL"
  unfolding cstr_def by (cases xs) auto

lemma cstr_replicate_NUL [simp]: "cstr (replicate n NUL) = []"
  unfolding cstr_def by (induction n) auto

text \<open>Big-endian and little-endian words.\<close>

definition put_u32 :: "32 word \<Rightarrow> bytes" where
  "put_u32 v = [byte_of (drop_bit 24 v), byte_of (drop_bit 16 v), byte_of (drop_bit 8 v), byte_of v]"

definition get_u32 :: "bytes \<Rightarrow> 32 word" where
  "get_u32 p = or (or (or (push_bit 24 (word_of_byte (p ! 0))) (push_bit 16 (word_of_byte (p ! 1))))
     (push_bit 8 (word_of_byte (p ! 2)))) (word_of_byte (p ! 3))"

definition put_u64 :: "64 word \<Rightarrow> bytes" where
  "put_u64 v = put_u32 (ucast (drop_bit 32 v)) @ put_u32 (ucast v)"

definition get_u64 :: "bytes \<Rightarrow> 64 word" where
  "get_u64 p = or (push_bit 32 (ucast (get_u32 p))) (ucast (get_u32 (drop 4 p)))"

definition le32 :: "32 word \<Rightarrow> bytes" where
  "le32 v = rev (put_u32 v)"

definition unle32 :: "bytes \<Rightarrow> 32 word" where
  "unle32 p = get_u32 (rev (take 4 p))"

lemma word_of_byte_of: "word_of_byte (byte_of w) = (take_bit 8 (w :: 32 word))"
proof -
  have "word_of_byte (byte_of w) = (word_of_nat (take_bit 8 (unat w)) :: 32 word)"
    by (simp add: word_of_byte_def byte_of_def take_bit_eq_mod)
  also have "\<dots> = take_bit 8 (word_of_nat (unat w))" by (simp only: take_bit_of_nat)
  finally show ?thesis by simp
qed

lemma bit_word_of_byte_of [simp]:
  "bit (word_of_byte (byte_of w) :: 32 word) i \<longleftrightarrow> i < 8 \<and> bit (w :: 32 word) i"
  by (simp add: word_of_byte_of bit_simps)

lemma get_put_u32 [simp]: "get_u32 (put_u32 v) = v"
proof (rule bit_word_eqI)
  fix i assume "i < LENGTH(32)"
  then have "i < 8 \<or> 8 \<le> i \<and> i < 16 \<or> 16 \<le> i \<and> i < 24 \<or> 24 \<le> i \<and> i < 32" by auto
  then show "bit (get_u32 (put_u32 v)) i \<longleftrightarrow> bit v i"
    by (auto simp: get_u32_def put_u32_def bit_simps)
qed

lemma get_put_u32_append [simp]: "get_u32 (put_u32 v @ r) = v"
proof -
  have "get_u32 (put_u32 v @ r) = get_u32 (put_u32 v)"
    by (simp add: get_u32_def put_u32_def)
  then show ?thesis by simp
qed

lemma length_put_u32 [simp]: "length (put_u32 v) = 4"
  by (simp add: put_u32_def)

lemma get_put_u64 [simp]: "get_u64 (put_u64 v) = v"
proof (rule bit_word_eqI)
  fix i assume i: "i < LENGTH(64)"
  have g: "get_u64 (put_u64 v) = or (push_bit 32 (ucast (ucast (drop_bit 32 v) :: 32 word))) (ucast (ucast v :: 32 word))"
    by (simp add: get_u64_def put_u64_def)
  show "bit (get_u64 (put_u64 v)) i \<longleftrightarrow> bit v i"
    using i unfolding g by (cases "i < 32") (auto simp: bit_simps)
qed

lemma length_put_u64 [simp]: "length (put_u64 v) = 8"
  by (simp add: put_u64_def)

lemma put_u32_inj: "put_u32 v = put_u32 w \<longleftrightarrow> v = w"
  by (metis get_put_u32)

lemma put_u64_inj: "put_u64 v = put_u64 w \<longleftrightarrow> v = w"
  by (metis get_put_u64)

lemma length_le32 [simp]: "length (le32 v) = 4"
  by (simp add: le32_def)

lemma unle32_le32 [simp]: "unle32 (le32 v @ r) = v"
  by (simp add: unle32_def le32_def)

end
