(* ===== verification/Platform.thy ===== *)
theory Platform
  imports Prelude
begin

text \<open>
  The code the firmware calls but does not contain: the ESP-IDF non-volatile storage (NVS), the
  \<open>esp_srp\<close> component, mbedTLS (Base64, AES-GCM, HMAC-SHA-256), the hardware random generator,
  the mDNS responder, NimBLE's advertiser, the heap, and the weak symbols an application overrides. None of it
  is defined here. It is the record \<open>env\<close>, an argument of every definition that calls it;
  what the firmware relies on is stated as named hypotheses over that record
  (\<open>nvs_lawful\<close>, \<open>nvs_reliable\<close>, \<open>base64_lawful\<close>, \<open>gcm_lawful\<close>).

  The type variable \<open>'n\<close> is the state of the flash behind NVS, \<open>'h\<close> the type of an SRP handle.
  A call whose outcome may differ from one time to the next takes the index of the draw from
  the entropy source as an argument.
\<close>

section \<open>Error codes\<close>

datatype esp_err = ESP_OK | ESP_FAIL | ESP_ERR_NO_MEM | ESP_ERR_INVALID_ARG | ESP_ERR_INVALID_SIZE
  | ESP_ERR_NOT_FOUND | ESP_ERR_NVS_NOT_FOUND | ESP_ERR_NVS_INVALID_LENGTH | ESP_ERR_OTHER

section \<open>Non-volatile storage\<close>

datatype nvs_value = Blob bytes | U8 nat | U32 "32 word" | Str bytes

datatype nvs_mode = NVS_READONLY | NVS_READWRITE

text \<open>The namespace the security modules share.\<close>

abbreviation (input) CY_SEC :: bytes where "CY_SEC \<equiv> ''cy_sec''"

text \<open>
  The NVS interface. A handle is the namespace it was opened on; the getters that fill a buffer
  take its capacity.
\<close>

record 'n nvs_api =
  nvs_open :: "bytes \<Rightarrow> nvs_mode \<Rightarrow> 'n \<Rightarrow> esp_err \<times> 'n"
  nvs_get_blob :: "bytes \<Rightarrow> bytes \<Rightarrow> nat \<Rightarrow> 'n \<Rightarrow> esp_err \<times> bytes"
  nvs_get_u8 :: "bytes \<Rightarrow> bytes \<Rightarrow> 'n \<Rightarrow> esp_err \<times> nat"
  nvs_get_u32 :: "bytes \<Rightarrow> bytes \<Rightarrow> 'n \<Rightarrow> esp_err \<times> 32 word"
  nvs_get_str :: "bytes \<Rightarrow> bytes \<Rightarrow> nat \<Rightarrow> 'n \<Rightarrow> esp_err \<times> bytes"
  nvs_set :: "bytes \<Rightarrow> bytes \<Rightarrow> nvs_value \<Rightarrow> 'n \<Rightarrow> esp_err \<times> 'n"
  nvs_erase_key :: "bytes \<Rightarrow> bytes \<Rightarrow> 'n \<Rightarrow> esp_err \<times> 'n"
  nvs_commit :: "bytes \<Rightarrow> 'n \<Rightarrow> esp_err \<times> 'n"

text \<open>
  What the NVS documentation promises, over a view of the flash as a finite map from namespace
  and key to a value: a successful write is what later reads return, no call changes another
  key, a read of a missing key reports it, a read into a buffer that is too small reports that,
  a string that was read is the stored one, and a namespace that holds a key can be opened.
\<close>

definition nvs_strings_exact :: "'n nvs_api \<Rightarrow> ('n \<Rightarrow> bytes \<times> bytes \<Rightarrow> nvs_value option) \<Rightarrow> bool" where
  "nvs_strings_exact api view \<longleftrightarrow>
    (\<forall>ns k c n b. nvs_get_str api ns k c n = (ESP_OK, b) \<longrightarrow> view n (ns, k) = Some (Str b) \<and> length b < c)"

definition nvs_lawful :: "'n nvs_api \<Rightarrow> ('n \<Rightarrow> bytes \<times> bytes \<Rightarrow> nvs_value option) \<Rightarrow> bool" where
  "nvs_lawful api view \<longleftrightarrow>
    (\<forall>ns m n. view (snd (nvs_open api ns m n)) = view n) \<and>
    (\<forall>ns n. view (snd (nvs_commit api ns n)) = view n) \<and>
    (\<forall>ns k v n. fst (nvs_set api ns k v n) = ESP_OK \<longrightarrow>
       view (snd (nvs_set api ns k v n)) = (view n)((ns, k) \<mapsto> v)) \<and>
    (\<forall>ns k n. fst (nvs_erase_key api ns k n) \<in> {ESP_OK, ESP_ERR_NVS_NOT_FOUND} \<longrightarrow>
       view (snd (nvs_erase_key api ns k n)) = (view n)((ns, k) := None)) \<and>
    (\<forall>ns k n. view n (ns, k) \<noteq> None \<longrightarrow> fst (nvs_open api ns NVS_READONLY n) = ESP_OK) \<and>
    (\<forall>ns k c n b. view n (ns, k) = Some (Blob b) \<longrightarrow>
       nvs_get_blob api ns k c n =
         (if length b \<le> c then (ESP_OK, b) else (ESP_ERR_NVS_INVALID_LENGTH, []))) \<and>
    (\<forall>ns k c n. view n (ns, k) = None \<longrightarrow>
       nvs_get_blob api ns k c n = (ESP_ERR_NVS_NOT_FOUND, [])) \<and>
    (\<forall>ns k n b. view n (ns, k) = Some (U8 b) \<longrightarrow> nvs_get_u8 api ns k n = (ESP_OK, b)) \<and>
    (\<forall>ns k n b. view n (ns, k) = Some (U32 b) \<longrightarrow> nvs_get_u32 api ns k n = (ESP_OK, b)) \<and>
    (\<forall>ns k c n b. view n (ns, k) = Some (Str b) \<longrightarrow>
       nvs_get_str api ns k c n =
         (if length b < c then (ESP_OK, b) else (ESP_ERR_NVS_INVALID_LENGTH, []))) \<and>
    nvs_strings_exact api view"

text \<open>The flash is healthy: no open for writing, write, erase or commit fails.\<close>

definition nvs_reliable :: "'n nvs_api \<Rightarrow> bool" where
  "nvs_reliable api \<longleftrightarrow>
    (\<forall>ns n. fst (nvs_open api ns NVS_READWRITE n) = ESP_OK) \<and>
    (\<forall>ns k v n. fst (nvs_set api ns k v n) = ESP_OK) \<and>
    (\<forall>ns k n. fst (nvs_erase_key api ns k n) \<in> {ESP_OK, ESP_ERR_NVS_NOT_FOUND}) \<and>
    (\<forall>ns n. fst (nvs_commit api ns n) = ESP_OK)"

section \<open>Cryptography\<close>

text \<open>
  The \<open>esp_srp\<close> calls (SRP-6a, 3072-bit group). \<open>srp_gen_salt_verifier\<close> and
  \<open>srp_srv_pubkey\<close> draw randomness; any call may run out of memory, so each reports an error
  code, and the calls that return an allocated buffer may return none.
\<close>

record 'h srp_api =
  srp_gen_salt_verifier :: "nat \<Rightarrow> bytes \<Rightarrow> bytes \<Rightarrow> nat \<Rightarrow> esp_err \<times> bytes \<times> bytes"
  srp_init :: "nat \<Rightarrow> 'h option"
  srp_set_salt_verifier :: "'h \<Rightarrow> bytes \<Rightarrow> bytes \<Rightarrow> esp_err \<times> 'h"
  srp_srv_pubkey :: "nat \<Rightarrow> 'h \<Rightarrow> esp_err \<times> bytes option \<times> 'h"
  srp_get_session_key :: "'h \<Rightarrow> bytes \<Rightarrow> esp_err \<times> bytes option \<times> 'h"
  srp_exchange_proofs :: "'h \<Rightarrow> bytes \<Rightarrow> bytes \<Rightarrow> esp_err \<times> bytes"

text \<open>
  mbedTLS: Base64 (the decoder reports malformed text as \<open>None\<close>), AES-256-GCM with a 12-byte
  nonce, no associated data and a 16-byte tag (\<open>gcm_open\<close> takes ciphertext and tag), and HMAC
  with SHA-256. \<open>fill_random i n\<close> are the \<open>n\<close> bytes of draw \<open>i\<close>.
\<close>

record crypto_api =
  b64_encode :: "bytes \<Rightarrow> bytes"
  b64_decode :: "bytes \<Rightarrow> bytes option"
  gcm_seal :: "bytes \<Rightarrow> bytes \<Rightarrow> bytes \<Rightarrow> (bytes \<times> bytes) option"
  gcm_open :: "bytes \<Rightarrow> bytes \<Rightarrow> bytes \<Rightarrow> bytes \<Rightarrow> bytes option"
  hmac_sha256 :: "bytes \<Rightarrow> bytes \<Rightarrow> bytes"
  fill_random :: "nat \<Rightarrow> nat \<Rightarrow> bytes"

text \<open>\<open>mbedtls_base64_decode\<close> into a buffer of \<open>cap\<close> bytes: fails when the result does not fit.\<close>

definition base64_decode :: "crypto_api \<Rightarrow> nat \<Rightarrow> bytes \<Rightarrow> bytes option" where
  "base64_decode c cap s = (case b64_decode c s of
     Some d \<Rightarrow> if length d \<le> cap then Some d else None
   | None \<Rightarrow> None)"

text \<open>
  What Base64 promises: decoding undoes encoding, the text has four characters for every three
  bytes begun, and no character of it is a separator of the line protocol.
\<close>

definition base64_lawful :: "crypto_api \<Rightarrow> bool" where
  "base64_lawful c \<longleftrightarrow>
    (\<forall>x. b64_decode c (b64_encode c x) = Some x) \<and>
    (\<forall>x. length (b64_encode c x) = 4 * ((length x + 2) div 3)) \<and>
    (\<forall>x. set (b64_encode c x) \<inter> {NUL, LF, CR, COMMA, COLON, CHR '' ''} = {})"

text \<open>What AES-GCM promises to two honest parties: the tag has 16 bytes, the ciphertext the length of the
  plaintext, and opening undoes sealing under the same key and nonce.\<close>

definition gcm_lawful :: "crypto_api \<Rightarrow> bool" where
  "gcm_lawful c \<longleftrightarrow>
    (\<forall>k n p ct tag. gcm_seal c k n p = Some (ct, tag) \<longrightarrow>
       length ct = length p \<and> length tag = 16 \<and> gcm_open c k n ct tag = Some p)"

text \<open>The lengths the calls that fill a buffer of fixed size promise.\<close>

definition cry_sized :: "crypto_api \<Rightarrow> bool" where
  "cry_sized c \<longleftrightarrow> (\<forall>i n. length (fill_random c i n) = n) \<and> (\<forall>k m. length (hmac_sha256 c k m) = 32)"

text \<open>
  The public-key calls of mbedTLS the provisioning handshake makes; \<open>0\<close> is success. A key is its PEM
  text. \<open>pk_gen_pem i cap\<close> generates an EC key with draw \<open>i\<close> and writes it into a buffer of \<open>cap\<close>
  bytes, \<open>csr_der\<close> writes a signed PKCS#10 request (its length, negative on failure, and its bytes),
  \<open>pk_sign\<close> signs a hash.
\<close>

record pki_api =
  pk_gen_pem :: "nat \<Rightarrow> nat \<Rightarrow> int \<times> bytes"
  pk_parse :: "bytes \<Rightarrow> int"
  csr_der :: "nat \<Rightarrow> bytes \<Rightarrow> nat \<Rightarrow> int \<times> bytes"
  md_sha256 :: "bytes \<Rightarrow> int \<times> bytes"
  pk_sign :: "nat \<Rightarrow> bytes \<Rightarrow> bytes \<Rightarrow> int \<times> bytes"

text \<open>\<open>mbedtls_base64_encode\<close> into a buffer of \<open>cap\<close> bytes, which must hold the final NUL too.\<close>

definition base64_encode :: "crypto_api \<Rightarrow> nat \<Rightarrow> bytes \<Rightarrow> bytes option" where
  "base64_encode c cap x = (let t = b64_encode c x in if length t + 1 \<le> cap then Some t else None)"

text \<open>What the key calls promise: a generated key fits, is a C string and can be parsed.\<close>

definition pki_lawful :: "pki_api \<Rightarrow> bool" where
  "pki_lawful k \<longleftrightarrow> (\<forall>i cap pem. pk_gen_pem k i cap = (0, pem) \<longrightarrow> length pem < cap \<and> NUL \<notin> set pem)"

section \<open>The environment\<close>

text \<open>
  The values of \<open>device_config/cy_config.c\<close> an application may override, read at run time.
\<close>

record config =
  cy_scan_command :: bytes
  cy_initial_password :: bytes
  cy_mdns_channel_tag :: bytes
  cy_firmware_version :: bytes
  cy_hardware_version :: bytes
  cy_device_name :: bytes
  cy_device_type :: bytes
  cy_router_ssid_prefix :: bytes
  cy_router_pass_prefix :: bytes
  cy_ap_ssid_prefix :: bytes
  cy_ble_base_uuid128 :: bytes
  claim_cert_pem :: bytes
  claim_key_pem :: bytes
  base_mac :: bytes

text \<open>
  Everything outside the firmware. \<open>adv_call i\<close> is the return code of the \<open>i\<close>-th call into NimBLE's
  advertiser, \<open>mdns_call i\<close> of the \<open>i\<close>-th call into the mDNS responder, \<open>heap_ok\<close> says
  whether a block of that size can be allocated, \<open>app_public\<close> is the application's
  \<open>app_command_is_public\<close>; \<open>base_mac\<close> above are the six bytes of the factory MAC, and
  \<open>stale\<close> is what a stack buffer of that size holds before it is written.
\<close>

record ('n, 'h) env =
  nvs :: "'n nvs_api"
  srp :: "'h srp_api"
  cry :: crypto_api
  pki :: pki_api
  cfg :: config
  app_public :: "bytes \<Rightarrow> bool"
  adv_call :: "nat \<Rightarrow> int"
  mdns_call :: "nat \<Rightarrow> esp_err"
  heap_ok :: "nat \<Rightarrow> bool"
  stale :: "nat \<Rightarrow> bytes"

section \<open>Consequences of the hypotheses\<close>

lemma nvs_lawfulD:
  assumes "nvs_lawful api view"
  shows nvs_open_view: "view (snd (nvs_open api ns m n)) = view n"
    and nvs_commit_view: "view (snd (nvs_commit api ns n)) = view n"
    and nvs_set_view: "fst (nvs_set api ns k v n) = ESP_OK \<Longrightarrow>
      view (snd (nvs_set api ns k v n)) = (view n)((ns, k) \<mapsto> v)"
    and nvs_erase_view: "fst (nvs_erase_key api ns k n) \<in> {ESP_OK, ESP_ERR_NVS_NOT_FOUND} \<Longrightarrow>
      view (snd (nvs_erase_key api ns k n)) = (view n)((ns, k) := None)"
    and nvs_open_ro: "view n (ns, k) \<noteq> None \<Longrightarrow> fst (nvs_open api ns NVS_READONLY n) = ESP_OK"
    and nvs_get_blob_Some: "view n (ns, k) = Some (Blob b) \<Longrightarrow> length b \<le> c \<Longrightarrow>
      nvs_get_blob api ns k c n = (ESP_OK, b)"
    and nvs_get_blob_None: "view n (ns, k) = None \<Longrightarrow>
      nvs_get_blob api ns k c n = (ESP_ERR_NVS_NOT_FOUND, [])"
    and nvs_get_u8_Some: "view n (ns, k) = Some (U8 b8) \<Longrightarrow> nvs_get_u8 api ns k n = (ESP_OK, b8)"
    and nvs_get_u32_Some: "view n (ns, k) = Some (U32 w) \<Longrightarrow> nvs_get_u32 api ns k n = (ESP_OK, w)"
    and nvs_get_str_Some: "view n (ns, k) = Some (Str b) \<Longrightarrow> length b < c \<Longrightarrow>
      nvs_get_str api ns k c n = (ESP_OK, b)"
  using assms unfolding nvs_lawful_def by auto

lemma nvs_get_str_inv:
  assumes "nvs_lawful api view" "nvs_get_str api ns k c n = (ESP_OK, b)"
  shows "view n (ns, k) = Some (Str b) \<and> length b < c"
proof -
  have "nvs_strings_exact api view" using assms(1) unfolding nvs_lawful_def by simp
  then show ?thesis using assms(2) unfolding nvs_strings_exact_def by blast
qed

lemma nvs_reliableD:
  assumes "nvs_reliable api"
  shows nvs_open_reliable: "fst (nvs_open api ns NVS_READWRITE n) = ESP_OK"
    and nvs_set_reliable: "fst (nvs_set api ns k v n) = ESP_OK"
    and nvs_erase_reliable: "fst (nvs_erase_key api ns k n) = ESP_OK \<or>
      fst (nvs_erase_key api ns k n) = ESP_ERR_NVS_NOT_FOUND"
    and nvs_commit_reliable: "fst (nvs_commit api ns n) = ESP_OK"
  using assms unfolding nvs_reliable_def by auto

lemma base64_lawfulD:
  assumes "base64_lawful c"
  shows b64_decode_encode: "b64_decode c (b64_encode c x) = Some x"
    and length_b64_encode: "length (b64_encode c x) = 4 * ((length x + 2) div 3)"
    and b64_no_sep: "COMMA \<notin> set (b64_encode c x)" "COLON \<notin> set (b64_encode c x)"
      "LF \<notin> set (b64_encode c x)" "CR \<notin> set (b64_encode c x)" "NUL \<notin> set (b64_encode c x)"
      "CHR '' '' \<notin> set (b64_encode c x)"
  using assms unfolding base64_lawful_def by auto

lemma base64_decode_encode:
  "base64_lawful c \<Longrightarrow> length x \<le> cap \<Longrightarrow> base64_decode c cap (b64_encode c x) = Some x"
  by (simp add: base64_decode_def b64_decode_encode)

lemma base64_decode_SomeD:
  "base64_decode c cap s = Some d \<Longrightarrow> b64_decode c s = Some d \<and> length d \<le> cap"
  by (auto simp: base64_decode_def split: option.splits if_splits)

lemma gcm_lawfulD:
  "gcm_lawful c \<Longrightarrow> gcm_seal c k n p = Some (ct, tag) \<Longrightarrow>
    length ct = length p \<and> length tag = 16 \<and> gcm_open c k n ct tag = Some p"
  unfolding gcm_lawful_def by blast

end
