(* ===== verification/Bench_Platform.thy ===== *)
theory Bench_Platform
  imports Platform
begin

text \<open>
  A concrete platform that meets the hypotheses of theory \<open>Platform\<close>, on which the properties
  that depend on them are exercised: a flash that is a finite map and may be switched to refuse
  writes, Base64 as in RFC 4648, and simple executable stand-ins for the cipher, the MAC, SRP
  and the random generator. No theorem about the firmware is stated for this platform only.
\<close>

section \<open>Flash\<close>

type_synonym flash = "bytes \<times> bytes \<Rightarrow> nvs_value option"

definition flash_nvs :: "bool \<Rightarrow> flash nvs_api" where
  "flash_nvs writable = \<lparr>
     nvs_open = (\<lambda>ns m f. (ESP_OK, f)),
     nvs_get_blob = (\<lambda>ns k c f. case f (ns, k) of
         Some (Blob b) \<Rightarrow> if length b \<le> c then (ESP_OK, b) else (ESP_ERR_NVS_INVALID_LENGTH, [])
       | _ \<Rightarrow> (ESP_ERR_NVS_NOT_FOUND, [])),
     nvs_get_u8 = (\<lambda>ns k f. case f (ns, k) of Some (U8 b) \<Rightarrow> (ESP_OK, b) | _ \<Rightarrow> (ESP_ERR_NVS_NOT_FOUND, 0)),
     nvs_get_u32 = (\<lambda>ns k f. case f (ns, k) of Some (U32 b) \<Rightarrow> (ESP_OK, b) | _ \<Rightarrow> (ESP_ERR_NVS_NOT_FOUND, 0)),
     nvs_get_str = (\<lambda>ns k c f. case f (ns, k) of
         Some (Str b) \<Rightarrow> if length b < c then (ESP_OK, b) else (ESP_ERR_NVS_INVALID_LENGTH, [])
       | _ \<Rightarrow> (ESP_ERR_NVS_NOT_FOUND, [])),
     nvs_set = (\<lambda>ns k v f. if writable then (ESP_OK, f((ns, k) \<mapsto> v)) else (ESP_FAIL, f)),
     nvs_erase_key = (\<lambda>ns k f. if writable then (ESP_OK, f((ns, k) := None)) else (ESP_FAIL, f)),
     nvs_commit = (\<lambda>ns f. (ESP_OK, f)) \<rparr>"

definition blank :: flash where "blank = (\<lambda>k. None)"

lemma flash_get_str:
  "nvs_get_str (flash_nvs w) ns k c f = (case f (ns, k) of
     Some (Str b) \<Rightarrow> if length b < c then (ESP_OK, b) else (ESP_ERR_NVS_INVALID_LENGTH, [])
   | _ \<Rightarrow> (ESP_ERR_NVS_NOT_FOUND, []))"
  by (simp add: flash_nvs_def)

lemma flash_get_str_inv:
  "nvs_get_str (flash_nvs w) ns k c f = (ESP_OK, b) \<Longrightarrow> f (ns, k) = Some (Str b) \<and> length b < c"
  unfolding flash_get_str by (simp split: option.split_asm nvs_value.split_asm if_split_asm)

lemma flash_nvs_lawful: "nvs_lawful (flash_nvs w) (\<lambda>f. f)"
proof -
  have "nvs_strings_exact (flash_nvs w) (\<lambda>f. f)"
    unfolding nvs_strings_exact_def using flash_get_str_inv [of w] by blast
  then show ?thesis by (auto simp: nvs_lawful_def flash_nvs_def split: if_splits)
qed

lemma flash_nvs_reliable: "nvs_reliable (flash_nvs True)"
  by (simp add: nvs_reliable_def flash_nvs_def)

section \<open>Base64\<close>

definition b64_alphabet :: bytes where
  "b64_alphabet = ''ABCDEFGHIJKLMNOPQRSTUVWXYZabcdefghijklmnopqrstuvwxyz0123456789+/''"

definition b64_chr :: "nat \<Rightarrow> byte" where "b64_chr n = b64_alphabet ! n"

definition b64_val :: "byte \<Rightarrow> nat option" where "b64_val c = index_of (\<lambda>x. x = c) b64_alphabet"

abbreviation (input) nval :: "byte \<Rightarrow> nat" where "nval c \<equiv> of_char c"

fun b64_enc :: "bytes \<Rightarrow> bytes" where
  "b64_enc [] = []"
| "b64_enc [a] = [b64_chr (nval a div 4), b64_chr (nval a mod 4 * 16), CHR ''='', CHR ''='']"
| "b64_enc [a, b] = [b64_chr (nval a div 4), b64_chr (nval a mod 4 * 16 + nval b div 16),
     b64_chr (nval b mod 16 * 4), CHR ''='']"
| "b64_enc (a # b # c # r) = b64_chr (nval a div 4) # b64_chr (nval a mod 4 * 16 + nval b div 16) #
     b64_chr (nval b mod 16 * 4 + nval c div 64) # b64_chr (nval c mod 64) # b64_enc r"

fun b64_dec :: "bytes \<Rightarrow> bytes option" where
  "b64_dec [] = Some []"
| "b64_dec (p # q # r # s # t) =
    (case (b64_val p, b64_val q) of
       (Some vp, Some vq) \<Rightarrow>
         if r = CHR ''='' then (if s = CHR ''='' \<and> t = [] then Some [char_of (vp * 4 + vq div 16)] else None)
         else (case b64_val r of
             Some vr \<Rightarrow>
               if s = CHR ''='' then
                 (if t = [] then Some [char_of (vp * 4 + vq div 16), char_of (vq mod 16 * 16 + vr div 4)] else None)
               else (case b64_val s of
                   Some vs \<Rightarrow> (case b64_dec t of
                       Some u \<Rightarrow> Some (char_of (vp * 4 + vq div 16) # char_of (vq mod 16 * 16 + vr div 4) #
                         char_of (vr mod 4 * 64 + vs) # u)
                     | None \<Rightarrow> None)
                 | None \<Rightarrow> None)
           | None \<Rightarrow> None)
     | _ \<Rightarrow> None)"
| "b64_dec _ = None"

lemma length_b64_alphabet: "length b64_alphabet = 64"
  by (simp add: b64_alphabet_def)

lemma distinct_b64_alphabet: "distinct b64_alphabet"
  by (simp add: b64_alphabet_def)

lemma b64_val_chr [simp]: "n < 64 \<Longrightarrow> b64_val (b64_chr n) = Some n"
  using distinct_b64_alphabet length_b64_alphabet
  by (auto simp: b64_val_def b64_chr_def index_of_Some nth_eq_iff_index_eq)

lemma b64_chr_in: "n < 64 \<Longrightarrow> b64_chr n \<in> set b64_alphabet"
  using length_b64_alphabet by (simp add: b64_chr_def)

lemma b64_alphabet_sep: "set b64_alphabet \<inter> {CHR ''='', NUL, LF, CR, COMMA, COLON, CHR '' ''} = {}"
  by (simp add: b64_alphabet_def)

lemma b64_chr_neq [simp]:
  assumes "n < 64"
  shows "b64_chr n \<noteq> CHR ''=''" "b64_chr n \<noteq> NUL" "b64_chr n \<noteq> LF" "b64_chr n \<noteq> CR"
    "b64_chr n \<noteq> COMMA" "b64_chr n \<noteq> COLON" "b64_chr n \<noteq> CHR '' ''"
  using b64_chr_in [OF assms] b64_alphabet_sep by auto

lemma of_char_lt [simp]: "(of_char c :: nat) < 256"
  by simp

lemma b64_bounds [simp]:
  "(of_char a :: nat) div 4 < 64" "(of_char a :: nat) mod 4 * 16 < 64"
  "(of_char a :: nat) mod 4 * 16 + (of_char b :: nat) div 16 < 64"
  "(of_char b :: nat) mod 16 * 4 < 64" "(of_char b :: nat) mod 16 * 4 + (of_char c :: nat) div 64 < 64"
  "(of_char c :: nat) mod 64 < 64"
  using of_char_lt [of a] of_char_lt [of b] of_char_lt [of c] by linarith+

lemma b64_small [simp]:
  "(of_char b :: nat) div 16 div 16 = 0" "(of_char b :: nat) div 16 mod 16 = of_char b div 16"
  "(of_char c :: nat) div 64 div 4 = 0" "(of_char c :: nat) div 64 mod 4 = of_char c div 64"
  using of_char_lt [of b] of_char_lt [of c] by (simp_all add: div_mult2_eq [symmetric] less_mult_imp_div_less)

lemma b64_dec_enc: "b64_dec (b64_enc x) = Some x"
  by (induction x rule: b64_enc.induct) simp_all

lemma length_b64_enc: "length (b64_enc x) = 4 * ((length x + 2) div 3)"
proof (induction x rule: b64_enc.induct)
  case (4 a b c r)
  have "(length (a # b # c # r) + 2) div 3 = Suc ((length r + 2) div 3)" by simp
  with 4 show ?case by simp
qed simp_all

lemma b64_enc_sep: "set (b64_enc x) \<inter> {NUL, LF, CR, COMMA, COLON, CHR '' ''} = {}"
  by (induction x rule: b64_enc.induct) (auto simp: b64_chr_neq [symmetric])

section \<open>Cryptographic stand-ins\<close>

definition pad_to :: "nat \<Rightarrow> bytes \<Rightarrow> bytes" where
  "pad_to n b = take n (b @ replicate n NUL)"

definition bench_crypto :: crypto_api where
  "bench_crypto = \<lparr>
     b64_encode = b64_enc, b64_decode = b64_dec,
     gcm_seal = (\<lambda>k n p. Some (p, pad_to 16 (n @ k))),
     gcm_open = (\<lambda>k n ct tag. if tag = pad_to 16 (n @ k) then Some ct else None),
     hmac_sha256 = (\<lambda>k m. pad_to 32 (m @ k)),
     fill_random = (\<lambda>i n. replicate n (char_of (i + 1))) \<rparr>"

type_synonym bench_srp = "bytes \<times> bytes"

definition bench_srp_api :: "bench_srp srp_api" where
  "bench_srp_api = \<lparr>
     srp_gen_salt_verifier = (\<lambda>i u pw n. (ESP_OK, replicate n (char_of (i + 1)), pad_to 384 pw)),
     srp_init = (\<lambda>i. Some ([], [])),
     srp_set_salt_verifier = (\<lambda>h salt ver. (ESP_OK, (ver, []))),
     srp_srv_pubkey = (\<lambda>i h. (ESP_OK, Some (replicate 384 (char_of (i + 1))), h)),
     srp_get_session_key = (\<lambda>h A. (ESP_OK, Some (pad_to 64 (fst h)), (fst h, pad_to 64 (fst h)))),
     srp_exchange_proofs = (\<lambda>h u m1. if m1 = snd h then (ESP_OK, snd h) else (ESP_FAIL, [])) \<rparr>"

definition bench_pki :: pki_api where
  "bench_pki = \<lparr> pk_gen_pem = (\<lambda>i cap. if 3 < cap then (0, ''KEY'') else (- 1, [])), pk_parse = (\<lambda>pem. 0), csr_der = (\<lambda>i pem cap. (int (length pem), pem)),
     md_sha256 = (\<lambda>m. (0, pad_to 32 m)), pk_sign = (\<lambda>i key h. (0, h)) \<rparr>"

definition bench_cfg :: config where
  "bench_cfg = \<lparr> cy_scan_command = ''GET_INFO'', cy_initial_password = ''12345678'',
     cy_mdns_channel_tag = [], cy_firmware_version = ''1.3.0'', cy_hardware_version = ''1.0'',
     cy_device_name = ''dev1'', cy_device_type = ''devtype1'',
     cy_router_ssid_prefix = ''ssid:'', cy_router_pass_prefix = ''pass:'', cy_ap_ssid_prefix = ''Cy_WiFi_'',
     cy_ble_base_uuid128 = replicate 16 NUL, claim_cert_pem = [], claim_key_pem = [], base_mac = ''MAC123'' \<rparr>"

definition bench :: "bool \<Rightarrow> (flash, bench_srp) env" where
  "bench writable = \<lparr> nvs = flash_nvs writable, srp = bench_srp_api, cry = bench_crypto, pki = bench_pki, cfg = bench_cfg,
     app_public = (\<lambda>line. False), adv_call = (\<lambda>i. 0), mdns_call = (\<lambda>i. ESP_OK), heap_ok = (\<lambda>n. True),
     stale = (\<lambda>n. replicate n NUL) \<rparr>"

lemma length_pad_to [simp]: "length (pad_to n b) = n"
  by (simp add: pad_to_def)

lemma pad_to_Nil [simp]: "pad_to n b = [] \<longleftrightarrow> n = 0"
  by (metis length_0_conv length_pad_to)

lemma bench_simps [simp]:
  "nvs (bench w) = flash_nvs w" "srp (bench w) = bench_srp_api" "cry (bench w) = bench_crypto"
  "pki (bench w) = bench_pki" "cfg (bench w) = bench_cfg" "app_public (bench w) line = False" "adv_call (bench w) i = 0"
  "mdns_call (bench w) i = ESP_OK" "heap_ok (bench w) k"
  by (simp_all add: bench_def)

lemma bench_pki_lawful: "pki_lawful bench_pki"
  by (simp add: pki_lawful_def bench_pki_def)

lemma bench_base64_lawful: "base64_lawful bench_crypto"
  using b64_dec_enc length_b64_enc b64_enc_sep
  by (simp add: base64_lawful_def bench_crypto_def)

lemma bench_gcm_lawful: "gcm_lawful bench_crypto"
  by (simp add: gcm_lawful_def bench_crypto_def)

lemma bench_cry_sized: "cry_sized bench_crypto"
  by (simp add: cry_sized_def bench_crypto_def)

end
