(* ===== verification/Paired_List.thy ===== *)
theory Paired_List
  imports Bench_Platform
begin

text \<open>
  The list of paired accounts, \<open>security/paired_list.c\<close>: a fixed array of 16 entries with a
  count, the account that owns the device, and the blob they are stored as in NVS.

  An operation here is the part of the C function that runs with the mutex held; the mDNS
  refresh that some of them end with is added where the whole device is in scope (theory
  \<open>Device\<close>). C strings in fixed fields are kept as the byte arrays they are.

  Shown: for every flash content, booting gives a well-formed list with one entry per account;
  every operation keeps it well formed whatever the flash does; add and remove implement list
  insertion and deletion; a failed write undoes an add; a stored list is the one loaded again.
\<close>

section \<open>Data\<close>

abbreviation (input) PAIRED_LIST_MAX :: nat where "PAIRED_LIST_MAX \<equiv> 16"
abbreviation (input) PAIRED_SUB_MAX :: nat where "PAIRED_SUB_MAX \<equiv> 40"
abbreviation (input) PAIRED_EMAIL_MAX :: nat where "PAIRED_EMAIL_MAX \<equiv> 64"
abbreviation (input) PAIRED_KEY_LEN :: nat where "PAIRED_KEY_LEN \<equiv> 32"
abbreviation (input) PAIRED_ROLE_USER :: nat where "PAIRED_ROLE_USER \<equiv> 1"
abbreviation (input) PAIRED_ROLE_OWNER :: nat where "PAIRED_ROLE_OWNER \<equiv> 2"
abbreviation (input) BLOB_VERSION :: nat where "BLOB_VERSION \<equiv> 3"
abbreviation (input) NVS_KEY_LIST :: bytes where "NVS_KEY_LIST \<equiv> ''paired''"

record paired_entry =
  user_sub :: bytes
  user_email :: bytes
  pkey :: bytes
  paired_at :: "32 word"
  prole :: nat

record paired_list =
  blob_version :: nat
  pcount :: nat
  owner_sub :: bytes
  entries :: "paired_entry list"

definition entry_zero :: paired_entry where
  "entry_zero = \<lparr> user_sub = replicate 41 NUL, user_email = replicate 65 NUL,
     pkey = replicate 32 NUL, paired_at = 0, prole = 0 \<rparr>"

text \<open>\<open>memset(&s_list, 0, sizeof)\<close> followed by setting the version.\<close>

definition list_zero :: paired_list where
  "list_zero = \<lparr> blob_version = BLOB_VERSION, pcount = 0, owner_sub = replicate 41 NUL,
     entries = replicate PAIRED_LIST_MAX entry_zero \<rparr>"

section \<open>The blob\<close>

text \<open>
  The layout of \<open>paired_entry_t\<close> (148 bytes) and \<open>paired_blob_t\<close> (48 bytes of header, then the
  entries), padding included, as the compiler lays them out on the target: \<open>paired_at\<close> is
  aligned to four bytes, little-endian.
\<close>

definition entry_bytes :: "paired_entry \<Rightarrow> bytes" where
  "entry_bytes e = user_sub e @ user_email e @ pkey e @ replicate 2 NUL @
     le32 (paired_at e) @ [char_of (prole e)] @ replicate 3 NUL"

definition entry_of_bytes :: "bytes \<Rightarrow> paired_entry" where
  "entry_of_bytes b = \<lparr> user_sub = take 41 b, user_email = take 65 (drop 41 b),
     pkey = take 32 (drop 106 b), paired_at = unle32 (drop 140 b), prole = of_char (b ! 144) \<rparr>"

definition blob_header :: "paired_list \<Rightarrow> bytes" where
  "blob_header l = [char_of (blob_version l), char_of (pcount l)] @ replicate 2 NUL @
     owner_sub l @ replicate 3 NUL"

definition blob_bytes :: "paired_list \<Rightarrow> bytes" where
  "blob_bytes l = blob_header l @ concat (map entry_bytes (entries l))"

definition blob_of_bytes :: "bytes \<Rightarrow> paired_list" where
  "blob_of_bytes b = \<lparr> blob_version = of_char (b ! 0), pcount = of_char (b ! 1),
     owner_sub = take 41 (drop 4 b),
     entries = map (\<lambda>i. entry_of_bytes (take 148 (drop (48 + 148 * i) b))) [0..<PAIRED_LIST_MAX] \<rparr>"

abbreviation blob_len :: "nat \<Rightarrow> nat" where "blob_len c \<equiv> 48 + c * 148"
abbreviation (input) BLOB_SIZE :: nat where "BLOB_SIZE \<equiv> 2416"

definition copy_field :: "nat \<Rightarrow> bytes \<Rightarrow> bytes" where
  "copy_field dst_size src = field_of dst_size src"

text \<open>
  The version 2 entry: \<open>install_id\<close> and \<open>display_name\<close> (33 bytes each) instead of the email. The copy
  into the 65-byte email field reads from \<open>display_name\<close> on up to a NUL or 64 bytes, past the end of the
  old field when it holds no NUL.
\<close>

definition entry_of_v2_bytes :: "bytes \<Rightarrow> paired_entry" where
  "entry_of_v2_bytes b = \<lparr> user_sub = take 41 b,
     user_email = copy_field 65 (drop 74 b),
     pkey = take 32 (drop 107 b), paired_at = unle32 (drop 140 b), prole = of_char (b ! 144) \<rparr>"

section \<open>NVS\<close>

definition paired_nvs_store :: "('n, 'h) env \<Rightarrow> paired_list \<Rightarrow> 'n \<Rightarrow> esp_err \<times> 'n" where
  "paired_nvs_store E l n0 =
    (let (err, n) = nvs_open (nvs E) CY_SEC NVS_READWRITE n0 in
     if err \<noteq> ESP_OK then (err, n) else
     let len = blob_len (pcount l);
         (err, n) =
           (if pcount l = 0 then
              let (err, n) = nvs_erase_key (nvs E) CY_SEC NVS_KEY_LIST n
              in (if err = ESP_ERR_NVS_NOT_FOUND then ESP_OK else err, n)
            else nvs_set (nvs E) CY_SEC NVS_KEY_LIST (Blob (take len (blob_bytes l))) n)
     in if err = ESP_OK then nvs_commit (nvs E) CY_SEC n else (err, n))"

text \<open>
  \<open>migrate_v2\<close>: the buffer is zeroed before the read, so bytes past the blob are zero.
\<close>

definition migrate_v2 :: "('n, 'h) env \<Rightarrow> 'n \<Rightarrow> paired_list \<Rightarrow> bool \<times> paired_list" where
  "migrate_v2 E n l =
    (if \<not> heap_ok E BLOB_SIZE then (False, l) else
     let (err, b) = nvs_get_blob (nvs E) CY_SEC NVS_KEY_LIST BLOB_SIZE n;
         old = memcpy_into (replicate BLOB_SIZE NUL) b;
         c = (of_char (old ! 1) :: nat) in
     if err = ESP_OK \<and> (of_char (old ! 0) :: nat) = 2 \<and> c \<le> PAIRED_LIST_MAX \<and> length b = blob_len c
     then (True, list_zero \<lparr> pcount := c, owner_sub := take 41 (drop 4 old),
             entries := map (\<lambda>i. if i < c then entry_of_v2_bytes (take 148 (drop (48 + 148 * i) old))
                                 else entry_zero) [0..<PAIRED_LIST_MAX] \<rparr>)
     else (False, l))"

definition paired_nvs_load :: "('n, 'h) env \<Rightarrow> 'n \<Rightarrow> bool \<times> paired_list \<times> 'n" where
  "paired_nvs_load E n0 =
    (let (err, n) = nvs_open (nvs E) CY_SEC NVS_READONLY n0 in
     if err \<noteq> ESP_OK then (False, list_zero, n) else
     let (err, b) = nvs_get_blob (nvs E) CY_SEC NVS_KEY_LIST BLOB_SIZE n;
         l = (if err = ESP_OK then blob_of_bytes (memcpy_into (blob_bytes list_zero) b) else list_zero);
         (migrated, l) =
           (if err = ESP_ERR_NVS_INVALID_LENGTH \<or> (err = ESP_OK \<and> blob_version l = 2)
            then migrate_v2 E n l else (False, l));
         bad = (\<not> migrated \<and> (err \<noteq> ESP_OK \<or> blob_version l \<noteq> BLOB_VERSION \<or>
            pcount l > PAIRED_LIST_MAX \<or> length b \<noteq> blob_len (pcount l)))
     in (migrated, if bad then list_zero else l, n))"

section \<open>Lookup\<close>

definition role_for_locked :: "paired_list \<Rightarrow> bytes \<Rightarrow> nat" where
  "role_for_locked l sub =
    (if owner_sub l ! 0 \<noteq> NUL \<and> strncmp_eq PAIRED_SUB_MAX sub (owner_sub l)
     then PAIRED_ROLE_OWNER else PAIRED_ROLE_USER)"

definition find_locked :: "paired_list \<Rightarrow> bytes \<Rightarrow> int" where
  "find_locked l sub =
    (case index_of (\<lambda>e. strncmp_eq PAIRED_SUB_MAX (user_sub e) sub) (take (pcount l) (entries l)) of
       Some i \<Rightarrow> int i | None \<Rightarrow> - 1)"

definition paired_list_count :: "paired_list \<Rightarrow> nat" where
  "paired_list_count l = pcount l"

definition paired_list_find :: "paired_list \<Rightarrow> bytes \<Rightarrow> int" where
  "paired_list_find l sub = find_locked l sub"

definition paired_list_get :: "paired_list \<Rightarrow> int \<Rightarrow> paired_entry option" where
  "paired_list_get l i =
    (if 0 \<le> i \<and> i < int (pcount l) then Some (entries l ! nat i) else None)"

section \<open>Removal of entry \<open>k\<close>, and of duplicate accounts\<close>

text \<open>The loop both callers share: shift the tail down, wipe the freed slot, lower the count.\<close>

definition remove_entry :: "nat \<Rightarrow> paired_list \<Rightarrow> paired_list" where
  "remove_entry k l = l \<lparr> entries := (shift_down (entries l) k (pcount l))[pcount l - 1 := entry_zero],
     pcount := pcount l - 1 \<rparr>"

function dedupe_inner :: "nat \<Rightarrow> nat \<Rightarrow> paired_list \<Rightarrow> bool \<Rightarrow> paired_list \<times> bool" where
  "dedupe_inner i j l changed =
    (if j < pcount l then
       if strncmp_eq PAIRED_SUB_MAX (user_sub (entries l ! j)) (user_sub (entries l ! i))
       then dedupe_inner i j (remove_entry j l) True
       else dedupe_inner i (j + 1) l changed
     else (l, changed))"
  by pat_completeness auto
termination
  by (relation "measure (\<lambda>(i, j, l, ch). pcount l - j)") (auto simp: remove_entry_def)

declare dedupe_inner.simps [simp del]

lemma dedupe_inner_count: "pcount (fst (dedupe_inner i j l ch)) \<le> pcount l"
  by (induction i j l ch rule: dedupe_inner.induct)
    (subst dedupe_inner.simps, auto simp: remove_entry_def)

function dedupe_outer :: "nat \<Rightarrow> paired_list \<Rightarrow> bool \<Rightarrow> paired_list \<times> bool" where
  "dedupe_outer i l changed =
    (if i < pcount l then
       let (l', changed') = dedupe_inner i (i + 1) l changed in dedupe_outer (i + 1) l' changed'
     else (l, changed))"
  by pat_completeness auto
termination
proof (relation "measure (\<lambda>(i, l, ch). pcount l - i)", goal_cases)
  case (2 i l changed x l' changed')
  then show ?case using dedupe_inner_count [of i "i + 1" l changed] by (auto simp: prod_eq_iff case_prod_beta)
qed simp

declare dedupe_outer.simps [simp del]

definition dedupe_accounts_locked :: "paired_list \<Rightarrow> paired_list \<times> bool" where
  "dedupe_accounts_locked l = dedupe_outer 0 l False"

section \<open>Operations\<close>

definition paired_list_init :: "('n, 'h) env \<Rightarrow> 'n \<Rightarrow> paired_list \<times> 'n" where
  "paired_list_init E n0 =
    (let (dirty, l, n) = paired_nvs_load E n0;
         (l, changed) = dedupe_accounts_locked l
     in if dirty \<or> changed then (l, snd (paired_nvs_store E l n)) else (l, n))"

text \<open>
  \<open>paired_list_add\<close> returns the index (or \<open>-1\<close>), the role, and the key: the caller's key for a
  new account, the stored one for an account that is already paired.
\<close>

definition paired_list_add_locked ::
  "('n, 'h) env \<Rightarrow> bytes \<Rightarrow> bytes \<Rightarrow> bytes \<Rightarrow> 32 word \<Rightarrow> paired_list \<Rightarrow> 'n
    \<Rightarrow> int \<times> nat \<times> bytes \<times> paired_list \<times> 'n" where
  "paired_list_add_locked E sub email key at l n =
    (if cstr sub = [] then (- 1, 0, key, l, n) else
     let i = find_locked l sub;
         claimed = (owner_sub l ! 0 = NUL);
         l1 = (if claimed then l \<lparr> owner_sub := copy_field 41 sub \<rparr> else l);
         unclaim = (\<lambda>l'. if claimed then l' \<lparr> owner_sub := (owner_sub l')[0 := NUL] \<rparr> else l') in
     if i < 0 \<and> pcount l1 \<ge> PAIRED_LIST_MAX then (- 1, 0, key, unclaim l1, n) else
     let appended = (i < 0);
         k = (if appended then pcount l1 else nat i);
         before = entries l1 ! k;
         e = (if appended then entry_zero \<lparr> user_sub := copy_field 41 sub, pkey := key \<rparr> else before);
         key' = (if appended then key else pkey before);
         e = (if cstr email \<noteq> [] then e \<lparr> user_email := copy_field 65 email \<rparr> else e);
         e = e \<lparr> paired_at := at, prole := role_for_locked l1 sub \<rparr>;
         l2 = l1 \<lparr> entries := (entries l1)[k := e],
                   pcount := (if appended then pcount l1 + 1 else pcount l1) \<rparr>;
         (err, n') = paired_nvs_store E l2 n in
     if err \<noteq> ESP_OK then
       (- 1, 0, key',
        unclaim (if appended
                 then l2 \<lparr> entries := (entries l2)[k := entry_zero], pcount := pcount l2 - 1 \<rparr>
                 else l2 \<lparr> entries := (entries l2)[k := before] \<rparr>), n')
     else (int k, prole e, key', l2, n'))"

definition paired_list_remove_locked ::
  "('n, 'h) env \<Rightarrow> int \<Rightarrow> paired_list \<Rightarrow> 'n \<Rightarrow> esp_err \<times> paired_list \<times> 'n" where
  "paired_list_remove_locked E i l n =
    (if i < 0 \<or> i \<ge> int (pcount l) then (ESP_ERR_NOT_FOUND, l, n) else
     let l1 = remove_entry (nat i) l; (err, n') = paired_nvs_store E l1 n in (err, l1, n'))"

text \<open>The fresh key of \<open>paired_list_rotate_owner_key\<close> is the 32 bytes \<open>esp_fill_random\<close> delivers.\<close>

definition rotate_owner_key_locked ::
  "('n, 'h) env \<Rightarrow> bytes \<Rightarrow> paired_list \<Rightarrow> 'n \<Rightarrow> esp_err \<times> paired_list \<times> 'n" where
  "rotate_owner_key_locked E fresh l n =
    (case index_of (\<lambda>e. prole e = PAIRED_ROLE_OWNER) (take (pcount l) (entries l)) of
       None \<Rightarrow> (ESP_OK, l, n)
     | Some r \<Rightarrow>
         let old = pkey (entries l ! r);
             l1 = l \<lparr> entries := (entries l)[r := (entries l ! r) \<lparr> pkey := fresh \<rparr>] \<rparr>;
             (err, n') = paired_nvs_store E l1 n in
         if err \<noteq> ESP_OK
         then (err, l1 \<lparr> entries := (entries l1)[r := (entries l1 ! r) \<lparr> pkey := old \<rparr>] \<rparr>, n')
         else (err, l1, n'))"

definition paired_list_clear_locked :: "('n, 'h) env \<Rightarrow> 'n \<Rightarrow> esp_err \<times> paired_list \<times> 'n" where
  "paired_list_clear_locked E n =
    (let (err, n') = paired_nvs_store E list_zero n in (err, list_zero, n'))"

section \<open>Invariant and abstraction\<close>

definition entry_wf :: "paired_entry \<Rightarrow> bool" where
  "entry_wf e \<longleftrightarrow> length (user_sub e) = 41 \<and> length (user_email e) = 65 \<and> length (pkey e) = 32 \<and>
     prole e < 256"

text \<open>The array keeps its shape, the count is in range and nothing is left past it.\<close>

definition paired_inv :: "paired_list \<Rightarrow> bool" where
  "paired_inv l \<longleftrightarrow> blob_version l = BLOB_VERSION \<and> pcount l \<le> PAIRED_LIST_MAX \<and>
     length (owner_sub l) = 41 \<and> length (entries l) = PAIRED_LIST_MAX \<and> list_all entry_wf (entries l) \<and>
     drop (pcount l) (entries l) = replicate (PAIRED_LIST_MAX - pcount l) entry_zero"

text \<open>The abstract list: the entries in use. Accounts are told apart by the first 40 bytes of their sub.\<close>

definition accounts :: "paired_list \<Rightarrow> paired_entry list" where
  "accounts l = take (pcount l) (entries l)"

definition sub_key :: "paired_entry \<Rightarrow> bytes" where
  "sub_key e = take PAIRED_SUB_MAX (cstr (user_sub e))"

definition one_per_account :: "paired_list \<Rightarrow> bool" where
  "one_per_account l \<longleftrightarrow> distinct (map sub_key (accounts l))"

text \<open>The role of an entry is the one its account has by ownership.\<close>

definition roles_ok :: "paired_list \<Rightarrow> bool" where
  "roles_ok l \<longleftrightarrow> list_all (\<lambda>e. prole e = role_for_locked l (user_sub e)) (accounts l)"

text \<open>Reference definition of \<open>dedupe_accounts_locked\<close>: the oldest entry of each account.\<close>

primrec oldest_per_account :: "paired_entry list \<Rightarrow> paired_entry list" where
  "oldest_per_account [] = []"
| "oldest_per_account (e # es) = e # filter (\<lambda>e'. sub_key e' \<noteq> sub_key e) (oldest_per_account es)"

lemma paired_invD:
  assumes "paired_inv l"
  shows "blob_version l = BLOB_VERSION" "pcount l \<le> PAIRED_LIST_MAX" "length (owner_sub l) = 41"
    "length (entries l) = PAIRED_LIST_MAX" "list_all entry_wf (entries l)"
    "drop (pcount l) (entries l) = replicate (PAIRED_LIST_MAX - pcount l) entry_zero"
  using assms by (auto simp: paired_inv_def)

lemma entry_zero_wf [simp]: "entry_wf entry_zero"
  by (simp add: entry_wf_def entry_zero_def)

lemma list_zero_inv [simp]: "paired_inv list_zero"
  by (simp add: paired_inv_def list_zero_def list_all_iff)

lemma list_zero_simps [simp]: "pcount list_zero = 0" "accounts list_zero = []"
  "owner_sub list_zero = replicate 41 NUL" "blob_version list_zero = 3"
  by (simp_all add: list_zero_def accounts_def)

lemma list_zero_more [simp]: "one_per_account list_zero" "roles_ok list_zero"
  by (simp_all add: one_per_account_def roles_ok_def)

lemma length_accounts [simp]: "paired_inv l \<Longrightarrow> length (accounts l) = pcount l"
  by (simp add: accounts_def paired_inv_def)

lemma nth_accounts: "i < pcount l \<Longrightarrow> accounts l ! i = entries l ! i"
  by (simp add: accounts_def)

lemma strncmp_user_sub:
  "strncmp_eq PAIRED_SUB_MAX (user_sub a) (user_sub b) \<longleftrightarrow> sub_key a = sub_key b"
  by (simp add: strncmp_eq_def sub_key_def)

lemma entry_wf_nth: "paired_inv l \<Longrightarrow> i < PAIRED_LIST_MAX \<Longrightarrow> entry_wf (entries l ! i)"
  by (auto simp: paired_inv_def list_all_length)

section \<open>Lookup\<close>

lemma find_locked_found:
  assumes "find_locked l sub = int i"
  shows "i < pcount l \<and> sub_key (entries l ! i) = take PAIRED_SUB_MAX (cstr sub)"
  using assms
  by (auto simp: find_locked_def strncmp_eq_def sub_key_def index_of_Some split: option.splits)

lemma find_locked_cases: "find_locked l sub = - 1 \<or> (\<exists>i. find_locked l sub = int i \<and> i < pcount l)"
  by (auto simp: find_locked_def index_of_Some split: option.splits)

lemma find_locked_neg: "find_locked l sub < 0 \<longleftrightarrow> find_locked l sub = - 1"
  using find_locked_cases [of l sub] by auto

lemma find_locked_none:
  "find_locked l sub = - 1 \<longleftrightarrow> take PAIRED_SUB_MAX (cstr sub) \<notin> sub_key ` set (accounts l)"
proof (cases "index_of (\<lambda>e. strncmp_eq PAIRED_SUB_MAX (user_sub e) sub) (accounts l)")
  case None
  then have "find_locked l sub = - 1" by (simp add: find_locked_def accounts_def)
  with None show ?thesis by (auto simp: index_of_None strncmp_eq_def sub_key_def)
next
  case (Some i)
  then have "find_locked l sub \<noteq> - 1" by (simp add: find_locked_def accounts_def)
  with index_of_SomeD [OF Some] show ?thesis
    by (auto simp: strncmp_eq_def sub_key_def intro!: image_eqI [of _ _ "accounts l ! i"])
qed

lemma find_locked_iff:
  assumes "one_per_account l" "i < pcount l" "pcount l \<le> length (entries l)"
    "sub_key (entries l ! i) = take PAIRED_SUB_MAX (cstr sub)"
  shows "find_locked l sub = int i"
proof -
  have m: "accounts l ! i \<in> set (accounts l)" using assms(2,3) by (intro nth_mem) (simp add: accounts_def)
  have "find_locked l sub \<noteq> - 1"
    using assms(2,4) m by (metis find_locked_none imageI nth_accounts)
  then obtain k where k: "find_locked l sub = int k" "k < pcount l" using find_locked_cases by blast
  then have "map sub_key (accounts l) ! k = map sub_key (accounts l) ! i"
    using find_locked_found [OF k(1)] assms by (simp add: accounts_def)
  then have "k = i"
    using assms k(2) nth_eq_iff_index_eq [of "map sub_key (accounts l)" k i]
    by (simp add: one_per_account_def accounts_def)
  with k show ?thesis by simp
qed

lemma paired_list_get_Some:
  "paired_list_get l i = Some e \<longleftrightarrow> 0 \<le> i \<and> i < int (pcount l) \<and> e = entries l ! nat i"
  by (auto simp: paired_list_get_def)

section \<open>Removal\<close>

lemma remove_entry_simps [simp]:
  "pcount (remove_entry k l) = pcount l - 1" "owner_sub (remove_entry k l) = owner_sub l"
  "blob_version (remove_entry k l) = blob_version l"
  by (simp_all add: remove_entry_def)

lemma remove_entry_accounts:
  assumes "paired_inv l" "k < pcount l"
  shows "accounts (remove_entry k l) = del_at k (accounts l)"
  using assms take_shift_down [of k "pcount l" "entries l" entry_zero]
  by (simp add: accounts_def remove_entry_def paired_inv_def)

lemma list_all_shift_down: "c \<le> length xs \<Longrightarrow> list_all P xs \<Longrightarrow> list_all P (shift_down xs k c)"
proof (induction xs k c rule: shift_down.induct)
  case (1 xs k c)
  show ?case
  proof (cases "Suc k < c")
    case True
    then have "list_all P (xs[k := xs ! Suc k])"
      using 1 by (intro list_all_updateI) (auto simp: list_all_length)
    with True 1 show ?thesis by (subst shift_down.simps) simp
  qed (use 1 in \<open>subst shift_down.simps, simp\<close>)
qed

lemma remove_entry_inv:
  assumes "paired_inv l" "k < pcount l"
  shows "paired_inv (remove_entry k l)"
proof -
  note i = paired_invD [OF assms(1)]
  have c: "pcount l \<le> length (entries l)" using i by simp
  have "drop (pcount l - 1) ((shift_down (entries l) k (pcount l))[pcount l - 1 := entry_zero])
      = entry_zero # replicate (16 - pcount l) entry_zero"
    using drop_shift_down [OF assms(2) c] i(6) by simp
  also have "\<dots> = replicate (16 - (pcount l - 1)) entry_zero"
    using i(2) assms(2) by (simp add: replicate_Suc [symmetric] Suc_diff_le del: replicate_Suc)
  finally show ?thesis
    using i c unfolding paired_inv_def
    by (auto simp: remove_entry_def intro!: list_all_updateI list_all_shift_down)
qed

lemma one_per_account_del: "one_per_account l \<Longrightarrow> accounts l' = del_at k (accounts l) \<Longrightarrow> one_per_account l'"
  by (simp add: one_per_account_def map_del_at distinct_del_at)

lemma roles_ok_del:
  assumes "roles_ok l" "accounts l' = del_at k (accounts l)" "owner_sub l' = owner_sub l"
  shows "roles_ok l'"
  using assms set_del_at_subset [of k "accounts l"]
  by (auto simp: roles_ok_def list_all_iff role_for_locked_def)

section \<open>Collapsing duplicate accounts\<close>

lemma oldest_filter:
  "oldest_per_account (filter (\<lambda>e. sub_key e \<noteq> s) es) = filter (\<lambda>e. sub_key e \<noteq> s) (oldest_per_account es)"
  by (induction es) (auto simp: filter_filter intro: filter_cong)

lemma oldest_distinct: "distinct (map sub_key (oldest_per_account es))"
  by (induction es) (auto simp: distinct_map inj_on_def)

lemma oldest_id: "distinct (map sub_key es) \<Longrightarrow> oldest_per_account es = es"
  by (induction es) (auto simp: filter_id_conv image_iff)

lemma dedupe_inner_stop: "\<not> j < pcount l \<Longrightarrow> dedupe_inner i j l ch = (l, ch)"
  by (subst dedupe_inner.simps) simp

lemma dedupe_inner_step:
  "j < pcount l \<Longrightarrow> dedupe_inner i j l ch =
     (if sub_key (entries l ! j) = sub_key (entries l ! i)
      then dedupe_inner i j (remove_entry j l) True else dedupe_inner i (j + 1) l ch)"
  by (subst dedupe_inner.simps) (simp add: strncmp_user_sub)

lemma dedupe_inner_accounts:
  assumes "paired_inv l" "i < j" "j \<le> pcount l"
  shows "paired_inv (fst (dedupe_inner i j l ch)) \<and> owner_sub (fst (dedupe_inner i j l ch)) = owner_sub l \<and>
    accounts (fst (dedupe_inner i j l ch)) =
      take j (accounts l) @ filter (\<lambda>e. sub_key e \<noteq> sub_key (accounts l ! i)) (drop j (accounts l))"
  using assms
proof (induction i j l ch rule: dedupe_inner.induct)
  case (1 i j l ch)
  have len: "length (accounts l) = pcount l" using 1 by simp
  show ?case
  proof (cases "j < pcount l")
    case False
    with 1 len show ?thesis by (simp add: dedupe_inner_stop)
  next
    case True
    let ?A = "accounts l"
    have d: "drop j ?A = ?A ! j # drop (Suc j) ?A" using True len by (simp add: Cons_nth_drop_Suc)
    have e: "entries l ! j = ?A ! j" "entries l ! i = ?A ! i" using True 1 by (simp_all add: nth_accounts)
    show ?thesis
    proof (cases "sub_key (?A ! j) = sub_key (?A ! i)")
      case eq: True
      let ?l = "remove_entry j l"
      have A: "accounts ?l = take j ?A @ drop (Suc j) ?A"
        using remove_entry_accounts [OF 1(3) True] by (simp add: del_at_def)
      have "accounts ?l ! i = ?A ! i" using 1 True len by (simp add: A nth_append)
      moreover have "take j (accounts ?l) = take j ?A" "drop j (accounts ?l) = drop (Suc j) ?A"
        using True len by (simp_all add: A)
      ultimately show ?thesis
        using 1(1) [OF True _ remove_entry_inv [OF 1(3) True]] 1(4) True eq d e
        by (simp add: dedupe_inner_step strncmp_user_sub)
    next
      case neq: False
      then show ?thesis
        using 1(2) [OF True _ 1(3)] 1(4) True d e len
        by (simp add: dedupe_inner_step strncmp_user_sub take_Suc_conv_app_nth)
    qed
  qed
qed

lemma dedupe_outer_accounts:
  assumes "paired_inv l" "i \<le> pcount l"
  shows "paired_inv (fst (dedupe_outer i l ch)) \<and> owner_sub (fst (dedupe_outer i l ch)) = owner_sub l \<and>
    accounts (fst (dedupe_outer i l ch)) = take i (accounts l) @ oldest_per_account (drop i (accounts l))"
  using assms
proof (induction i l ch rule: dedupe_outer.induct)
  case (1 i l ch)
  have len: "length (accounts l) = pcount l" using 1 by simp
  show ?case
  proof (cases "i < pcount l")
    case False
    with 1 len show ?thesis by (subst (1 2 3) dedupe_outer.simps) simp
  next
    case True
    obtain l' ch' where l': "dedupe_inner i (Suc i) l ch = (l', ch')" by fastforce
    let ?A = "accounts l"
    have d: "drop i ?A = ?A ! i # drop (Suc i) ?A" using True len by (simp add: Cons_nth_drop_Suc)
    from dedupe_inner_accounts [of l i "Suc i" ch] 1(2) True
    have p: "paired_inv l'" "owner_sub l' = owner_sub l" and
      A: "accounts l' = take (Suc i) ?A @ filter (\<lambda>e. sub_key e \<noteq> sub_key (?A ! i)) (drop (Suc i) ?A)"
      by (simp_all add: l')
    have "i + 1 \<le> pcount l'"
      using A True len length_accounts [OF p(1)] by (metis Suc_eq_plus1 Suc_leI le_add1 length_append length_take min.absorb2)
    from 1(1) [OF True refl _ p(1) this, of ch'] p(2)
    show ?thesis
      using True len
      by (subst (1 2 3) dedupe_outer.simps)
        (simp add: l' A d oldest_filter take_Suc_conv_app_nth)
  qed
qed

lemma dedupe_accounts:
  assumes "paired_inv l"
  shows "paired_inv (fst (dedupe_accounts_locked l))"
    "owner_sub (fst (dedupe_accounts_locked l)) = owner_sub l"
    "accounts (fst (dedupe_accounts_locked l)) = oldest_per_account (accounts l)"
    "one_per_account (fst (dedupe_accounts_locked l))"
  using dedupe_outer_accounts [OF assms, of 0 False]
  by (simp_all add: dedupe_accounts_locked_def one_per_account_def oldest_distinct)

section \<open>The blob round trip\<close>

lemma length_entry_bytes: "entry_wf e \<Longrightarrow> length (entry_bytes e) = 148"
  by (simp add: entry_bytes_def entry_wf_def)

lemma entry_bytes_zero: "entry_bytes entry_zero = replicate 148 NUL"
proof -
  have "le32 0 = [NUL, NUL, NUL, NUL]"
    by (simp add: le32_def put_u32_def byte_of_def)
  then have l: "le32 0 = replicate 4 NUL" by (simp add: numeral_eq_Suc)
  have "replicate 148 NUL = replicate (41 + (65 + (32 + (2 + (4 + (1 + 3)))))) NUL" by simp
  then show ?thesis
    unfolding replicate_add by (simp add: entry_bytes_def entry_zero_def l)
qed

lemma entry_of_bytes_entry_bytes: "entry_wf e \<Longrightarrow> entry_of_bytes (entry_bytes e) = e"
proof -
  assume w: "entry_wf e"
  have "entry_bytes e ! 144 = char_of (prole e)"
    using w by (simp add: entry_bytes_def entry_wf_def nth_append)
  with w show ?thesis
    by (cases e) (simp add: entry_of_bytes_def entry_bytes_def entry_wf_def)
qed

lemma entry_of_bytes_wf: "length b = 148 \<Longrightarrow> entry_wf (entry_of_bytes b)"
  by (simp add: entry_of_bytes_def entry_wf_def)

lemma length_blob_header: "paired_inv l \<Longrightarrow> length (blob_header l) = 48"
  by (simp add: blob_header_def paired_inv_def)

lemma length_blob_bytes:
  assumes "paired_inv l"
  shows "length (blob_bytes l) = BLOB_SIZE"
proof -
  have "length (concat (map entry_bytes (entries l))) = 148 * length (entries l)"
    using paired_invD(5) [OF assms] by (intro length_concat_chunks length_entry_bytes) (simp add: list_all_iff)
  then show ?thesis
    by (simp add: blob_bytes_def length_blob_header [OF assms] paired_invD(4) [OF assms])
qed

lemma drop_blob_bytes:
  assumes "paired_inv l"
  shows "drop (blob_len (pcount l)) (blob_bytes l) = replicate (BLOB_SIZE - blob_len (pcount l)) NUL"
proof -
  note i = paired_invD [OF assms]
  have s: "entries l = take (pcount l) (entries l) @ replicate (16 - pcount l) entry_zero"
    using i(6) append_take_drop_id [of "pcount l" "entries l"] by metis
  have "length (concat (map entry_bytes (take (pcount l) (entries l)))) = 148 * pcount l"
    using i by (subst length_concat_chunks [where n = 148])
      (auto simp: list_all_iff length_entry_bytes dest: in_set_takeD)
  moreover have "concat (map entry_bytes (entries l)) =
      concat (map entry_bytes (take (pcount l) (entries l))) @ replicate ((16 - pcount l) * 148) NUL"
    by (subst s) (simp only: map_append concat_append map_replicate entry_bytes_zero
        concat_replicate_replicate)
  ultimately show ?thesis
    using i length_blob_header [OF assms] by (simp add: blob_bytes_def algebra_simps)
qed

lemma drop_blob_zero:
  assumes "48 \<le> m"
  shows "drop m (blob_bytes list_zero) = replicate (BLOB_SIZE - m) NUL"
proof -
  have "drop m (blob_bytes list_zero) = drop (m - 48) (drop 48 (blob_bytes list_zero))"
    using assms by simp
  also have "drop 48 (blob_bytes list_zero) = replicate 2368 NUL"
    using drop_blob_bytes [of list_zero] by simp
  finally show ?thesis using assms by simp
qed

lemma blob_of_bytes_blob_bytes:
  assumes "paired_inv l"
  shows "blob_of_bytes (blob_bytes l) = l"
proof -
  note i = paired_invD [OF assms] and h = length_blob_header [OF assms]
  have "map (\<lambda>i. entry_of_bytes (take 148 (drop (48 + 148 * i) (blob_bytes l)))) [0..<16] = entries l"
  proof (rule nth_equalityI)
    fix k assume "k < length (map (\<lambda>i. entry_of_bytes (take 148 (drop (48 + 148 * i) (blob_bytes l)))) [0..<16])"
    then have k: "k < 16" by simp
    have "take 148 (drop (148 * k) (concat (map entry_bytes (entries l)))) = entry_bytes (entries l ! k)"
      using i k by (intro take_drop_chunks) (auto simp: list_all_iff intro: length_entry_bytes)
    then show "map (\<lambda>i. entry_of_bytes (take 148 (drop (48 + 148 * i) (blob_bytes l)))) [0..<16] ! k
        = entries l ! k"
      using k h entry_wf_nth [OF assms k] by (simp add: blob_bytes_def entry_of_bytes_entry_bytes)
  qed (use i in simp)
  moreover have "blob_bytes l ! 0 = char_of (blob_version l)" "blob_bytes l ! 1 = char_of (pcount l)"
    by (simp_all add: blob_bytes_def blob_header_def)
  moreover have "take 41 (drop 4 (blob_bytes l)) = owner_sub l"
    using i by (simp add: blob_bytes_def blob_header_def)
  ultimately show ?thesis
    using i by (cases l) (simp add: blob_of_bytes_def)
qed

lemma blob_reload:
  assumes "paired_inv l"
  shows "blob_of_bytes (memcpy_into (blob_bytes list_zero) (take (blob_len (pcount l)) (blob_bytes l))) = l"
proof -
  let ?b = "take (blob_len (pcount l)) (blob_bytes l)"
  have n: "length ?b = blob_len (pcount l)"
    using length_blob_bytes [OF assms] paired_invD(2) [OF assms] by simp
  have "memcpy_into (blob_bytes list_zero) ?b = ?b @ drop (blob_len (pcount l)) (blob_bytes l)"
    by (simp only: memcpy_into_def n drop_blob_bytes [OF assms] drop_blob_zero [OF le_add1])
  also have "\<dots> = blob_bytes l" by simp
  finally show ?thesis by (simp add: blob_of_bytes_blob_bytes [OF assms])
qed

lemma length_stored_blob:
  "paired_inv l \<Longrightarrow> length (take (blob_len (pcount l)) (blob_bytes l)) = blob_len (pcount l)"
  using length_blob_bytes [of l] paired_invD(2) [of l] by simp

section \<open>Whatever the flash holds, the loaded list is well formed\<close>

lemma entry_of_zero_bytes: "entry_of_bytes (replicate 148 NUL) = entry_zero"
  using entry_of_bytes_entry_bytes [of entry_zero] by (simp add: entry_bytes_zero)

lemma map_tail_zero:
  assumes "c \<le> 16" "\<And>i. c \<le> i \<Longrightarrow> i < 16 \<Longrightarrow> f i = z"
  shows "drop c (map f [0..<16]) = replicate (16 - c) z"
  by (rule nth_equalityI) (use assms in auto)

lemma blob_of_bytes_inv:
  assumes "length b = blob_len c" "c \<le> PAIRED_LIST_MAX"
    and l: "l = blob_of_bytes (memcpy_into (blob_bytes list_zero) b)" "pcount l = c" "blob_version l = BLOB_VERSION"
  shows "paired_inv l"
proof -
  let ?raw = "memcpy_into (blob_bytes list_zero) b"
  have raw: "?raw = b @ replicate (2416 - blob_len c) NUL"
    using assms(1) by (simp only: memcpy_into_def drop_blob_zero [OF le_add1])
  have len: "length ?raw = 2416" using assms(1,2) by (simp add: raw)
  let ?e = "\<lambda>i. entry_of_bytes (take 148 (drop (48 + 148 * i) ?raw))"
  have es: "entries l = map ?e [0..<16]" by (simp add: l(1) blob_of_bytes_def)
  have z: "?e i = entry_zero" if "c \<le> i" "i < 16" for i
  proof -
    have "drop (48 + 148 * i) ?raw = replicate (2416 - (48 + 148 * i)) NUL"
      using that assms(1) by (simp add: raw)
    then have "take 148 (drop (48 + 148 * i) ?raw) = replicate 148 NUL"
      using that by (simp add: min_def)
    then show ?thesis by (simp only: entry_of_zero_bytes)
  qed
  have "drop c (entries l) = replicate (16 - c) entry_zero"
    unfolding es by (rule map_tail_zero [OF assms(2) z])
  moreover have "list_all entry_wf (entries l)"
    unfolding es using len by (auto simp: list_all_iff intro!: entry_of_bytes_wf)
  moreover have "length (owner_sub l) = 41" using len by (simp add: l(1) blob_of_bytes_def)
  ultimately show ?thesis
    using assms(2) l(2,3) es by (simp add: paired_inv_def)
qed

lemma copy_field_length [simp]: "0 < n \<Longrightarrow> length (copy_field n s) = n"
  by (simp add: copy_field_def)

lemma migrate_v2_inv:
  assumes "migrate_v2 E n l = (True, l')"
  shows "paired_inv l'"
proof -
  obtain err b where gb: "nvs_get_blob (nvs E) CY_SEC NVS_KEY_LIST BLOB_SIZE n = (err, b)" by fastforce
  define old where "old = memcpy_into (replicate BLOB_SIZE NUL) b"
  define c where "c = (of_char (old ! 1) :: nat)"
  from assms have c: "c \<le> 16" "length b = blob_len c" and
    l': "l' = list_zero \<lparr> pcount := c, owner_sub := take 41 (drop 4 old),
      entries := map (\<lambda>i. if i < c then entry_of_v2_bytes (take 148 (drop (48 + 148 * i) old))
                          else entry_zero) [0..<16] \<rparr>"
    by (auto simp: migrate_v2_def gb Let_def old_def c_def split: if_splits)
  have len: "length old = 2416" using c by (simp add: old_def)
  have "entry_wf (entry_of_v2_bytes (take 148 (drop (48 + 148 * i) old)))" if "i < c" for i
    using that c len by (simp add: entry_wf_def entry_of_v2_bytes_def)
  then have "list_all entry_wf (entries l')" by (auto simp: l' list_all_iff)
  moreover have "drop c (entries l') = replicate (16 - c) entry_zero"
    unfolding l' by (simp, rule map_tail_zero [OF c(1)]) simp
  ultimately show ?thesis
    using c len by (simp add: paired_inv_def l' list_zero_def)
qed

lemma paired_nvs_load_inv: "paired_inv (fst (snd (paired_nvs_load E n)))"
proof -
  obtain err n1 where o: "nvs_open (nvs E) CY_SEC NVS_READONLY n = (err, n1)" by fastforce
  obtain err2 b where gb: "nvs_get_blob (nvs E) CY_SEC NVS_KEY_LIST BLOB_SIZE n1 = (err2, b)" by fastforce
  define l where "l = (if err2 = ESP_OK then blob_of_bytes (memcpy_into (blob_bytes list_zero) b) else list_zero)"
  obtain mig l2 where m: "(if err2 = ESP_ERR_NVS_INVALID_LENGTH \<or> (err2 = ESP_OK \<and> blob_version l = 2)
      then migrate_v2 E n1 l else (False, l)) = (mig, l2)" by fastforce
  show ?thesis
  proof (cases "err = ESP_OK")
    case True
    have r: "fst (snd (paired_nvs_load E n)) = (if \<not> mig \<and> (err2 \<noteq> ESP_OK \<or> blob_version l2 \<noteq> 3 \<or>
        pcount l2 > 16 \<or> length b \<noteq> blob_len (pcount l2)) then list_zero else l2)"
      using True by (simp add: paired_nvs_load_def o gb l_def [symmetric] m)
    show ?thesis
    proof (cases mig)
      case True
      then have "migrate_v2 E n1 l = (True, l2)" using m by (auto split: if_splits)
      then show ?thesis using r True migrate_v2_inv by simp
    next
      case False
      then have "l2 = l" using m by (auto simp: migrate_v2_def Let_def split: if_splits prod.splits)
      then show ?thesis
        using r False blob_of_bytes_inv [of b "pcount l" l] by (auto simp: l_def)
    qed
  qed (simp add: paired_nvs_load_def o)
qed

section \<open>Storing and booting\<close>

definition stored :: "paired_list \<Rightarrow> nvs_value option" where
  "stored l = (if pcount l = 0 then None else Some (Blob (take (blob_len (pcount l)) (blob_bytes l))))"

lemma paired_nvs_store_view:
  assumes "nvs_lawful (nvs E) view" "fst (paired_nvs_store E l n) = ESP_OK"
  shows "view (snd (paired_nvs_store E l n)) = (view n)((CY_SEC, NVS_KEY_LIST) := stored l)"
  using assms(2) nvs_lawfulD [OF assms(1)]
  by (auto simp: paired_nvs_store_def stored_def Let_def case_prod_beta split: if_splits)

lemma paired_nvs_store_reliable: "nvs_reliable (nvs E) \<Longrightarrow> fst (paired_nvs_store E l n) = ESP_OK"
  using nvs_reliableD [of "nvs E"]
  by (fastforce simp: paired_nvs_store_def Let_def case_prod_beta)

lemma dedupe_inner_id:
  assumes "paired_inv l" "one_per_account l" "i < j" "j \<le> pcount l"
  shows "dedupe_inner i j l ch = (l, ch)"
  using assms
proof (induction i j l ch rule: dedupe_inner.induct)
  case (1 i j l ch)
  show ?case
  proof (cases "j < pcount l")
    case True
    have "map sub_key (accounts l) ! j \<noteq> map sub_key (accounts l) ! i"
      using True 1 by (subst nth_eq_iff_index_eq) (auto simp: one_per_account_def)
    then have "sub_key (entries l ! j) \<noteq> sub_key (entries l ! i)"
      using True 1 by (simp add: accounts_def paired_inv_def)
    then show ?thesis using True 1 by (simp add: dedupe_inner_step strncmp_user_sub)
  qed (simp add: dedupe_inner_stop)
qed

lemma dedupe_outer_id:
  assumes "paired_inv l" "one_per_account l"
  shows "dedupe_outer i l ch = (l, ch)"
  using assms
proof (induction i l ch rule: dedupe_outer.induct)
  case (1 i l ch)
  then show ?case
    by (subst dedupe_outer.simps) (auto simp: dedupe_inner_id)
qed

lemma dedupe_accounts_id: "paired_inv l \<Longrightarrow> one_per_account l \<Longrightarrow> dedupe_accounts_locked l = (l, False)"
  by (simp add: dedupe_accounts_locked_def dedupe_outer_id)

lemma paired_list_init_ok:
  "paired_inv (fst (paired_list_init E n))" "one_per_account (fst (paired_list_init E n))"
  using paired_nvs_load_inv [of E n] dedupe_accounts [of "fst (snd (paired_nvs_load E n))"]
  by (auto simp: paired_list_init_def Let_def case_prod_beta)

lemma paired_nvs_load_stored:
  assumes law: "nvs_lawful (nvs E) view" and inv: "paired_inv l"
    and v: "view n (CY_SEC, NVS_KEY_LIST) = stored l"
  shows "\<exists>n'. paired_nvs_load E n = (False, if pcount l = 0 then list_zero else l, n')"
proof -
  obtain err n1 where o: "nvs_open (nvs E) CY_SEC NVS_READONLY n = (err, n1)" by fastforce
  have v1: "view n1 (CY_SEC, NVS_KEY_LIST) = stored l"
    using nvs_open_view [OF law, of CY_SEC NVS_READONLY n] v o by simp
  show ?thesis
  proof (cases "pcount l = 0")
    case True
    then have "nvs_get_blob (nvs E) CY_SEC NVS_KEY_LIST BLOB_SIZE n1 = (ESP_ERR_NVS_NOT_FOUND, [])"
      using nvs_get_blob_None [OF law] v1 by (simp add: stored_def)
    then show ?thesis using True by (simp add: paired_nvs_load_def o)
  next
    case False
    let ?b = "take (blob_len (pcount l)) (blob_bytes l)"
    have s: "stored l = Some (Blob ?b)" using False by (simp add: stored_def)
    have err: "err = ESP_OK"
      using nvs_open_ro [OF law, of n CY_SEC NVS_KEY_LIST] v s o by simp
    have "nvs_get_blob (nvs E) CY_SEC NVS_KEY_LIST BLOB_SIZE n1 = (ESP_OK, ?b)"
      using v1 s paired_invD(2) [OF inv] length_stored_blob [OF inv]
      by (intro nvs_get_blob_Some [OF law]) simp_all
    then show ?thesis
      using err False paired_invD(1,2) [OF inv] length_stored_blob [OF inv]
      by (simp add: paired_nvs_load_def o blob_reload [OF inv] del: length_take)
  qed
qed

lemma paired_list_reload:
  assumes "nvs_lawful (nvs E) view" "paired_inv l" "one_per_account l"
    "view n (CY_SEC, NVS_KEY_LIST) = stored l"
  shows "fst (paired_list_init E n) = (if pcount l = 0 then list_zero else l)"
proof -
  define l' where "l' = (if pcount l = 0 then list_zero else l)"
  have "paired_inv l'" "one_per_account l'" using assms(2,3) by (cases "pcount l = 0"; simp add: l'_def)+
  then have d: "dedupe_accounts_locked l' = (l', False)" by (rule dedupe_accounts_id)
  obtain n' where load: "paired_nvs_load E n = (False, l', n')"
    using paired_nvs_load_stored [OF assms(1), OF assms(2,4)] unfolding l'_def by metis
  show ?thesis unfolding paired_list_init_def load Let_def prod.case d l'_def [symmetric] by simp
qed

section \<open>Adding an account\<close>

text \<open>The entry an add writes: a fresh one, or the old one with its label, time and role refreshed.\<close>

definition new_entry :: "paired_list \<Rightarrow> bytes \<Rightarrow> bytes \<Rightarrow> bytes \<Rightarrow> 32 word \<Rightarrow> paired_entry" where
  "new_entry l1 sub email key at = entry_zero \<lparr> user_sub := copy_field 41 sub, pkey := key,
     user_email := (if cstr email \<noteq> [] then copy_field 65 email else replicate 65 NUL),
     paired_at := at, prole := role_for_locked l1 sub \<rparr>"

definition old_entry :: "paired_list \<Rightarrow> bytes \<Rightarrow> bytes \<Rightarrow> 32 word \<Rightarrow> paired_entry \<Rightarrow> paired_entry" where
  "old_entry l1 sub email at e = e \<lparr>
     user_email := (if cstr email \<noteq> [] then copy_field 65 email else user_email e),
     paired_at := at, prole := role_for_locked l1 sub \<rparr>"

definition claim_owner :: "bytes \<Rightarrow> paired_list \<Rightarrow> paired_list" where
  "claim_owner sub l = (if owner_sub l ! 0 = NUL then l \<lparr> owner_sub := copy_field 41 sub \<rparr> else l)"

lemma claim_owner_simps [simp]:
  "pcount (claim_owner sub l) = pcount l" "entries (claim_owner sub l) = entries l"
  "blob_version (claim_owner sub l) = blob_version l" "accounts (claim_owner sub l) = accounts l"
  by (simp_all add: claim_owner_def accounts_def)

lemma claim_owner_inv: "paired_inv l \<Longrightarrow> paired_inv (claim_owner sub l)"
  by (simp add: claim_owner_def paired_inv_def)

text \<open>\<open>paired_list_add\<close>, case by case.\<close>

lemma add_empty_sub: "cstr sub = [] \<Longrightarrow> paired_list_add_locked E sub email key at l n = (- 1, 0, key, l, n)"
  by (simp add: paired_list_add_locked_def)

lemma add_new_ok:
  assumes "cstr sub \<noteq> []" "find_locked l sub = - 1" "pcount l < PAIRED_LIST_MAX"
    and l2: "l2 = (claim_owner sub l) \<lparr> entries := (entries l)[pcount l := new_entry (claim_owner sub l) sub email key at],
        pcount := pcount l + 1 \<rparr>"
    and "paired_nvs_store E l2 n = (ESP_OK, n')"
  shows "paired_list_add_locked E sub email key at l n =
    (int (pcount l), role_for_locked (claim_owner sub l) sub, key, l2, n')"
  using assms
  by (auto simp: paired_list_add_locked_def new_entry_def claim_owner_def entry_zero_def Let_def)

lemma add_old_ok:
  assumes "cstr sub \<noteq> []" "find_locked l sub = int i"
    and l2: "l2 = (claim_owner sub l) \<lparr> entries := (entries l)[i := old_entry (claim_owner sub l) sub email at (entries l ! i)] \<rparr>"
    and "paired_nvs_store E l2 n = (ESP_OK, n')"
  shows "paired_list_add_locked E sub email key at l n =
    (int i, role_for_locked (claim_owner sub l) sub, pkey (entries l ! i), l2, n')"
  using assms
  by (auto simp: paired_list_add_locked_def old_entry_def claim_owner_def Let_def)

text \<open>The undo of a claim of ownership clears the first byte of the owner field.\<close>

definition unclaim :: "paired_list \<Rightarrow> paired_list \<Rightarrow> paired_list" where
  "unclaim l l1 = (if owner_sub l ! 0 = NUL then l1 \<lparr> owner_sub := (owner_sub l1)[0 := NUL] \<rparr> else l1)"

lemma add_full:
  assumes "cstr sub \<noteq> []" "find_locked l sub = - 1" "\<not> pcount l < PAIRED_LIST_MAX"
  shows "paired_list_add_locked E sub email key at l n = (- 1, 0, key, unclaim l (claim_owner sub l), n)"
  using assms
  by (auto simp: paired_list_add_locked_def claim_owner_def unclaim_def Let_def)

lemma add_new_fail:
  assumes "cstr sub \<noteq> []" "find_locked l sub = - 1" "pcount l < PAIRED_LIST_MAX"
    and l2: "l2 = (claim_owner sub l) \<lparr> entries := (entries l)[pcount l := new_entry (claim_owner sub l) sub email key at],
        pcount := pcount l + 1 \<rparr>"
    and "paired_nvs_store E l2 n = (err, n')" "err \<noteq> ESP_OK"
  shows "paired_list_add_locked E sub email key at l n = (- 1, 0, key,
    unclaim l (l2 \<lparr> entries := (entries l2)[pcount l := entry_zero], pcount := pcount l2 - 1 \<rparr>), n')"
  using assms
  by (auto simp: paired_list_add_locked_def new_entry_def claim_owner_def unclaim_def entry_zero_def Let_def)

lemma add_old_fail:
  assumes "cstr sub \<noteq> []" "find_locked l sub = int i"
    and l2: "l2 = (claim_owner sub l) \<lparr> entries := (entries l)[i := old_entry (claim_owner sub l) sub email at (entries l ! i)] \<rparr>"
    and "paired_nvs_store E l2 n = (err, n')" "err \<noteq> ESP_OK"
  shows "paired_list_add_locked E sub email key at l n = (- 1, 0, pkey (entries l ! i),
    unclaim l (l2 \<lparr> entries := (entries l2)[i := entries l ! i] \<rparr>), n')"
  using assms
  by (auto simp: paired_list_add_locked_def old_entry_def claim_owner_def unclaim_def Let_def)

text \<open>Two lists that differ at most in the dead bytes of an empty owner field.\<close>

definition same_list :: "paired_list \<Rightarrow> paired_list \<Rightarrow> bool" where
  "same_list l l' \<longleftrightarrow> blob_version l' = blob_version l \<and> pcount l' = pcount l \<and> entries l' = entries l \<and>
     cstr (owner_sub l') = cstr (owner_sub l) \<and> length (owner_sub l') = length (owner_sub l)"

lemma same_list_refl [simp]: "same_list l l"
  by (simp add: same_list_def)

lemma same_list_accounts: "same_list l l' \<Longrightarrow> accounts l' = accounts l"
  by (simp add: same_list_def accounts_def)

lemma same_list_inv: "same_list l l' \<Longrightarrow> paired_inv l \<Longrightarrow> paired_inv l'"
  by (simp add: same_list_def paired_inv_def)

lemma role_for_locked_alt:
  "owner_sub l \<noteq> [] \<Longrightarrow> role_for_locked l sub =
    (if cstr (owner_sub l) \<noteq> [] \<and> take PAIRED_SUB_MAX (cstr sub) = take PAIRED_SUB_MAX (cstr (owner_sub l))
     then PAIRED_ROLE_OWNER else PAIRED_ROLE_USER)"
  by (simp add: role_for_locked_def strncmp_eq_def cstr_Nil_iff)

lemma same_list_roles: "same_list l l' \<Longrightarrow> paired_inv l \<Longrightarrow> roles_ok l \<Longrightarrow> roles_ok l'"
proof -
  assume a: "same_list l l'" "paired_inv l" "roles_ok l"
  then have "owner_sub l \<noteq> []" "owner_sub l' \<noteq> []" by (auto simp: same_list_def paired_inv_def)
  then have "role_for_locked l' = role_for_locked l"
    using a by (auto simp: role_for_locked_alt same_list_def)
  with a show ?thesis by (simp add: roles_ok_def same_list_accounts)
qed

lemma same_list_one: "same_list l l' \<Longrightarrow> one_per_account l \<Longrightarrow> one_per_account l'"
  by (simp add: one_per_account_def same_list_accounts)

lemma entries_past_count: "paired_inv l \<Longrightarrow> pcount l < PAIRED_LIST_MAX \<Longrightarrow> entries l ! pcount l = entry_zero"
proof -
  assume a: "paired_inv l" "pcount l < 16"
  then have "drop (pcount l) (entries l) ! 0 = entry_zero"
    by (simp add: paired_invD(6))
  with a show ?thesis by (simp add: paired_invD(4))
qed

lemma unclaim_same:
  assumes "paired_inv l" "pcount l1 = pcount l" "entries l1 = entries l" "blob_version l1 = blob_version l"
    "owner_sub l1 = owner_sub (claim_owner sub l)"
  shows "same_list l (unclaim l l1)"
proof (cases "owner_sub l ! 0 = NUL")
  case True
  have "owner_sub l \<noteq> []" using paired_invD(3) [OF assms(1)] by auto
  then have "cstr (owner_sub l) = []" using True by (simp add: cstr_Nil_iff)
  moreover have "cstr ((copy_field 41 sub)[0 := NUL]) = []"
    by (subst cstr_Nil_iff) (auto simp: copy_field_def field_of_def Let_def)
  ultimately show ?thesis
    using assms True paired_invD(3) [OF assms(1)]
    by (simp add: same_list_def unclaim_def claim_owner_def)
qed (use assms in \<open>simp add: same_list_def unclaim_def claim_owner_def\<close>)

lemma add_cases:
  obtains (empty) "cstr sub = []"
  | (full) "cstr sub \<noteq> []" "find_locked l sub = - 1" "\<not> pcount l < PAIRED_LIST_MAX"
  | (new) "cstr sub \<noteq> []" "find_locked l sub = - 1" "pcount l < PAIRED_LIST_MAX"
  | (old) i where "cstr sub \<noteq> []" "find_locked l sub = int i" "i < pcount l"
  using find_locked_cases [of l sub] by blast

text \<open>An add that reports failure has changed nothing: a full list, an unwritable flash, an empty sub.\<close>

lemma add_failed:
  assumes inv: "paired_inv l" and r: "paired_list_add_locked E sub email key at l n = (idx, role, key', l', n')"
    and neg: "idx < 0"
  shows "same_list l l'"
proof (cases rule: add_cases [where sub = sub and l = l])
  case empty
  with r show ?thesis by (simp add: add_empty_sub)
next
  case full
  with r have "l' = unclaim l (claim_owner sub l)" by (simp add: add_full)
  then show ?thesis by (simp add: unclaim_same [OF inv])
next
  case new
  define l2 where "l2 = (claim_owner sub l) \<lparr> entries := (entries l)[pcount l := new_entry (claim_owner sub l) sub email key at],
          pcount := pcount l + 1 \<rparr>"
  obtain err nn where st: "paired_nvs_store E l2 n = (err, nn)" by fastforce
  have err: "err \<noteq> ESP_OK" using add_new_ok [OF new l2_def, of E n nn] st r neg by auto
  have "(entries l)[pcount l := entry_zero] = entries l"
    using entries_past_count [OF inv new(3)] by (metis list_update_id)
  then show ?thesis
    using add_new_fail [OF new l2_def st err] r by (auto simp: l2_def intro!: unclaim_same [OF inv])
next
  case (old i)
  define l2 where "l2 = (claim_owner sub l) \<lparr> entries := (entries l)[i := old_entry (claim_owner sub l) sub email at (entries l ! i)] \<rparr>"
  obtain err nn where st: "paired_nvs_store E l2 n = (err, nn)" by fastforce
  have err: "err \<noteq> ESP_OK" using add_old_ok [OF old(1,2) l2_def, of E n nn key] st r neg by auto
  show ?thesis
    using add_old_fail [OF old(1,2) l2_def st err, of key] r by (auto simp: l2_def intro!: unclaim_same [OF inv])
qed

text \<open>What a successful add leaves: the new entry at the end, or the old one refreshed.\<close>

lemma add_succeeded:
  assumes r: "paired_list_add_locked E sub email key at l n = (idx, role, key', l', n')"
    and pos: "0 \<le> idx"
  obtains (new) "cstr sub \<noteq> []" "find_locked l sub = - 1" "pcount l < PAIRED_LIST_MAX" "idx = int (pcount l)"
    "role = role_for_locked (claim_owner sub l) sub" "key' = key" "paired_nvs_store E l' n = (ESP_OK, n')"
    "l' = (claim_owner sub l) \<lparr> entries := (entries l)[pcount l := new_entry (claim_owner sub l) sub email key at],
          pcount := pcount l + 1 \<rparr>"
  | (old) i where "cstr sub \<noteq> []" "find_locked l sub = int i" "i < pcount l" "idx = int i"
    "role = role_for_locked (claim_owner sub l) sub" "key' = pkey (entries l ! i)" "paired_nvs_store E l' n = (ESP_OK, n')"
    "l' = (claim_owner sub l) \<lparr> entries := (entries l)[i := old_entry (claim_owner sub l) sub email at (entries l ! i)] \<rparr>"
proof (cases rule: add_cases [where sub = sub and l = l])
  case empty
  with r pos show thesis by (simp add: add_empty_sub)
next
  case full
  with r pos show thesis by (simp add: add_full)
next
  case n: new
  define l2 where "l2 = (claim_owner sub l) \<lparr> entries := (entries l)[pcount l := new_entry (claim_owner sub l) sub email key at],
          pcount := pcount l + 1 \<rparr>"
  obtain err nn where st: "paired_nvs_store E l2 n = (err, nn)" by fastforce
  have err: "err = ESP_OK" using add_new_fail [OF n l2_def st] r pos by auto
  have l': "l' = l2" "n' = nn" using add_new_ok [OF n l2_def, of E n nn] st err r by auto
  show thesis
    using add_new_ok [OF n l2_def, of E n nn] st err r n l' by (intro new) (auto simp: l2_def)
next
  case o: (old i)
  define l2 where "l2 = (claim_owner sub l) \<lparr> entries := (entries l)[i := old_entry (claim_owner sub l) sub email at (entries l ! i)] \<rparr>"
  obtain err nn where st: "paired_nvs_store E l2 n = (err, nn)" by fastforce
  have err: "err = ESP_OK" using add_old_fail [OF o(1,2) l2_def st, of key] r pos by auto
  have l': "l' = l2" "n' = nn" using add_old_ok [OF o(1,2) l2_def, of E n nn key] st err r by auto
  show thesis
    using add_old_ok [OF o(1,2) l2_def, of E n nn key] st err r o l' by (intro old) (auto simp: l2_def)
qed

section \<open>Every operation keeps the list well formed\<close>

lemma new_entry_simps [simp]:
  "sub_key (new_entry l sub email key at) = take PAIRED_SUB_MAX (cstr sub)"
  "pkey (new_entry l sub email key at) = key" "prole (new_entry l sub email key at) = role_for_locked l sub"
  "cstr (user_sub (new_entry l sub email key at)) = take PAIRED_SUB_MAX (cstr sub)"
  by (simp_all add: new_entry_def sub_key_def copy_field_def)

lemma old_entry_simps [simp]:
  "sub_key (old_entry l sub email at e) = sub_key e" "user_sub (old_entry l sub email at e) = user_sub e"
  "pkey (old_entry l sub email at e) = pkey e" "prole (old_entry l sub email at e) = role_for_locked l sub"
  by (simp_all add: old_entry_def sub_key_def)

lemma role_for_locked_lt: "role_for_locked l sub < 256"
  by (simp add: role_for_locked_def)

lemma new_entry_wf: "length key = PAIRED_KEY_LEN \<Longrightarrow> entry_wf (new_entry l sub email key at)"
  using role_for_locked_lt [of l sub] by (simp add: entry_wf_def new_entry_def entry_zero_def)

lemma old_entry_wf: "entry_wf e \<Longrightarrow> entry_wf (old_entry l sub email at e)"
  using role_for_locked_lt [of l sub] by (simp add: entry_wf_def old_entry_def)

lemma append_entry:
  assumes "paired_inv l" "pcount l < PAIRED_LIST_MAX" "entry_wf e" "paired_inv l1" "entries l1 = entries l" "pcount l1 = pcount l"
  shows "paired_inv (l1 \<lparr> entries := (entries l)[pcount l := e], pcount := pcount l + 1 \<rparr>)"
    "accounts (l1 \<lparr> entries := (entries l)[pcount l := e], pcount := pcount l + 1 \<rparr>) = accounts l @ [e]"
proof -
  note i = paired_invD [OF assms(1)] and i1 = paired_invD [OF assms(4)]
  have "drop (pcount l + 1) ((entries l)[pcount l := e]) = drop 1 (drop (pcount l) (entries l))"
    by simp
  also have "\<dots> = replicate (16 - (pcount l + 1)) entry_zero" unfolding i(6) by simp
  finally show "paired_inv (l1 \<lparr> entries := (entries l)[pcount l := e], pcount := pcount l + 1 \<rparr>)"
    using i i1 assms by (simp add: paired_inv_def list_all_updateI)
  show "accounts (l1 \<lparr> entries := (entries l)[pcount l := e], pcount := pcount l + 1 \<rparr>) = accounts l @ [e]"
    using i assms(2) by (simp add: accounts_def take_Suc_update)
qed

lemma update_entry:
  assumes "paired_inv l" "i < pcount l" "entry_wf e" "paired_inv l1" "entries l1 = entries l" "pcount l1 = pcount l"
  shows "paired_inv (l1 \<lparr> entries := (entries l)[i := e] \<rparr>)"
    "accounts (l1 \<lparr> entries := (entries l)[i := e] \<rparr>) = (accounts l)[i := e]"
proof -
  note j = paired_invD [OF assms(1)] and j1 = paired_invD [OF assms(4)]
  have "drop (pcount l) ((entries l)[i := e]) = drop (pcount l) (entries l)" using assms(2) by simp
  then show "paired_inv (l1 \<lparr> entries := (entries l)[i := e] \<rparr>)"
    using j j1 assms by (simp add: paired_inv_def list_all_updateI)
  show "accounts (l1 \<lparr> entries := (entries l)[i := e] \<rparr>) = (accounts l)[i := e]"
    using j assms(2,5,6) by (simp add: accounts_def take_update_swap)
qed

lemma owner_sub_nonempty: "paired_inv l \<Longrightarrow> owner_sub l \<noteq> []"
  by (auto simp: paired_inv_def)

lemma claim_role:
  assumes "paired_inv l" "roles_ok l" "e \<in> set (accounts l)" "sub_key e \<noteq> take PAIRED_SUB_MAX (cstr sub)"
  shows "prole e = role_for_locked (claim_owner sub l) (user_sub e)"
proof -
  have r: "prole e = role_for_locked l (user_sub e)" using assms by (simp add: roles_ok_def list_all_iff)
  show ?thesis
  proof (cases "owner_sub l ! 0 = NUL")
    case True
    have "take PAIRED_SUB_MAX (cstr (user_sub e)) \<noteq> take PAIRED_SUB_MAX (cstr (owner_sub (claim_owner sub l)))"
      using True assms(4) by (simp add: claim_owner_def copy_field_def sub_key_def)
    then show ?thesis
      using r True by (simp add: role_for_locked_def strncmp_eq_def)
  qed (use r in \<open>simp add: claim_owner_def\<close>)
qed

lemma role_for_locked_cong:
  "owner_sub l' = owner_sub l \<Longrightarrow> take PAIRED_SUB_MAX (cstr a) = take PAIRED_SUB_MAX (cstr b) \<Longrightarrow>
    role_for_locked l' a = role_for_locked l b"
  by (simp add: role_for_locked_def strncmp_eq_def)

lemma add_keeps:
  assumes inv: "paired_inv l" "one_per_account l" and key: "length key = PAIRED_KEY_LEN"
    and r: "paired_list_add_locked E sub email key at l n = (idx, role, key', l', n')"
  shows "paired_inv l' \<and> one_per_account l' \<and> (roles_ok l \<longrightarrow> roles_ok l') \<and> length key' = PAIRED_KEY_LEN \<or> idx < 0 \<and> same_list l l'"
proof (cases "idx < 0")
  case False
  let ?l1 = "claim_owner sub l"
  have i1: "paired_inv ?l1" by (rule claim_owner_inv [OF inv(1)])
  from r show ?thesis
  proof (rule add_succeeded)
    show "0 \<le> idx" using False by simp
  next
    assume n: "cstr sub \<noteq> []" "find_locked l sub = - 1" "pcount l < PAIRED_LIST_MAX" "key' = key" and
      l': "l' = ?l1 \<lparr> entries := (entries l)[pcount l := new_entry ?l1 sub email key at], pcount := pcount l + 1 \<rparr>"
    note a = append_entry [OF inv(1) n(3) new_entry_wf [OF key] i1, of ?l1 sub email at, folded l', simplified]
    have o: "owner_sub l' = owner_sub ?l1" by (simp add: l')
    have fresh: "take PAIRED_SUB_MAX (cstr sub) \<notin> sub_key ` set (accounts l)"
      using n(2) by (simp add: find_locked_none)
    have "one_per_account l'" using inv(2) fresh by (simp add: one_per_account_def a(2))
    moreover have "roles_ok l'" if ok: "roles_ok l"
      unfolding roles_ok_def list_all_iff a(2)
    proof
      fix e assume "e \<in> set (accounts l @ [new_entry ?l1 sub email key at])"
      then consider "e \<in> set (accounts l)" | "e = new_entry ?l1 sub email key at" by auto
      then show "prole e = role_for_locked l' (user_sub e)"
      proof cases
        case 1
        then have "sub_key e \<noteq> take PAIRED_SUB_MAX (cstr sub)" using fresh by (metis imageI)
        from claim_role [OF inv(1) ok 1 this] show ?thesis
          using o role_for_locked_cong [of l' ?l1 "user_sub e" "user_sub e"] by simp
      next
        case 2
        then show ?thesis using o by (simp add: role_for_locked_cong [of l' ?l1 _ sub])
      qed
    qed
    ultimately show ?thesis using a(1) n(4) key by simp
  next
    fix i assume n: "cstr sub \<noteq> []" "find_locked l sub = int i" "i < pcount l" "key' = pkey (entries l ! i)" and
      l': "l' = ?l1 \<lparr> entries := (entries l)[i := old_entry ?l1 sub email at (entries l ! i)] \<rparr>"
    have i16: "i < 16" using n(3) paired_invD(2) [OF inv(1)] by simp
    have w: "entry_wf (entries l ! i)" by (rule entry_wf_nth [OF inv(1) i16])
    note a = update_entry [OF inv(1) n(3) old_entry_wf [OF w] i1, of ?l1 sub email at, folded l', simplified]
    have o: "owner_sub l' = owner_sub ?l1" by (simp add: l')
    have sk: "sub_key (accounts l ! i) = take PAIRED_SUB_MAX (cstr sub)"
      using find_locked_found [OF n(2)] n(3) by (simp add: nth_accounts)
    have m: "map sub_key (accounts l') = map sub_key (accounts l)"
      using n(3) inv(1) by (simp add: a(2) map_update nth_accounts list_update_same_conv)
    have "roles_ok l'" if ok: "roles_ok l"
      unfolding roles_ok_def list_all_length
    proof (intro allI impI)
      fix k assume "k < length (accounts l')"
      then have k: "k < pcount l" using inv(1) by (simp add: a(2))
      show "prole (accounts l' ! k) = role_for_locked l' (user_sub (accounts l' ! k))"
      proof (cases "k = i")
        case True
        then show ?thesis
          using o n(3) inv(1) sk
          by (simp add: a(2) nth_accounts) (rule role_for_locked_cong [symmetric], simp_all add: sub_key_def)
      next
        case False
        have "map sub_key (accounts l) ! k \<noteq> map sub_key (accounts l) ! i"
          using False k n(3) inv by (subst nth_eq_iff_index_eq) (auto simp: one_per_account_def)
        then have "sub_key (accounts l ! k) \<noteq> take PAIRED_SUB_MAX (cstr sub)" using k n(3) inv(1) sk by simp
        from claim_role [OF inv(1) ok _ this] False show ?thesis
          using k inv(1) o role_for_locked_cong [of l' ?l1] by (simp add: a(2))
      qed
    qed
    then show ?thesis
      using a(1) m inv(2) n(4) w by (simp add: one_per_account_def entry_wf_def)
  qed
qed (use add_failed [OF inv(1) r] in simp)

definition list_ok :: "paired_list \<Rightarrow> bool" where
  "list_ok l \<longleftrightarrow> paired_inv l \<and> one_per_account l \<and> roles_ok l"

lemma list_ok_zero [simp]: "list_ok list_zero"
  by (simp add: list_ok_def)

lemma same_list_ok: "same_list l l' \<Longrightarrow> list_ok l \<Longrightarrow> list_ok l'"
  by (auto simp: list_ok_def intro: same_list_inv same_list_one same_list_roles)

lemma add_list_ok:
  assumes "list_ok l" "length key = PAIRED_KEY_LEN"
    "paired_list_add_locked E sub email key at l n = (idx, role, key', l', n')"
  shows "list_ok l'"
  using add_keeps [of l key E sub email at n idx role key' l' n'] assms same_list_ok [of l l']
  by (auto simp: list_ok_def)

lemma remove_list_ok:
  assumes "list_ok l" "paired_list_remove_locked E i l n = (err, l', n')"
  shows "list_ok l'"
proof (cases "i < 0 \<or> i \<ge> int (pcount l)")
  case False
  then have k: "nat i < pcount l" and l': "l' = remove_entry (nat i) l"
    using assms(2) by (auto simp: paired_list_remove_locked_def Let_def split: prod.splits)
  have inv: "paired_inv l" using assms(1) by (simp add: list_ok_def)
  note a = remove_entry_accounts [OF inv k]
  show ?thesis
    using assms(1) remove_entry_inv [OF inv k] one_per_account_del [OF _ a] roles_ok_del [OF _ a]
    by (simp add: list_ok_def l')
qed (use assms in \<open>auto simp: paired_list_remove_locked_def\<close>)

lemma rotate_cases:
  assumes "paired_inv l"
  obtains (none) "list_all (\<lambda>e. prole e \<noteq> PAIRED_ROLE_OWNER) (accounts l)"
      "rotate_owner_key_locked E fresh l n = (ESP_OK, l, n)"
  | (failed) err n' where "err \<noteq> ESP_OK" "rotate_owner_key_locked E fresh l n = (err, l, n')"
  | (rotated) r l' n' where "r < pcount l" "prole (entries l ! r) = PAIRED_ROLE_OWNER"
      "l' = l \<lparr> entries := (entries l)[r := (entries l ! r) \<lparr> pkey := fresh \<rparr>] \<rparr>"
      "paired_nvs_store E l' n = (ESP_OK, n')" "rotate_owner_key_locked E fresh l n = (ESP_OK, l', n')"
proof (cases "index_of (\<lambda>e. prole e = PAIRED_ROLE_OWNER) (take (pcount l) (entries l))")
  case None
  then have "rotate_owner_key_locked E fresh l n = (ESP_OK, l, n)" by (simp add: rotate_owner_key_locked_def)
  with None show thesis by (intro none) (auto simp: index_of_None list_all_iff accounts_def)
next
  case (Some r)
  define l' where "l' = l \<lparr> entries := (entries l)[r := (entries l ! r) \<lparr> pkey := fresh \<rparr>] \<rparr>"
  have r: "r < pcount l" "r < length (entries l)" "prole (entries l ! r) = PAIRED_ROLE_OWNER"
    using index_of_SomeD [OF Some] paired_invD(2,4) [OF assms] by auto
  obtain err n' where st: "paired_nvs_store E l' n = (err, n')" by fastforce
  show thesis
  proof (cases "err = ESP_OK")
    case True
    with Some st r show thesis
      by (intro rotated [of r l' n']) (simp_all add: rotate_owner_key_locked_def l'_def)
  next
    case False
    with Some st r show thesis
      by (intro failed [of err n']) (simp_all add: rotate_owner_key_locked_def l'_def)
  qed
qed

lemma rotate_list_ok:
  assumes ok: "list_ok l" and key: "length fresh = PAIRED_KEY_LEN"
    and rot: "rotate_owner_key_locked E fresh l n = (err, l', n')"
  shows "list_ok l' \<and> pcount l' = pcount l \<and> owner_sub l' = owner_sub l \<and>
    map (\<lambda>e. (user_sub e, prole e)) (accounts l') = map (\<lambda>e. (user_sub e, prole e)) (accounts l)"
proof -
  have inv: "paired_inv l" using ok by (simp add: list_ok_def)
  from inv show ?thesis
  proof (cases rule: rotate_cases [where E = E and fresh = fresh and n = n])
    case (rotated r l2 n2)
    then have l': "l' = l \<lparr> entries := (entries l)[r := (entries l ! r) \<lparr> pkey := fresh \<rparr>] \<rparr>" using rot by simp
    have w: "entry_wf (entries l ! r)"
      using rotated(1) paired_invD(2) [OF inv] by (intro entry_wf_nth [OF inv]) simp
    have w': "entry_wf ((entries l ! r) \<lparr> pkey := fresh \<rparr>)" using w key by (simp add: entry_wf_def)
    note u = update_entry [OF inv rotated(1) w' inv refl refl, folded l']
    have s: "map (\<lambda>e. (user_sub e, prole e)) (accounts l') = map (\<lambda>e. (user_sub e, prole e)) (accounts l)"
      using rotated(1) inv by (simp add: u(2) map_update nth_accounts list_update_same_conv)
    have k: "map sub_key (accounts l') = map sub_key (accounts l)"
      using rotated(1) inv by (simp add: u(2) map_update nth_accounts list_update_same_conv sub_key_def)
    have o: "owner_sub l' = owner_sub l" by (simp add: l')
    have "roles_ok l' = roles_ok l"
    proof -
      have "\<And>l. roles_ok l = list_all (\<lambda>(s, p). p = role_for_locked l s) (map (\<lambda>e. (user_sub e, prole e)) (accounts l))"
        by (simp add: roles_ok_def list_all_iff)
      moreover have "role_for_locked l' = role_for_locked l" using o by (auto simp: role_for_locked_def)
      ultimately show ?thesis using s by metis
    qed
    then show ?thesis using ok u(1) k s o by (simp add: list_ok_def one_per_account_def l')
  qed (use ok rot in simp_all)
qed

lemma clear_list:
  "paired_list_clear_locked E n = (err, l', n') \<Longrightarrow> l' = list_zero"
  by (auto simp: paired_list_clear_locked_def Let_def split: prod.splits)

section \<open>Rows and the indices that follow them\<close>

text \<open>
  What a user of row numbers relies on: after row \<open>k\<close> is removed, an index moved by
  \<open>follow k\<close> still names the entry it named. The session pool keeps such indices
  (theory \<open>Local_Session\<close>, \<open>local_session_on_paired_removed\<close>).
\<close>

definition follow :: "int \<Rightarrow> int \<Rightarrow> int" where
  "follow k i = (if i = k then - 1 else if i > k then i - 1 else i)"

locale row_table =
  fixes inv :: "'l \<Rightarrow> bool"
    and rows :: "'l \<Rightarrow> nat"
    and row :: "'l \<Rightarrow> int \<Rightarrow> 'e option"
    and remove :: "int \<Rightarrow> 'l \<Rightarrow> 'l"
  assumes row_domain: "inv l \<Longrightarrow> row l i \<noteq> None \<longleftrightarrow> 0 \<le> i \<and> i < int (rows l)"
    and remove_inv: "inv l \<Longrightarrow> 0 \<le> k \<Longrightarrow> k < int (rows l) \<Longrightarrow> inv (remove k l)"
    and remove_rows: "inv l \<Longrightarrow> 0 \<le> k \<Longrightarrow> k < int (rows l) \<Longrightarrow> rows (remove k l) = rows l - 1"
    and remove_row: "inv l \<Longrightarrow> 0 \<le> k \<Longrightarrow> k < int (rows l) \<Longrightarrow> 0 \<le> i \<Longrightarrow> i < int (rows l) - 1 \<Longrightarrow>
      row (remove k l) i = row l (if i < k then i else i + 1)"
begin

lemma follow_removed: "follow k k = - 1"
  by (simp add: follow_def)

lemma follow_row:
  assumes "inv l" "row l k \<noteq> None" "row l i \<noteq> None" "i \<noteq> k"
  shows "row (remove k l) (follow k i) = row l i"
proof -
  have "0 \<le> k" "k < int (rows l)" "0 \<le> i" "i < int (rows l)"
    using assms(2,3) row_domain [OF assms(1)] by blast+
  then show ?thesis using remove_row [OF assms(1), of k "follow k i"] assms(4) by (auto simp: follow_def)
qed

lemma follow_none:
  assumes "inv l" "row l k \<noteq> None" "i < 0"
  shows "follow k i = i"
  using assms(2,3) row_domain [OF assms(1), of k] unfolding follow_def by simp

lemma follow_in_range:
  assumes "inv l" "row l k \<noteq> None" "row l i \<noteq> None" "i \<noteq> k"
  shows "0 \<le> follow k i \<and> follow k i < int (rows (remove k l))"
proof -
  have "0 \<le> k" "k < int (rows l)" "0 \<le> i" "i < int (rows l)"
    using assms(2,3) row_domain [OF assms(1)] by blast+
  then show ?thesis using remove_rows [OF assms(1), of k] assms(4) by (auto simp: follow_def)
qed

end

interpretation pl: row_table paired_inv pcount paired_list_get "\<lambda>k l. remove_entry (nat k) l"
proof
  fix l i
  assume "paired_inv l"
  show "paired_list_get l i \<noteq> None \<longleftrightarrow> 0 \<le> i \<and> i < int (pcount l)" by (simp add: paired_list_get_def)
next
  fix l and k :: int
  assume k: "paired_inv l" "0 \<le> k" "k < int (pcount l)"
  then have n: "nat k < pcount l" by simp
  show "paired_inv (remove_entry (nat k) l)" by (rule remove_entry_inv [OF k(1) n])
  show "pcount (remove_entry (nat k) l) = pcount l - 1" by simp
  fix i :: int
  assume i: "0 \<le> i" "i < int (pcount l) - 1"
  have "entries (remove_entry (nat k) l) ! nat i = accounts (remove_entry (nat k) l) ! nat i"
    using i by (simp add: nth_accounts)
  also have "\<dots> = accounts l ! (if nat i < nat k then nat i else Suc (nat i))"
    using remove_entry_accounts [OF k(1) n] n i k(1)
      nth_del_at [of "nat k" "accounts l" "nat i"] by simp
  also have "\<dots> = entries l ! (if nat i < nat k then nat i else Suc (nat i))"
    using i n by (simp add: nth_accounts)
  finally show "paired_list_get (remove_entry (nat k) l) i = paired_list_get l (if i < k then i else i + 1)"
    using i k by (auto simp: paired_list_get_def nat_add_distrib split: if_splits)
qed

section \<open>Properties\<close>

lemma accounts_nth_row: "paired_inv l \<Longrightarrow> i < pcount l \<Longrightarrow> paired_list_get l (int i) = Some (accounts l ! i)"
  by (simp add: paired_list_get_def nth_accounts)

lemma accounts_memberE:
  assumes "paired_inv l" "e \<in> set (accounts l)"
  obtains i where "i < pcount l" "accounts l ! i = e"
  using assms by (auto simp: in_set_conv_nth)

text \<open>
  C7. Booting never trusts the flash. For every content of the flash and every way NVS answers,
  \<open>paired_list_init\<close> leaves a list whose arrays have their sizes, whose count is at most 16, whose
  slots past the count are wiped, and which has at most one entry per account.
\<close>

theorem boot_list_well_formed:
  "paired_inv (fst (paired_list_init E n)) \<and> one_per_account (fst (paired_list_init E n))"
  by (simp add: paired_list_init_ok)

text \<open>
  C11. \<open>dedupe_accounts_locked\<close>, which shifts entries down in place inside two nested loops whose
  bound moves, computes the reference definition: the oldest entry of every account, in order.
\<close>

theorem dedupe_keeps_oldest:
  assumes "paired_inv l"
  shows "accounts (fst (dedupe_accounts_locked l)) = oldest_per_account (accounts l) \<and>
    paired_inv (fst (dedupe_accounts_locked l)) \<and> owner_sub (fst (dedupe_accounts_locked l)) = owner_sub l"
  using dedupe_accounts [OF assms] by simp

definition twin_list :: paired_list where
  "twin_list = list_zero \<lparr> pcount := 3, entries := (entries list_zero)
     [0 := entry_zero \<lparr> user_sub := field_of 41 ''ann'', prole := 1 \<rparr>,
      1 := entry_zero \<lparr> user_sub := field_of 41 ''bob'', prole := 1 \<rparr>,
      2 := entry_zero \<lparr> user_sub := field_of 41 ''ann'', prole := 1 \<rparr>] \<rparr>"

lemma twin_list_inv: "paired_inv twin_list"
proof -
  have "drop 3 (entries twin_list) = replicate 13 entry_zero"
    by (simp add: twin_list_def list_zero_def)
  moreover have "list_all entry_wf (entries twin_list)"
    unfolding twin_list_def
    by (auto simp: list_zero_def list_all_iff entry_wf_def entry_zero_def dest!: set_update_subset_insert [THEN subsetD])
  ultimately show ?thesis by (simp add: paired_inv_def twin_list_def list_zero_def)
qed

theorem dedupe_keeps_oldest_witness:
  "paired_inv twin_list \<and> map sub_key (accounts (fst (dedupe_accounts_locked twin_list))) = [''ann'', ''bob'']"
proof -
  have "map sub_key (accounts twin_list) = [''ann'', ''bob'', ''ann'']"
    by (simp add: twin_list_def accounts_def list_zero_def sub_key_def numeral_eq_Suc take_update_swap cstr_id)
  then obtain a b c where "accounts twin_list = [a, b, c]" "sub_key a = ''ann''" "sub_key b = ''bob''" "sub_key c = ''ann''"
    by (auto simp: map_eq_Cons_conv)
  with dedupe_keeps_oldest [OF twin_list_inv] twin_list_inv show ?thesis by simp
qed

lemma add_row_spec:
  assumes "list_ok l" "length key = PAIRED_KEY_LEN"
  shows "case paired_list_add_locked E sub email key at l n of (idx, role, key', l', n') \<Rightarrow>
    list_ok l' \<and>
    (if idx < 0 then same_list l l' else
       find_locked l' sub = idx \<and>
       paired_list_get l' idx \<noteq> None \<and> pkey (the (paired_list_get l' idx)) = key' \<and>
       prole (the (paired_list_get l' idx)) = role \<and>
       (if find_locked l sub < 0 then key' = key \<and> idx = int (pcount l) \<and> pcount l' = pcount l + 1
        else idx = find_locked l sub \<and> key' = pkey (the (paired_list_get l idx)) \<and> pcount l' = pcount l) \<and>
       (\<forall>j. j \<noteq> idx \<longrightarrow> j < int (pcount l) \<longrightarrow> paired_list_get l' j = paired_list_get l j) \<and>
       owner_sub l' = owner_sub (claim_owner sub l))"
proof -
  obtain idx role key' l' n' where r: "paired_list_add_locked E sub email key at l n = (idx, role, key', l', n')"
    by (metis prod_cases5)
  have ok: "list_ok l'" by (rule add_list_ok [OF assms r])
  have inv: "paired_inv l" "one_per_account l" and inv': "paired_inv l'" "one_per_account l'"
    using assms ok by (auto simp: list_ok_def)
  show ?thesis
  proof (cases "idx < 0")
    case True
    then show ?thesis using ok add_failed [OF inv(1) r] by (simp add: r)
  next
    case False
    then have "0 \<le> idx" by simp
    from r this show ?thesis
    proof (cases rule: add_succeeded)
      case new
      have f: "find_locked l' sub = int (pcount l)"
        using new inv' paired_invD(2,4) [OF inv'(1)] paired_invD(4) [OF inv(1)]
        by (intro find_locked_iff) (auto simp: new(8))
      show ?thesis
        using new f ok False paired_invD(4) [OF inv(1)] by (auto simp: r paired_list_get_def)
    next
      case (old i)
      have i: "i < length (entries l)" using old(3) paired_invD(2,4) [OF inv(1)] by simp
      have f: "find_locked l' sub = int i"
        using old inv' paired_invD(2,4) [OF inv'(1)] find_locked_found [OF old(2)] i
        by (intro find_locked_iff) (auto simp: old(8))
      show ?thesis
        using old f ok False i by (auto simp: r paired_list_get_def)
    qed
  qed
qed

text \<open>No row is lost, moved to another account, given another key or demoted by an add.\<close>

lemma add_rows:
  assumes ok: "list_ok l" and key: "length key = PAIRED_KEY_LEN"
    and r: "paired_list_add_locked E sub email key at l n = (idx, role, key', l', n')" and e: "paired_list_get l i = Some e"
  shows "\<exists>e'. paired_list_get l' i = Some e' \<and> pkey e' = pkey e \<and> sub_key e' = sub_key e \<and>
    (prole e = PAIRED_ROLE_OWNER \<longrightarrow> prole e' = PAIRED_ROLE_OWNER)"
proof -
  note sp = add_row_spec [OF ok key, where E = E and sub = sub and email = email and at = at and n = n, unfolded r, simplified]
  have inv: "paired_inv l" "roles_ok l" "paired_inv l'" "roles_ok l'" using ok sp by (auto simp: list_ok_def)
  have i: "0 \<le> i" "i < int (pcount l)" "e = entries l ! nat i" using e by (auto simp: paired_list_get_Some)
  show ?thesis
  proof (cases "idx < 0")
    case True
    then have "entries l' = entries l" "pcount l' = pcount l" using sp by (simp_all add: same_list_def)
    with i show ?thesis by (simp add: paired_list_get_def)
  next
    case False
    show ?thesis
    proof (cases "i = idx")
      case False
      then have "paired_list_get l' i = paired_list_get l i" using sp \<open>\<not> idx < 0\<close> i by simp
      with e show ?thesis by simp
    next
      case True
      have f: "find_locked l sub = idx"
        using sp \<open>\<not> idx < 0\<close> i True by (auto split: if_splits)
      obtain e' where e': "paired_list_get l' i = Some e'" "pkey e' = pkey e"
        using sp \<open>\<not> idx < 0\<close> f True e by (auto simp: find_locked_neg)
      have k: "find_locked l' sub = int (nat i)" "find_locked l sub = int (nat i)" using sp f True i \<open>\<not> idx < 0\<close> by simp_all
      have s: "sub_key e' = take PAIRED_SUB_MAX (cstr sub)" "sub_key e = take PAIRED_SUB_MAX (cstr sub)"
        using find_locked_found [OF k(1)] find_locked_found [OF k(2)] e' i by (simp_all add: paired_list_get_Some)
      have p: "prole e = role_for_locked l (user_sub e)" "prole e' = role_for_locked l' (user_sub e')"
        using inv e e' by (auto simp: roles_ok_def list_all_length paired_list_get_Some nth_accounts)
      have "owner_sub l' = owner_sub l" if "prole e = PAIRED_ROLE_OWNER"
        using that p(1) sp \<open>\<not> idx < 0\<close> by (auto simp: role_for_locked_def claim_owner_def split: if_splits)
      then have "prole e' = PAIRED_ROLE_OWNER" if "prole e = PAIRED_ROLE_OWNER"
        using that p s role_for_locked_cong [of l' l "user_sub e'" "user_sub e"] by (simp add: sub_key_def)
      with e' s show ?thesis by simp
    qed
  qed
qed

text \<open>
  C8. Enrolling an account. Whatever the flash does, the list stays well formed, with one entry
  per account and every role as ownership says. If the call fails nothing has changed. If it
  succeeds the account is found at the returned row with the returned key and role; a known
  account keeps the key it had, a new one gets the offered key in a new last row; no other row
  changes; and the first account ever enrolled becomes the owner, after which the owner never moves.
\<close>

theorem paired_list_add_spec:
  assumes "list_ok l" "length key = PAIRED_KEY_LEN"
  shows "case paired_list_add_locked E sub email key at l n of (idx, role, key', l', n') \<Rightarrow>
    list_ok l' \<and>
    (if idx < 0 then same_list l l' else
       find_locked l' sub = idx \<and>
       paired_list_get l' idx \<noteq> None \<and> pkey (the (paired_list_get l' idx)) = key' \<and>
       prole (the (paired_list_get l' idx)) = role \<and>
       (if find_locked l sub < 0 then key' = key \<and> idx = int (pcount l) \<and> pcount l' = pcount l + 1
        else idx = find_locked l sub \<and> key' = pkey (the (paired_list_get l idx)) \<and> pcount l' = pcount l) \<and>
       (\<forall>j. j \<noteq> idx \<longrightarrow> j < int (pcount l) \<longrightarrow> paired_list_get l' j = paired_list_get l j) \<and>
       owner_sub l' = owner_sub (claim_owner sub l))"
  by (rule add_row_spec [OF assms])

lemma bench_store_ok: "fst (paired_nvs_store (bench True) l n) = ESP_OK"
  by (rule paired_nvs_store_reliable) (simp add: flash_nvs_reliable)

definition ann_list :: paired_list where
  "ann_list = (claim_owner ''ann'' list_zero) \<lparr> entries := (entries list_zero)
     [0 := new_entry (claim_owner ''ann'' list_zero) ''ann'' ''ann@x.org'' (replicate 32 (CHR ''k'')) 7], pcount := 1 \<rparr>"

lemma ann_owner: "role_for_locked (claim_owner ''ann'' list_zero) ''ann'' = PAIRED_ROLE_OWNER"
  by (simp add: role_for_locked_def claim_owner_def copy_field_def strncmp_eq_def)
    (simp add: field_of_def cstr_id Let_def)

lemma add_ann:
  "paired_list_add_locked (bench True) ''ann'' ''ann@x.org'' (replicate 32 (CHR ''k'')) 7 list_zero n =
    (0, PAIRED_ROLE_OWNER, replicate 32 (CHR ''k''), ann_list, snd (paired_nvs_store (bench True) ann_list n))"
proof -
  have f: "find_locked list_zero ''ann'' = - 1" by (simp add: find_locked_def)
  have s: "paired_nvs_store (bench True) ann_list n = (ESP_OK, snd (paired_nvs_store (bench True) ann_list n))"
    using bench_store_ok by (metis prod.collapse)
  have "cstr ''ann'' \<noteq> []" by (simp add: cstr_id)
  from add_new_ok [OF this f, where E = "bench True" and n = n and email = "''ann@x.org''" and
      key = "replicate 32 (CHR ''k'')" and at = 7, OF _ _ s] ann_owner
  show ?thesis by (simp add: ann_list_def)
qed

theorem paired_list_add_spec_witness:
  "list_ok list_zero \<and> fst (paired_list_add_locked (bench True) ''ann'' ''ann@x.org'' (replicate 32 (CHR ''k'')) 7 list_zero blank) = 0 \<and>
   find_locked ann_list ''ann'' = 0 \<and> pkey (the (paired_list_get ann_list 0)) = replicate 32 (CHR ''k'')"
  using paired_list_add_spec [of list_zero "replicate 32 (CHR ''k'')", where E = "bench True" and sub = "''ann''"
    and email = "''ann@x.org''" and at = 7 and n = blank]
  by (simp add: add_ann)

text \<open>
  C10. Removing row \<open>i\<close> deletes exactly that entry: the accounts in use become the old ones
  without it, in order, and the row that falls out of use is wiped, so no key is left behind it. An index out of
  range changes nothing. The list stays well formed whether or not the flash takes the write.
  \<open>owner_sub\<close> keeps its value in every case, also when the last row goes and the list is empty, which
  is not what the comment on the field says.
\<close>

theorem paired_list_remove_spec:
  assumes "list_ok l"
  shows "case paired_list_remove_locked E i l n of (err, l', n') \<Rightarrow>
    list_ok l' \<and>
    (if 0 \<le> i \<and> i < int (pcount l)
     then accounts l' = del_at (nat i) (accounts l) \<and> pcount l' = pcount l - 1 \<and>
       entries l' ! (pcount l - 1) = entry_zero \<and> owner_sub l' = owner_sub l
     else err = ESP_ERR_NOT_FOUND \<and> l' = l \<and> n' = n)"
proof -
  obtain err l' n' where r: "paired_list_remove_locked E i l n = (err, l', n')" by (metis prod_cases3)
  have ok: "list_ok l'" by (rule remove_list_ok [OF assms r])
  have inv: "paired_inv l" using assms by (simp add: list_ok_def)
  show ?thesis
  proof (cases "0 \<le> i \<and> i < int (pcount l)")
    case True
    then have k: "nat i < pcount l" and l': "l' = remove_entry (nat i) l"
      using r by (auto simp: paired_list_remove_locked_def Let_def split: prod.splits if_splits)
    have "entries l' ! (pcount l - 1) = entry_zero"
      using k paired_invD(2,4) [OF inv] by (simp add: l' remove_entry_def)
    then show ?thesis using True ok remove_entry_accounts [OF inv k] by (simp add: r l')
  qed (use ok r in \<open>auto simp: paired_list_remove_locked_def\<close>)
qed

lemma ann_list_ok: "list_ok ann_list"
  using add_list_ok [OF list_ok_zero _ add_ann] by simp

theorem paired_list_remove_spec_witness:
  "list_ok ann_list \<and> accounts (fst (snd (paired_list_remove_locked (bench False) 0 ann_list blank))) = []"
proof -
  have "pcount ann_list = 1" by (simp add: ann_list_def)
  moreover have "length (accounts ann_list) = 1"
    using ann_list_ok calculation by (simp add: list_ok_def)
  ultimately show ?thesis
    using paired_list_remove_spec [OF ann_list_ok, where E = "bench False" and i = 0 and n = blank] ann_list_ok
    by (auto simp: del_at_def split: prod.splits)
qed

text \<open>
  C9. What was acknowledged survives a reboot. On a flash that keeps what it accepted, if
  enrolling or removing an account reports success, the next boot loads exactly the list the
  device then had in memory (an empty list forgets its owner, as clearing it does).
\<close>

theorem paired_list_persistent:
  assumes "nvs_lawful (nvs E) view" "list_ok l" "length key = PAIRED_KEY_LEN"
  shows "(case paired_list_add_locked E sub email key at l n of (idx, role, key', l', n') \<Rightarrow>
            idx \<ge> 0 \<longrightarrow> fst (paired_list_init E n') = l') \<and>
         (case paired_list_remove_locked E i l n of (err, l', n') \<Rightarrow>
            err = ESP_OK \<longrightarrow> fst (paired_list_init E n') = (if pcount l' = 0 then list_zero else l'))"
proof
  obtain idx role key' l' n' where r: "paired_list_add_locked E sub email key at l n = (idx, role, key', l', n')"
    by (metis prod_cases5)
  have ok: "list_ok l'" by (rule add_list_ok [OF assms(2,3) r])
  have "fst (paired_list_init E n') = l'" if "0 \<le> idx"
  proof -
    have "paired_nvs_store E l' n = (ESP_OK, n') \<and> pcount l' \<noteq> 0"
      using r that by (cases rule: add_succeeded) auto
    then show ?thesis
      using paired_list_reload [OF assms(1), of l' n'] paired_nvs_store_view [OF assms(1), of l' n] ok
      by (simp add: list_ok_def)
  qed
  then show "case paired_list_add_locked E sub email key at l n of (idx, role, key', l', n') \<Rightarrow>
            idx \<ge> 0 \<longrightarrow> fst (paired_list_init E n') = l'" by (simp add: r)
next
  obtain err l' n' where r: "paired_list_remove_locked E i l n = (err, l', n')" by (metis prod_cases3)
  have ok: "list_ok l'" by (rule remove_list_ok [OF assms(2) r])
  have "fst (paired_list_init E n') = (if pcount l' = 0 then list_zero else l')" if "err = ESP_OK"
  proof -
    have "paired_nvs_store E l' n = (ESP_OK, n')"
      using r that by (auto simp: paired_list_remove_locked_def Let_def split: if_splits prod.splits)
    then show ?thesis
      using paired_list_reload [OF assms(1), of l' n'] paired_nvs_store_view [OF assms(1), of l' n] ok
      by (simp add: list_ok_def)
  qed
  then show "case paired_list_remove_locked E i l n of (err, l', n') \<Rightarrow>
            err = ESP_OK \<longrightarrow> fst (paired_list_init E n') = (if pcount l' = 0 then list_zero else l')"
    by (simp add: r)
qed

theorem paired_list_persistent_witness:
  "nvs_lawful (nvs (bench True)) (\<lambda>f. f) \<and>
   fst (paired_list_init (bench True) (snd (paired_nvs_store (bench True) ann_list blank))) = ann_list"
  using paired_list_persistent [of "bench True" "\<lambda>f. f" list_zero "replicate 32 (CHR ''k'')", where sub = "''ann''"
    and email = "''ann@x.org''" and at = 7 and n = blank]
  by (simp add: add_ann flash_nvs_lawful)

text \<open>
  There is one owner. In a list the firmware built, two rows with the owner role are the
  same row, and it is the row of the account that owns the device.
\<close>

theorem one_owner:
  assumes "list_ok l" "paired_list_get l i = Some e" "paired_list_get l j = Some e'"
    "prole e = PAIRED_ROLE_OWNER" "prole e' = PAIRED_ROLE_OWNER"
  shows "i = j \<and> sub_key e = take PAIRED_SUB_MAX (cstr (owner_sub l))"
proof -
  have inv: "paired_inv l" "one_per_account l" "roles_ok l" using assms(1) by (auto simp: list_ok_def)
  have m: "0 \<le> i" "nat i < pcount l" "e = accounts l ! nat i" "0 \<le> j" "nat j < pcount l" "e' = accounts l ! nat j"
    using assms(2,3) by (auto simp: paired_list_get_Some nth_accounts)
  have "e \<in> set (accounts l)" "e' \<in> set (accounts l)" using m inv(1) by simp_all
  then have s: "sub_key e = take PAIRED_SUB_MAX (cstr (owner_sub l))" "sub_key e' = sub_key e"
    using inv(3) assms(4,5)
    by (auto simp: roles_ok_def list_all_iff role_for_locked_def strncmp_eq_def sub_key_def split: if_splits)
  then have "map sub_key (accounts l) ! nat i = map sub_key (accounts l) ! nat j"
    using m inv(1) by simp
  then have "nat i = nat j"
    using inv(1,2) m by (subst (asm) nth_eq_iff_index_eq) (auto simp: one_per_account_def)
  with m s show ?thesis by simp
qed

theorem one_owner_witness:
  "list_ok ann_list \<and> sub_key (the (paired_list_get ann_list 0)) = take PAIRED_SUB_MAX (cstr (owner_sub ann_list))"
proof -
  have g: "paired_list_get ann_list 0 = Some (entries ann_list ! 0)"
    by (simp add: paired_list_get_def ann_list_def)
  have "prole (entries ann_list ! 0) = PAIRED_ROLE_OWNER"
    by (simp add: ann_list_def list_zero_def ann_owner [unfolded list_zero_def])
  with one_owner [OF ann_list_ok g g] g ann_list_ok show ?thesis by simp
qed

end
