(* ===== verification/Local_Session.thy ===== *)
theory Local_Session
  imports Paired_List
begin

text \<open>
  The pool of connection states, \<open>security/local_session.c\<close>. Eight slots; a slot belongs to the
  socket number it holds, \<open>-1\<close> marks a free one. The C code hands out pointers to slots, which
  never move; here a slot is its position in the pool. Freeing an SRP context is clearing
  \<open>srp_ctx\<close>. Every operation that takes the pool mutex is one step.

  Shown here: the well-formedness of a session (which fields may be set in which state of the
  handshake) and that every operation keeps it; that the pool implements a map from sockets to
  sessions of at most eight entries; that a session's row number follows its entry when an entry
  of the paired list is removed.
\<close>

section \<open>State\<close>

abbreviation (input) LOCAL_SESSION_MAX :: nat where "LOCAL_SESSION_MAX \<equiv> 8"

datatype local_session_state = LS_NEW | LS_PAKE_WAIT_PROOF | LS_PAKE_OK | LS_AUTH_WAIT_PROOF | LS_AUTH_OK

datatype local_session_role = LS_ROLE_NONE | LS_ROLE_USER | LS_ROLE_OWNER

record 'h local_session =
  sock :: int
  peer_ip :: "32 word"
  rx_len :: nat
  ls_state :: local_session_state
  ls_role :: local_session_role
  paired_index :: int
  srp_ctx :: "'h option"
  skey :: bytes
  nonce_dev :: bytes
  nonce_phone :: bytes
  tx_ctr :: "64 word"
  rx_ctr :: "64 word"
  rx_encrypted :: bool

type_synonym 'h pool = "'h local_session list"

definition session_zero :: "'h local_session" where
  "session_zero = \<lparr> sock = - 1, peer_ip = 0, rx_len = 0, ls_state = LS_NEW, ls_role = LS_ROLE_NONE,
     paired_index = - 1, srp_ctx = None, skey = replicate 32 NUL, nonce_dev = replicate 16 NUL,
     nonce_phone = replicate 16 NUL, tx_ctr = 0, rx_ctr = 0, rx_encrypted = False \<rparr>"

section \<open>Operations\<close>

definition wipe :: "'h local_session \<Rightarrow> 'h local_session" where
  "wipe s = s \<lparr> srp_ctx := None, skey := replicate 32 NUL, nonce_dev := replicate 16 NUL,
     nonce_phone := replicate 16 NUL, tx_ctr := 0, rx_ctr := 0, rx_encrypted := False,
     ls_state := LS_NEW, ls_role := LS_ROLE_NONE, paired_index := - 1, rx_len := 0, peer_ip := 0,
     sock := - 1 \<rparr>"

definition local_session_init :: "'h pool" where
  "local_session_init = replicate LOCAL_SESSION_MAX session_zero"

definition local_session_acquire :: "int \<Rightarrow> 32 word \<Rightarrow> 'h pool \<Rightarrow> nat option \<times> 'h pool" where
  "local_session_acquire sk ip p =
    (case index_of (\<lambda>s. sock s = - 1) p of
       Some i \<Rightarrow> (Some i, p[i := (wipe (p ! i)) \<lparr> sock := sk, peer_ip := ip \<rparr>])
     | None \<Rightarrow> (None, p))"

definition local_session_find :: "int \<Rightarrow> 'h pool \<Rightarrow> nat option" where
  "local_session_find sk p = (if sk < 0 then None else index_of (\<lambda>s. sock s = sk) p)"

definition local_session_release :: "int \<Rightarrow> 'h pool \<Rightarrow> 'h pool" where
  "local_session_release sk p =
    (case index_of (\<lambda>s. sock s = sk) p of Some i \<Rightarrow> p[i := wipe (p ! i)] | None \<Rightarrow> p)"

definition drop_auth :: "'h local_session \<Rightarrow> 'h local_session" where
  "drop_auth s = s \<lparr> srp_ctx := None, skey := replicate 32 NUL, tx_ctr := 0, rx_ctr := 0,
     ls_state := LS_NEW, ls_role := LS_ROLE_NONE, paired_index := - 1 \<rparr>"

definition local_session_on_paired_removed :: "int \<Rightarrow> 'h pool \<Rightarrow> 'h pool" where
  "local_session_on_paired_removed idx p =
    map (\<lambda>s. if sock s = - 1 then s
             else if paired_index s = idx then drop_auth s
             else if paired_index s > idx then s \<lparr> paired_index := paired_index s - 1 \<rparr>
             else s) p"

definition local_session_reset_handshake :: "'h local_session \<Rightarrow> 'h local_session" where
  "local_session_reset_handshake s = s \<lparr> srp_ctx := None, skey := replicate 32 NUL,
     nonce_dev := replicate 16 NUL, nonce_phone := replicate 16 NUL, tx_ctr := 0, rx_ctr := 0,
     rx_encrypted := False, ls_state := LS_NEW, ls_role := LS_ROLE_NONE, paired_index := - 1 \<rparr>"

definition local_session_drop_all_auth :: "'h pool \<Rightarrow> 'h pool" where
  "local_session_drop_all_auth p = map (\<lambda>s. if sock s \<noteq> - 1 then drop_auth s else s) p"

definition local_session_count :: "'h pool \<Rightarrow> nat" where
  "local_session_count p = length (filter (\<lambda>s. sock s \<noteq> - 1) p)"

text \<open>The sockets the listener shuts down to make room for their own peer, and how many they are.\<close>

definition local_session_shutdown_peer :: "32 word \<Rightarrow> 'h pool \<Rightarrow> nat \<times> int list" where
  "local_session_shutdown_peer ip p =
    (if ip = 0 then (0, [])
     else let ss = filter (\<lambda>s. sock s \<noteq> - 1 \<and> peer_ip s = ip) p in (length ss, map sock ss))"

section \<open>Well-formed sessions\<close>

text \<open>Which fields may be set in which state of the handshake.\<close>

definition session_wf :: "'h local_session \<Rightarrow> bool" where
  "session_wf s \<longleftrightarrow>
    length (skey s) = 32 \<and> length (nonce_dev s) = 16 \<and> length (nonce_phone s) = 16 \<and>
    (sock s = - 1 \<or> 0 \<le> sock s) \<and> - 1 \<le> paired_index s \<and>
    (case ls_state s of
       LS_NEW \<Rightarrow> srp_ctx s = None \<and> ls_role s = LS_ROLE_NONE \<and> paired_index s = - 1 \<and>
         skey s = replicate 32 NUL \<and> tx_ctr s = 0 \<and> rx_ctr s = 0
     | LS_PAKE_WAIT_PROOF \<Rightarrow> srp_ctx s \<noteq> None \<and> ls_role s = LS_ROLE_NONE \<and> paired_index s = - 1 \<and>
         tx_ctr s = 0 \<and> rx_ctr s = 0
     | LS_PAKE_OK \<Rightarrow> srp_ctx s = None \<and> (ls_role s = LS_ROLE_NONE \<longleftrightarrow> paired_index s = - 1)
     | LS_AUTH_WAIT_PROOF \<Rightarrow> srp_ctx s = None \<and> ls_role s = LS_ROLE_NONE \<and> 0 \<le> paired_index s \<and>
         tx_ctr s = 0 \<and> rx_ctr s = 0
     | LS_AUTH_OK \<Rightarrow> srp_ctx s = None \<and> ls_role s \<noteq> LS_ROLE_NONE \<and> 0 \<le> paired_index s) \<and>
    (sock s = - 1 \<longrightarrow> ls_state s = LS_NEW)"

definition live_socks :: "'h pool \<Rightarrow> int list" where
  "live_socks p = filter (\<lambda>k. k \<noteq> - 1) (map sock p)"

definition pool_inv :: "'h pool \<Rightarrow> bool" where
  "pool_inv p \<longleftrightarrow> length p = LOCAL_SESSION_MAX \<and> list_all session_wf p \<and> distinct (live_socks p)"

text \<open>The row a session names exists, and a session with the owner's role is on the owner's row.\<close>

definition session_agrees :: "paired_list \<Rightarrow> 'h local_session \<Rightarrow> bool" where
  "session_agrees l s \<longleftrightarrow>
    (0 \<le> paired_index s \<longrightarrow> (case paired_list_get l (paired_index s) of
       None \<Rightarrow> False
     | Some e \<Rightarrow> ls_role s = LS_ROLE_OWNER \<longrightarrow> prole e = PAIRED_ROLE_OWNER))"

lemma wipe_simps [simp]:
  "ls_state (wipe s) = LS_NEW" "sock (wipe s) = - 1" "paired_index (wipe s) = - 1"
  "skey (wipe s) = replicate 32 NUL" "ls_role (wipe s) = LS_ROLE_NONE" "srp_ctx (wipe s) = None"
  by (simp_all add: wipe_def)

lemma drop_auth_simps [simp]:
  "ls_state (drop_auth s) = LS_NEW" "sock (drop_auth s) = sock s" "paired_index (drop_auth s) = - 1"
  "skey (drop_auth s) = replicate 32 NUL" "ls_role (drop_auth s) = LS_ROLE_NONE" "srp_ctx (drop_auth s) = None"
  "peer_ip (drop_auth s) = peer_ip s"
  by (simp_all add: drop_auth_def)

lemma reset_handshake_simps [simp]:
  "ls_state (local_session_reset_handshake s) = LS_NEW" "sock (local_session_reset_handshake s) = sock s"
  "paired_index (local_session_reset_handshake s) = - 1"
  "skey (local_session_reset_handshake s) = replicate 32 NUL"
  "ls_role (local_session_reset_handshake s) = LS_ROLE_NONE" "srp_ctx (local_session_reset_handshake s) = None"
  "rx_encrypted (local_session_reset_handshake s) = False"
  "peer_ip (local_session_reset_handshake s) = peer_ip s"
  by (simp_all add: local_session_reset_handshake_def)

lemma session_wf_zero [simp]: "session_wf session_zero"
  by (simp add: session_wf_def session_zero_def)

lemma session_wf_wipe [simp]: "session_wf (wipe s)"
  by (simp add: session_wf_def wipe_def)

lemma session_wf_drop [simp]: "session_wf s \<Longrightarrow> session_wf (drop_auth s)"
  by (simp add: session_wf_def drop_auth_def)

lemma session_wf_reset [simp]: "session_wf s \<Longrightarrow> session_wf (local_session_reset_handshake s)"
  by (simp add: session_wf_def local_session_reset_handshake_def)

lemma session_wf_fresh [simp]: "0 \<le> sk \<Longrightarrow> session_wf (wipe s \<lparr> sock := sk, peer_ip := ip \<rparr>)"
  by (simp add: session_wf_def wipe_def)

lemma session_wf_shift: "session_wf s \<Longrightarrow> 0 < paired_index s \<Longrightarrow> session_wf (s \<lparr> paired_index := paired_index s - 1 \<rparr>)"
  by (cases "ls_state s") (auto simp: session_wf_def)

lemma session_agrees_none [simp]: "paired_index s < 0 \<Longrightarrow> session_agrees l s"
  by (simp add: session_agrees_def)

lemma session_agreesD: "session_agrees l s \<Longrightarrow> 0 \<le> paired_index s \<Longrightarrow> \<exists>e. paired_list_get l (paired_index s) = Some e"
  by (auto simp: session_agrees_def split: option.splits)

section \<open>The pool as a map from sockets to sessions\<close>

definition sess :: "'h pool \<Rightarrow> int \<Rightarrow> 'h local_session option" where
  "sess p sk = map_option (\<lambda>i. p ! i) (local_session_find sk p)"

lemma live_socks_Cons [simp]:
  "live_socks [] = []"
  "live_socks (s # p) = (if sock s = - 1 then live_socks p else sock s # live_socks p)"
  by (simp_all add: live_socks_def)

lemma in_live_socks: "k \<in> set (live_socks p) \<longleftrightarrow> k \<noteq> - 1 \<and> k \<in> sock ` set p"
  by (auto simp: live_socks_def)

lemma pool_inv_init [simp]: "pool_inv local_session_init"
  by (simp add: pool_inv_def local_session_init_def list_all_iff live_socks_def session_zero_def session_wf_zero [unfolded session_zero_def])

lemma find_iff:
  assumes "distinct (live_socks p)" "0 \<le> sk"
  shows "local_session_find sk p = Some i \<longleftrightarrow> i < length p \<and> sock (p ! i) = sk"
proof -
  have u: "j = i" if "i < length p" "j < length p" "sock (p ! i) = sk" "sock (p ! j) = sk" for i j
    using assms that
  proof (induction p arbitrary: i j)
    case (Cons s p)
    have d: "distinct (live_socks p)" using Cons.prems(1) by (auto split: if_splits)
    have n: "sk \<notin> sock ` set p" if "sock s = sk"
      using Cons.prems(1,2) that by (auto simp: in_live_socks split: if_splits)
    show ?case
    proof (cases i)
      case 0
      then have "sock s = sk" using Cons.prems by simp
      with n Cons.prems show ?thesis using 0 by (cases j) auto
    next
      case (Suc i')
      have "sock s \<noteq> sk" using n Cons.prems Suc by auto
      then obtain j' where j': "j = Suc j'" using Cons.prems by (cases j) auto
      show ?thesis using Cons.IH [OF d Cons.prems(2), of i' j'] Cons.prems Suc j' by auto
    qed
  qed simp
  show ?thesis
  proof
    assume "local_session_find sk p = Some i"
    then show "i < length p \<and> sock (p ! i) = sk"
      using index_of_SomeD [of "\<lambda>s. sock s = sk" p i] by (auto simp: local_session_find_def split: if_splits)
  next
    assume i: "i < length p \<and> sock (p ! i) = sk"
    then have "index_of (\<lambda>s. sock s = sk) p \<noteq> None" using nth_mem [of i p] by (auto simp: index_of_None)
    then obtain j where j: "index_of (\<lambda>s. sock s = sk) p = Some j" by auto
    have "j = i" using u [of i j] i index_of_SomeD [OF j] by simp
    with j assms(2) show "local_session_find sk p = Some i" by (simp add: local_session_find_def)
  qed
qed

lemma find_None: "0 \<le> sk \<Longrightarrow> local_session_find sk p = None \<longleftrightarrow> sk \<notin> sock ` set p"
  by (auto simp: local_session_find_def index_of_None)

lemma find_SomeD:
  "local_session_find sk p = Some i \<Longrightarrow> i < length p \<and> sock (p ! i) = sk \<and> 0 \<le> sk"
  by (auto simp: local_session_find_def dest: index_of_SomeD split: if_splits)

lemma distinct_live_update:
  "distinct (live_socks p) \<Longrightarrow> i < length p \<Longrightarrow> sock s = sock (p ! i) \<or> sock s = - 1 \<or> sock s \<notin> sock ` set p \<Longrightarrow>
    distinct (live_socks (p[i := s]))"
proof (induction p arbitrary: i)
  case (Cons a p)
  show ?case
  proof (cases i)
    case 0
    with Cons.prems show ?thesis by (auto simp: in_live_socks split: if_splits)
  next
    case (Suc j)
    have "distinct (live_socks (p[j := s]))" using Cons Suc by (auto split: if_splits)
    moreover have "sock a \<notin> sock ` set (p[j := s])" if "sock a \<noteq> - 1"
    proof
      assume "sock a \<in> sock ` set (p[j := s])"
      then have "sock a = sock s \<or> sock a \<in> sock ` set p"
        using set_update_subset_insert [of p j s] by auto
      moreover have "sock a \<notin> sock ` set p" using Cons.prems(1) that by (simp add: in_live_socks)
      ultimately have "sock a = sock s" by simp
      moreover have "sock (p ! j) \<in> sock ` set p" using Cons.prems(2) Suc by simp
      ultimately show False using Cons.prems(3) Suc that \<open>sock a \<notin> sock ` set p\<close> by auto
    qed
    ultimately show ?thesis using Suc by (auto simp: in_live_socks)
  qed
qed simp

lemma map_sock_update: "i < length p \<Longrightarrow> sock s = sock (p ! i) \<Longrightarrow> map sock (p[i := s]) = map sock p"
  by (simp add: map_update list_update_same_conv)

lemma live_socks_update_same: "i < length p \<Longrightarrow> sock s = sock (p ! i) \<Longrightarrow> live_socks (p[i := s]) = live_socks p"
  using map_sock_update [of i p s] by (simp only: live_socks_def)

lemma index_of_sock: "index_of (\<lambda>s. sock s = k) q = index_of (\<lambda>j. j = k) (map sock q)"
  by (induction q) auto

lemma find_update_same: "i < length p \<Longrightarrow> sock s = sock (p ! i) \<Longrightarrow> local_session_find sk (p[i := s]) = local_session_find sk p"
proof -
  assume "i < length p" "sock s = sock (p ! i)"
  then have "map sock (p[i := s]) = map sock p" by (rule map_sock_update)
  then show ?thesis by (simp only: local_session_find_def index_of_sock)
qed

text \<open>An update of a session in place keeps the pool's shape, provided it keeps the socket.\<close>

lemma pool_inv_update:
  "pool_inv p \<Longrightarrow> i < length p \<Longrightarrow> sock s = sock (p ! i) \<Longrightarrow> session_wf s \<Longrightarrow> pool_inv (p[i := s])"
  by (simp add: pool_inv_def list_all_updateI live_socks_update_same)

lemma sess_update:
  "pool_inv p \<Longrightarrow> i < length p \<Longrightarrow> sock s = sock (p ! i) \<Longrightarrow> 0 \<le> sock s \<Longrightarrow> sess (p[i := s]) = (sess p)(sock s \<mapsto> s)"
proof (rule ext)
  fix k assume a: "pool_inv p" "i < length p" "sock s = sock (p ! i)" "0 \<le> sock s"
  show "sess (p[i := s]) k = ((sess p)(sock s \<mapsto> s)) k"
  proof (cases "k = sock s")
    case True
    have "local_session_find (sock s) p = Some i" using a find_iff [of p "sock s" i] by (simp add: pool_inv_def)
    with True a show ?thesis by (simp add: sess_def find_update_same)
  next
    case False
    have "j \<noteq> i" if "local_session_find k p = Some j" for j using find_SomeD [OF that] False a by auto
    with False a show ?thesis
      by (cases "local_session_find k p") (auto simp: sess_def find_update_same nth_list_update)
  qed
qed

lemma sess_SomeD: "sess p sk = Some s \<Longrightarrow> \<exists>i. local_session_find sk p = Some i \<and> i < length p \<and> s = p ! i \<and> sock s = sk \<and> 0 \<le> sk"
  by (auto simp: sess_def dest: find_SomeD)

lemma pool_inv_nth: "pool_inv p \<Longrightarrow> i < length p \<Longrightarrow> session_wf (p ! i)"
  by (simp add: pool_inv_def list_all_length)

lemma sess_iff:
  "pool_inv p \<Longrightarrow> sess p k = Some s \<longleftrightarrow> 0 \<le> k \<and> (\<exists>i < length p. p ! i = s \<and> sock s = k)"
proof (cases "0 \<le> k")
  case True
  assume "pool_inv p"
  then have d: "distinct (live_socks p)" by (simp add: pool_inv_def)
  show ?thesis
  proof
    assume "sess p k = Some s"
    then show "0 \<le> k \<and> (\<exists>i < length p. p ! i = s \<and> sock s = k)" using sess_SomeD by blast
  next
    assume "0 \<le> k \<and> (\<exists>i < length p. p ! i = s \<and> sock s = k)"
    then obtain i where "i < length p" "p ! i = s" "sock s = k" by blast
    then show "sess p k = Some s" using find_iff [OF d True, of i] by (simp add: sess_def)
  qed
qed (simp add: sess_def local_session_find_def)

text \<open>Two pools with the same sessions under every socket number are the same map.\<close>

lemma sess_eqI:
  assumes "pool_inv p" "pool_inv q"
    and "\<And>k s. 0 \<le> k \<Longrightarrow> sock s = k \<Longrightarrow> s \<in> set q \<longleftrightarrow> m k = Some s"
    and "\<And>k s. m k = Some s \<Longrightarrow> 0 \<le> k \<and> sock s = k"
  shows "sess q = m"
proof (rule ext)
  fix k
  show "sess q k = m k"
  proof (cases "m k")
    case (Some s)
    with assms(3,4) have "0 \<le> k" "sock s = k" "s \<in> set q" by blast+
    with Some show ?thesis using sess_iff [OF assms(2), of k s] by (auto simp: in_set_conv_nth)
  next
    case None
    show ?thesis
    proof (cases "sess q k")
      case (Some a)
      then have "0 \<le> k" "sock a = k" "a \<in> set q" using sess_iff [OF assms(2), of k a] by auto
      then show ?thesis using assms(3) None by simp
    qed (simp add: None)
  qed
qed

lemma sess_mem: "pool_inv p \<Longrightarrow> sess p k = Some s \<longleftrightarrow> 0 \<le> k \<and> s \<in> set p \<and> sock s = k"
  by (auto simp: sess_iff in_set_conv_nth)

lemma pool_inv_map:
  assumes "pool_inv p" "\<And>s. session_wf s \<Longrightarrow> session_wf (f s)" "\<And>s. sock (f s) = sock s"
  shows "pool_inv (map f p)" "sess (map f p) = map_option f \<circ> sess p"
proof -
  have m: "map sock (map f p) = map sock p" by (simp add: assms(3))
  have l: "live_socks (map f p) = live_socks p" by (simp only: live_socks_def m)
  show inv: "pool_inv (map f p)" using assms(1,2) by (simp add: pool_inv_def l list_all_iff)
  have f: "local_session_find k (map f p) = local_session_find k p" for k
    by (simp only: local_session_find_def index_of_sock m)
  show "sess (map f p) = map_option f \<circ> sess p"
  proof (rule ext)
    fix k
    show "sess (map f p) k = (map_option f \<circ> sess p) k"
      using find_SomeD [of k p] by (cases "local_session_find k p") (auto simp: sess_def f)
  qed
qed

lemma acquire_spec:
  assumes "pool_inv p" "0 \<le> sk" "sess p sk = None"
  shows "(case local_session_acquire sk ip p of
      (Some i, q) \<Rightarrow> pool_inv q \<and> i < length q \<and> sess q = (sess p)(sk \<mapsto> session_zero \<lparr> sock := sk, peer_ip := ip \<rparr>) \<and>
        q ! i = session_zero \<lparr> sock := sk, peer_ip := ip \<rparr>
    | (None, q) \<Rightarrow> q = p \<and> local_session_count p = LOCAL_SESSION_MAX)"
proof (cases "index_of (\<lambda>s. sock s = - 1) p")
  case None
  then have "filter (\<lambda>s. sock s \<noteq> - 1) p = p" by (simp add: index_of_None filter_id_conv)
  with None assms(1) show ?thesis by (simp add: local_session_acquire_def local_session_count_def pool_inv_def)
next
  case (Some i)
  let ?s = "(wipe (p ! i)) \<lparr> sock := sk, peer_ip := ip \<rparr>"
  have s: "?s = session_zero \<lparr> sock := sk, peer_ip := ip \<rparr>" by (simp add: wipe_def session_zero_def)
  have i: "i < length p" "sock (p ! i) = - 1" using index_of_SomeD [OF Some] by auto
  have fresh: "sk \<notin> sock ` set p" using assms(2,3) by (auto simp: sess_def find_None)
  have inv: "pool_inv (p[i := ?s])"
    using assms(1,2) i fresh by (simp add: pool_inv_def list_all_updateI distinct_live_update)
  have "sess (p[i := ?s]) = (sess p)(sk \<mapsto> ?s)"
  proof (rule sess_eqI [OF assms(1) inv])
    fix k and s' :: "'a local_session"
    assume k: "0 \<le> k" "sock s' = k"
    have "s' \<in> set (p[i := ?s]) \<longleftrightarrow> s' = ?s \<or> (s' \<in> set p \<and> k \<noteq> sk)"
    proof
      assume "s' \<in> set (p[i := ?s])"
      then show "s' = ?s \<or> (s' \<in> set p \<and> k \<noteq> sk)"
        using set_update_subset_insert [of p i ?s] fresh k by auto
    next
      assume "s' = ?s \<or> (s' \<in> set p \<and> k \<noteq> sk)"
      then show "s' \<in> set (p[i := ?s])"
      proof
        assume "s' \<in> set p \<and> k \<noteq> sk"
        then obtain j where j: "j < length p" "p ! j = s'" by (auto simp: in_set_conv_nth)
        then have "j \<noteq> i" using i k by auto
        then have "p[i := ?s] ! j = s'" using j by simp
        then show ?thesis using j by (metis length_list_update nth_mem)
      qed (use i in \<open>simp add: set_update_memI\<close>)
    qed
    then show "s' \<in> set (p[i := ?s]) \<longleftrightarrow> ((sess p)(sk \<mapsto> ?s)) k = Some s'"
      using k sess_mem [OF assms(1), of k s'] by auto
  next
    fix k and s' :: "'a local_session"
    assume "((sess p)(sk \<mapsto> ?s)) k = Some s'"
    then show "0 \<le> k \<and> sock s' = k" using assms(2) sess_mem [OF assms(1), of k s'] by (auto split: if_splits)
  qed
  with Some inv s i show ?thesis by (simp add: local_session_acquire_def)
qed

lemma release_spec:
  assumes "pool_inv p" "0 \<le> sk"
  shows "pool_inv (local_session_release sk p) \<and> sess (local_session_release sk p) = (sess p)(sk := None)"
proof (cases "index_of (\<lambda>s. sock s = sk) p")
  case None
  then have "sess p sk = None" using assms(2) by (simp add: sess_def local_session_find_def)
  with None assms(1) show ?thesis by (simp add: local_session_release_def fun_upd_idem)
next
  case (Some i)
  have i: "i < length p" "sock (p ! i) = sk" using index_of_SomeD [OF Some] by auto
  have d: "distinct (live_socks p)" using assms(1) by (simp add: pool_inv_def)
  have inv: "pool_inv (p[i := wipe (p ! i)])"
    using assms(1) i by (simp add: pool_inv_def list_all_updateI distinct_live_update)
  have u: "j = i" if "j < length p" "sock (p ! j) = sk" for j
    using find_iff [OF d assms(2)] that i by (metis option.inject)
  have "sess (p[i := wipe (p ! i)]) = (sess p)(sk := None)"
  proof (rule sess_eqI [OF assms(1) inv])
    fix k and s' :: "'a local_session"
    assume k: "0 \<le> k" "sock s' = k"
    have "s' \<in> set (p[i := wipe (p ! i)]) \<longleftrightarrow> s' \<in> set p \<and> k \<noteq> sk"
    proof
      assume "s' \<in> set (p[i := wipe (p ! i)])"
      then obtain j where j: "j < length p" "p[i := wipe (p ! i)] ! j = s'" by (auto simp: in_set_conv_nth)
      have "j \<noteq> i" using j k by (auto simp: nth_list_update split: if_splits)
      with j u [of j] k show "s' \<in> set p \<and> k \<noteq> sk" by auto
    next
      assume a: "s' \<in> set p \<and> k \<noteq> sk"
      then obtain j where j: "j < length p" "p ! j = s'" by (auto simp: in_set_conv_nth)
      then have "j \<noteq> i" using i k a by auto
      then have "p[i := wipe (p ! i)] ! j = s'" using j by simp
      then show "s' \<in> set (p[i := wipe (p ! i)])" using j by (metis length_list_update nth_mem)
    qed
    then show "s' \<in> set (p[i := wipe (p ! i)]) \<longleftrightarrow> ((sess p)(sk := None)) k = Some s'"
      using k sess_mem [OF assms(1), of k s'] by auto
  next
    fix k and s' :: "'a local_session"
    assume "((sess p)(sk := None)) k = Some s'"
    then show "0 \<le> k \<and> sock s' = k" using sess_mem [OF assms(1), of k s'] by (auto split: if_splits)
  qed
  with Some inv show ?thesis by (simp add: local_session_release_def)
qed

text \<open>What \<open>local_session_on_paired_removed\<close> does to one session in use.\<close>

definition session_follow :: "int \<Rightarrow> 'h local_session \<Rightarrow> 'h local_session" where
  "session_follow k s = (if paired_index s = k then drop_auth s
     else if paired_index s > k then s \<lparr> paired_index := paired_index s - 1 \<rparr> else s)"

lemma session_follow_simps [simp]: "sock (session_follow k s) = sock s" "paired_index (session_follow k s) = follow k (paired_index s)"
  by (simp_all add: session_follow_def follow_def)

lemma on_paired_removed_spec:
  assumes "pool_inv p" "0 \<le> k"
  shows "pool_inv (local_session_on_paired_removed k p)"
    "sess (local_session_on_paired_removed k p) = map_option (session_follow k) \<circ> sess p"
proof -
  let ?f = "\<lambda>s::'a local_session. if sock s = - 1 then s else session_follow k s"
  have e: "local_session_on_paired_removed k p = map ?f p"
    by (simp add: local_session_on_paired_removed_def session_follow_def)
  have "session_wf (?f s)" if "session_wf s" for s :: "'a local_session"
    using that assms(2) by (auto simp: session_follow_def session_wf_shift)
  note m = pool_inv_map [OF assms(1), of ?f, OF this]
  show "pool_inv (local_session_on_paired_removed k p)" unfolding e by (rule m(1)) auto
  have "sess (map ?f p) = map_option ?f \<circ> sess p" by (rule m(2)) auto
  also have "\<dots> = map_option (session_follow k) \<circ> sess p"
  proof (rule ext)
    fix j
    show "(map_option ?f \<circ> sess p) j = (map_option (session_follow k) \<circ> sess p) j"
      using sess_SomeD [of p j] by (cases "sess p j") auto
  qed
  finally show "sess (local_session_on_paired_removed k p) = map_option (session_follow k) \<circ> sess p" unfolding e .
qed

lemma drop_all_spec:
  assumes "pool_inv p"
  shows "pool_inv (local_session_drop_all_auth p)"
    "sess (local_session_drop_all_auth p) = map_option drop_auth \<circ> sess p"
proof -
  let ?f = "\<lambda>s::'a local_session. if sock s \<noteq> - 1 then drop_auth s else s"
  note m = pool_inv_map [OF assms, of ?f]
  show "pool_inv (local_session_drop_all_auth p)" unfolding local_session_drop_all_auth_def by (rule m(1)) auto
  have "sess (map ?f p) = map_option ?f \<circ> sess p" by (rule m(2)) auto
  also have "\<dots> = map_option drop_auth \<circ> sess p"
  proof (rule ext)
    fix j
    show "(map_option ?f \<circ> sess p) j = (map_option drop_auth \<circ> sess p) j"
      using sess_SomeD [of p j] by (cases "sess p j") auto
  qed
  finally show "sess (local_session_drop_all_auth p) = map_option drop_auth \<circ> sess p"
    unfolding local_session_drop_all_auth_def .
qed

text \<open>A session that follows a removal stays in agreement with the shortened list.\<close>

lemma session_follow_agrees:
  assumes "paired_inv l" "0 \<le> k" "k < int (pcount l)" "session_wf s" "session_agrees l s"
  shows "session_agrees (remove_entry (nat k) l) (session_follow k s)"
proof (cases "0 \<le> paired_index s \<and> paired_index s \<noteq> k")
  case True
  then obtain e where e: "paired_list_get l (paired_index s) = Some e" "ls_role s = LS_ROLE_OWNER \<longrightarrow> prole e = PAIRED_ROLE_OWNER"
    using assms(5) by (auto simp: session_agrees_def split: option.splits)
  have "paired_list_get l k \<noteq> None" using assms(2,3) by (simp add: paired_list_get_def)
  from pl.follow_row [OF assms(1) this, of "paired_index s"] e(1) True
  have "paired_list_get (remove_entry (nat k) l) (follow k (paired_index s)) = Some e" by simp
  moreover have "ls_role (session_follow k s) = ls_role s" using True by (simp add: session_follow_def)
  ultimately show ?thesis using e(2) by (simp add: session_agrees_def)
next
  case False
  then have "paired_index (session_follow k s) < 0" using assms(2,4) by (auto simp: follow_def session_wf_def)
  then show ?thesis by simp
qed

end
