(* ===== verification/Pairing_Events.thy ===== *)
theory Pairing_Events
  imports Bench_Platform
begin

text \<open>
  The queue of pairing events waiting to be published, \<open>security/pairing_events.c\<close>: at most eight
  JSON texts in slots of 256 bytes, mirrored in NVS under the key \<open>pevents\<close> on every change.

  Shown here: the queue is a bounded queue that forgets its oldest event when it is full, every
  text fits its slot, and what is queued is found again after a reboot.
\<close>

section \<open>State\<close>

abbreviation (input) PAIRING_EVENTS_MAX :: nat where "PAIRING_EVENTS_MAX \<equiv> 8"
abbreviation (input) PAIRING_EVENT_JSON_MAX :: nat where "PAIRING_EVENT_JSON_MAX \<equiv> 256"
abbreviation (input) NVS_KEY_QUEUE :: bytes where "NVS_KEY_QUEUE \<equiv> ''pevents''"
abbreviation (input) QUEUE_SIZE :: nat where "QUEUE_SIZE \<equiv> 2052"

record queue_t =
  q_count :: nat
  q_json :: "bytes list"

definition queue_zero :: queue_t where
  "queue_zero = \<lparr> q_count = 0, q_json = replicate PAIRING_EVENTS_MAX (replicate PAIRING_EVENT_JSON_MAX NUL) \<rparr>"

text \<open>The layout of \<open>queue_t\<close>: the count, three reserved bytes, the slots.\<close>

definition queue_bytes :: "queue_t \<Rightarrow> bytes" where
  "queue_bytes q = [char_of (q_count q)] @ replicate 3 NUL @ concat (q_json q)"

definition queue_of_bytes :: "bytes \<Rightarrow> queue_t" where
  "queue_of_bytes b = \<lparr> q_count = of_char (b ! 0),
     q_json = map (\<lambda>i. take PAIRING_EVENT_JSON_MAX (drop (4 + PAIRING_EVENT_JSON_MAX * i) b)) [0..<PAIRING_EVENTS_MAX] \<rparr>"

section \<open>NVS\<close>

definition events_nvs_store :: "('n, 'h) env \<Rightarrow> queue_t \<Rightarrow> 'n \<Rightarrow> 'n" where
  "events_nvs_store E q n0 =
    (let (err, n) = nvs_open (nvs E) CY_SEC NVS_READWRITE n0 in
     if err \<noteq> ESP_OK then n else
     let (err, n) =
           (if q_count q = 0 then
              let (err, n) = nvs_erase_key (nvs E) CY_SEC NVS_KEY_QUEUE n
              in (if err = ESP_ERR_NVS_NOT_FOUND then ESP_OK else err, n)
            else nvs_set (nvs E) CY_SEC NVS_KEY_QUEUE
              (Blob (take (4 + q_count q * PAIRING_EVENT_JSON_MAX) (queue_bytes q))) n)
     in if err = ESP_OK then snd (nvs_commit (nvs E) CY_SEC n) else n)"

definition events_nvs_load :: "('n, 'h) env \<Rightarrow> 'n \<Rightarrow> queue_t \<times> 'n" where
  "events_nvs_load E n0 =
    (let (err, n) = nvs_open (nvs E) CY_SEC NVS_READONLY n0 in
     if err \<noteq> ESP_OK then (queue_zero, n) else
     let (err, b) = nvs_get_blob (nvs E) CY_SEC NVS_KEY_QUEUE QUEUE_SIZE n;
         q = (if err = ESP_OK then queue_of_bytes (memcpy_into (queue_bytes queue_zero) b) else queue_zero)
     in if err \<noteq> ESP_OK \<or> q_count q > PAIRING_EVENTS_MAX \<or> length b \<noteq> 4 + q_count q * PAIRING_EVENT_JSON_MAX
        then (queue_zero, n) else (q, n))"

section \<open>Operations\<close>

text \<open>\<open>json_escape\<close> with \<open>o\<close> bytes already written to a buffer of \<open>out_size\<close>.\<close>

fun json_escape_from :: "nat \<Rightarrow> nat \<Rightarrow> bytes \<Rightarrow> bytes" where
  "json_escape_from out_size o' [] = []"
| "json_escape_from out_size o' (c # cs) =
    (if o' + 2 < out_size then
       if c = CHR 0x22 \<or> c = CHR 0x5C then CHR 0x5C # c # json_escape_from out_size (o' + 2) cs
       else c # json_escape_from out_size (o' + 1) cs
     else [])"

definition json_escape :: "nat \<Rightarrow> bytes \<Rightarrow> bytes" where
  "json_escape out_size s = json_escape_from out_size 0 (cstr s)"

definition pairing_events_init :: "('n, 'h) env \<Rightarrow> 'n \<Rightarrow> queue_t \<times> 'n" where
  "pairing_events_init E n = events_nvs_load E n"

abbreviation (input) DQ :: bytes where "DQ \<equiv> [CHR 0x22]"

text \<open>The text of an event; \<open>t\<close> is \<open>time(NULL)\<close>, printed as the 32-bit \<open>unsigned long\<close> of the target.\<close>

definition event_json :: "int \<Rightarrow> bytes \<Rightarrow> bytes \<Rightarrow> bytes \<Rightarrow> bytes" where
  "event_json t event user_sub role =
    (let ev = json_escape 16 event; rl = json_escape 16 role; sub = json_escape 81 user_sub;
         at = (if t > 1600000000 then nat (t mod 2 ^ 32) else 0)
     in ''{'' @ DQ @ ''event'' @ DQ @ '':'' @ DQ @ ev @ DQ @ '','' @ DQ @ ''userSub'' @ DQ @ '':'' @ DQ @ sub @ DQ @
        '','' @ DQ @ ''role'' @ DQ @ '':'' @ DQ @ rl @ DQ @ '','' @ DQ @ ''at'' @ DQ @ '':'' @ dec_nat at @ ''}'')"

text \<open>\<open>memmove(json[0], json[1], 7 slots)\<close>: the last slot keeps its bytes.\<close>

definition shift_slots :: "bytes list \<Rightarrow> bytes list" where
  "shift_slots js = tl js @ [last js]"

definition pairing_events_push :: "('n, 'h) env \<Rightarrow> int \<Rightarrow> bytes \<Rightarrow> bytes \<Rightarrow> bytes \<Rightarrow> queue_t \<Rightarrow> 'n \<Rightarrow> queue_t \<times> 'n" where
  "pairing_events_push E t event user_sub role q n =
    (let q = (if q_count q \<ge> PAIRING_EVENTS_MAX
              then q \<lparr> q_json := shift_slots (q_json q), q_count := q_count q - 1 \<rparr> else q);
         text = snprintf_buf PAIRING_EVENT_JSON_MAX (event_json t event user_sub role);
         q = q \<lparr> q_json := (q_json q)[q_count q := memcpy_into (q_json q ! q_count q) (text @ [NUL])],
                 q_count := q_count q + 1 \<rparr>
     in (q, events_nvs_store E q n))"

definition pairing_events_pending :: "queue_t \<Rightarrow> nat" where
  "pairing_events_pending q = q_count q"

definition pairing_events_peek :: "queue_t \<Rightarrow> nat \<Rightarrow> bytes option" where
  "pairing_events_peek q out_size = (if q_count q > 0 then Some (field_of out_size (q_json q ! 0)) else None)"

definition pairing_events_pop :: "('n, 'h) env \<Rightarrow> queue_t \<Rightarrow> 'n \<Rightarrow> queue_t \<times> 'n" where
  "pairing_events_pop E q n =
    (if q_count q > 0 then
       let js = shift_slots (q_json q); c = q_count q - 1;
           q = q \<lparr> q_json := js[c := replicate PAIRING_EVENT_JSON_MAX NUL], q_count := c \<rparr>
       in (q, events_nvs_store E q n)
     else (q, n))"

section \<open>Invariant and abstraction\<close>

definition queue_inv :: "queue_t \<Rightarrow> bool" where
  "queue_inv q \<longleftrightarrow> q_count q \<le> PAIRING_EVENTS_MAX \<and> length (q_json q) = PAIRING_EVENTS_MAX \<and>
     list_all (\<lambda>j. length j = PAIRING_EVENT_JSON_MAX) (q_json q)"

definition queued :: "queue_t \<Rightarrow> bytes list" where
  "queued q = map cstr (take (q_count q) (q_json q))"

lemma queue_inv_zero [simp]: "queue_inv queue_zero" "queued queue_zero = []"
  by (simp_all add: queue_inv_def queue_zero_def queued_def list_all_iff)

lemma length_json_escape_from: "o' \<le> out_size - 1 \<Longrightarrow> o' + length (json_escape_from out_size o' s) \<le> out_size - 1"
proof (induction out_size o' s rule: json_escape_from.induct)
  case (2 out_size o' c cs)
  show ?case
  proof (cases "o' + 2 < out_size")
    case True
    then show ?thesis using 2 by auto
  qed (use 2 in simp)
qed simp

lemma length_json_escape: "length (json_escape out_size s) \<le> out_size - 1"
  using length_json_escape_from [of 0 out_size "cstr s"] by (simp add: json_escape_def)

lemma json_escape_no_nul: "NUL \<notin> set (json_escape out_size s)"
proof -
  have "set (json_escape_from n k t) \<subseteq> set t \<union> {CHR 0x5C}" for n k t
    by (induction n k t rule: json_escape_from.induct) auto
  then show ?thesis using cstr_no_nul [of s] by (fastforce simp: json_escape_def)
qed

lemma length_dec_nat_le: "n < 10 ^ k \<Longrightarrow> 0 < k \<Longrightarrow> length (dec_nat n) \<le> k"
proof (induction k arbitrary: n)
  case (Suc k)
  show ?case
  proof (cases "n < 10")
    case True
    then show ?thesis by (subst dec_nat.simps) simp
  next
    case False
    then have "k \<noteq> 0" using Suc.prems by (cases k) auto
    moreover have "n div 10 < 10 ^ k" using Suc.prems by (simp add: div_less_iff_less_mult mult.commute)
    ultimately have "length (dec_nat (n div 10)) \<le> k" using Suc.IH by simp
    with False show ?thesis by (subst dec_nat.simps) simp
  qed
qed simp

lemma dec_nat_no_nul: "NUL \<notin> set (dec_nat n)"
  using dec_nat_digits [of n] by (metis not_is_digit(3))

lemma event_json_fits: "length (event_json t ev sub role) < PAIRING_EVENT_JSON_MAX"
proof -
  let ?at = "if t > 1600000000 then nat (t mod 2 ^ 32) else 0"
  have "nat (t mod 2 ^ 32) < 10 ^ 10"
  proof -
    have "t mod 2 ^ 32 < 2 ^ 32" by simp
    then show ?thesis by simp
  qed
  then have "length (dec_nat ?at) \<le> 10" by (intro length_dec_nat_le) auto
  then show ?thesis
    using length_json_escape [of 16 ev] length_json_escape [of 16 role] length_json_escape [of 81 sub]
    by (simp add: event_json_def Let_def)
qed

lemma event_json_no_nul: "NUL \<notin> set (event_json t ev sub role)"
  using json_escape_no_nul dec_nat_no_nul by (simp add: event_json_def Let_def)

lemma snprintf_event: "snprintf_buf PAIRING_EVENT_JSON_MAX (event_json t ev sub role) = event_json t ev sub role"
  using event_json_fits [of t ev sub role] by (simp add: snprintf_buf_def)

lemma length_shift_slots [simp]: "js \<noteq> [] \<Longrightarrow> length (shift_slots js) = length js"
  by (simp add: shift_slots_def)

lemma take_shift_slots: "k < length js \<Longrightarrow> take k (shift_slots js) = take k (tl js)"
  by (simp add: shift_slots_def)

lemma list_all_shift_slots: "js \<noteq> [] \<Longrightarrow> list_all P js \<Longrightarrow> list_all P (shift_slots js)"
  by (auto simp: shift_slots_def list_all_iff dest: list.set_sel(2))

lemma push_room:
  assumes "queue_inv q" "q_count q < PAIRING_EVENTS_MAX" "length text < PAIRING_EVENT_JSON_MAX" "NUL \<notin> set text"
    "q' = q \<lparr> q_json := (q_json q)[q_count q := memcpy_into (q_json q ! q_count q) (text @ [NUL])], q_count := q_count q + 1 \<rparr>"
  shows "queue_inv q'" "queued q' = queued q @ [text]"
proof -
  have l: "length (q_json q ! q_count q) = 256" using assms(1,2) by (auto simp: queue_inv_def list_all_length)
  show "queue_inv q'" using assms(1-3) l by (simp add: assms(5) queue_inv_def list_all_updateI)
  have "cstr (memcpy_into (q_json q ! q_count q) (text @ [NUL])) = text"
    using assms(4) by (simp add: memcpy_into_def)
  moreover have "take (q_count q + 1) ((q_json q)[q_count q := x]) = take (q_count q) (q_json q) @ [x]" for x
    using assms(1,2) by (simp add: take_Suc_update queue_inv_def)
  ultimately show "queued q' = queued q @ [text]" by (simp add: assms(5) queued_def)
qed

lemma push_spec:
  assumes "queue_inv q"
  shows "queue_inv (fst (pairing_events_push E t ev sub role q n))"
    and "queued (fst (pairing_events_push E t ev sub role q n)) =
      (if length (queued q) = PAIRING_EVENTS_MAX then tl (queued q) else queued q) @ [event_json t ev sub role]"
proof -
  let ?text = "event_json t ev sub role"
  define q1 where "q1 = (if q_count q \<ge> PAIRING_EVENTS_MAX
              then q \<lparr> q_json := shift_slots (q_json q), q_count := q_count q - 1 \<rparr> else q)"
  have len: "length (q_json q) = 8" and cnt: "q_count q \<le> 8" using assms by (auto simp: queue_inv_def)
  have ne: "q_json q \<noteq> []" using len by auto
  have q1: "queue_inv q1 \<and> q_count q1 < 8 \<and>
      queued q1 = (if length (queued q) = PAIRING_EVENTS_MAX then tl (queued q) else queued q)"
  proof (cases "q_count q = 8")
    case True
    then have "take 8 (q_json q) = q_json q" "take 7 (tl (q_json q)) = tl (q_json q)" using len by auto
    with True assms ne len show ?thesis
      by (simp add: q1_def queue_inv_def queued_def take_shift_slots list_all_shift_slots map_tl)
  next
    case False
    then show ?thesis using assms cnt len by (simp add: q1_def queued_def)
  qed
  have p: "fst (pairing_events_push E t ev sub role q n) =
      q1 \<lparr> q_json := (q_json q1)[q_count q1 := memcpy_into (q_json q1 ! q_count q1) (?text @ [NUL])], q_count := q_count q1 + 1 \<rparr>"
    by (simp add: pairing_events_push_def Let_def snprintf_event q1_def)
  show "queue_inv (fst (pairing_events_push E t ev sub role q n))"
    and "queued (fst (pairing_events_push E t ev sub role q n)) =
      (if length (queued q) = PAIRING_EVENTS_MAX then tl (queued q) else queued q) @ [?text]"
    using push_room [OF _ _ event_json_fits event_json_no_nul p] q1 by simp_all
qed

lemma pop_spec:
  assumes "queue_inv q"
  shows "queue_inv (fst (pairing_events_pop E q n))" "queued (fst (pairing_events_pop E q n)) = tl (queued q)"
proof -
  have len: "length (q_json q) = 8" and cnt: "q_count q \<le> 8" using assms by (auto simp: queue_inv_def)
  have ne: "q_json q \<noteq> []" using len by auto
  show "queue_inv (fst (pairing_events_pop E q n))"
    using assms ne by (auto simp: pairing_events_pop_def queue_inv_def Let_def list_all_updateI list_all_shift_slots)
  show "queued (fst (pairing_events_pop E q n)) = tl (queued q)"
  proof (cases "q_count q")
    case 0
    then show ?thesis by (simp add: pairing_events_pop_def queued_def)
  next
    case (Suc c)
    then have "c < length (q_json q)" using cnt len by simp
    moreover have "take c (tl (q_json q)) = tl (take (Suc c) (q_json q))" by (cases "q_json q") auto
    ultimately show ?thesis using Suc by (simp add: pairing_events_pop_def queued_def Let_def take_shift_slots map_tl)
  qed
qed

section \<open>Reboot\<close>

lemma length_queue_bytes: "queue_inv q \<Longrightarrow> length (queue_bytes q) = QUEUE_SIZE"
  using length_concat_chunks [of "q_json q" "\<lambda>j. j" 256]
  by (simp add: queue_bytes_def queue_inv_def list_all_iff)

lemma queue_reload:
  assumes "queue_inv q" "b = take (4 + q_count q * PAIRING_EVENT_JSON_MAX) (queue_bytes q)"
  shows "queued (queue_of_bytes (memcpy_into (queue_bytes queue_zero) b)) = queued q"
    "q_count (queue_of_bytes (memcpy_into (queue_bytes queue_zero) b)) = q_count q"
    "queue_inv (queue_of_bytes (memcpy_into (queue_bytes queue_zero) b))"
proof -
  let ?r = "memcpy_into (queue_bytes queue_zero) b"
  have c: "q_count q \<le> 8" and js: "length (q_json q) = 8" "\<And>j. j \<in> set (q_json q) \<Longrightarrow> length j = 256"
    using assms(1) by (auto simp: queue_inv_def list_all_iff)
  have lb: "length b = 4 + q_count q * 256" using c by (simp add: assms(2) length_queue_bytes [OF assms(1)])
  have lr: "length ?r = QUEUE_SIZE" using lb c by (simp add: length_queue_bytes)
  have "?r ! 0 = char_of (q_count q)"
    using lb by (simp add: memcpy_into_def nth_append) (simp add: assms(2) queue_bytes_def)
  then show n: "q_count (queue_of_bytes ?r) = q_count q" using c by (simp add: queue_of_bytes_def)
  have d: "take 256 (drop (4 + 256 * i) ?r) = q_json q ! i" if "i < q_count q" for i
  proof -
    have "256 * i + 256 \<le> 256 * q_count q" using that by (metis Suc_leI mult_Suc_right mult_le_mono2 add.commute)
    then have "take 256 (drop (4 + 256 * i) ?r) = take 256 (drop (4 + 256 * i) b)"
      using lb by (simp add: memcpy_into_def)
    also have "\<dots> = take 256 (drop (256 * i) (concat (q_json q)))"
    proof -
      define h where "h = [char_of (q_count q) :: byte] @ replicate 3 NUL"
      have "queue_bytes q = h @ concat (q_json q)" "length h = 4" by (simp_all add: queue_bytes_def h_def)
      then show ?thesis
        using \<open>256 * i + 256 \<le> 256 * q_count q\<close> by (simp add: assms(2) drop_take min_def)
    qed
    also have "\<dots> = q_json q ! i"
      using take_drop_chunks [of "q_json q" "\<lambda>j. j" 256 i] js that c by simp
    finally show ?thesis .
  qed
  have "take (q_count q) (q_json (queue_of_bytes ?r)) = take (q_count q) (q_json q)"
  proof (rule nth_equalityI)
    show "length (take (q_count q) (q_json (queue_of_bytes ?r))) = length (take (q_count q) (q_json q))"
      using js by (simp add: queue_of_bytes_def)
    fix i assume "i < length (take (q_count q) (q_json (queue_of_bytes ?r)))"
    then have "i < q_count q" "i < 8" by (simp_all add: queue_of_bytes_def)
    then show "take (q_count q) (q_json (queue_of_bytes ?r)) ! i = take (q_count q) (q_json q) ! i"
      using d [of i] by (simp add: queue_of_bytes_def)
  qed
  then show "queued (queue_of_bytes ?r) = queued q" using n by (simp add: queued_def)
  have "length (take 256 (drop (4 + 256 * i) ?r)) = 256" if "i < 8" for i using that lr by simp
  then show "queue_inv (queue_of_bytes ?r)" using n c by (auto simp: queue_inv_def queue_of_bytes_def list_all_iff)
qed

lemma events_store_view:
  assumes "nvs_lawful (nvs E) view" "nvs_reliable (nvs E)"
  shows "view (events_nvs_store E q n) = (view n)((CY_SEC, NVS_KEY_QUEUE) :=
    (if q_count q = 0 then None else Some (Blob (take (4 + q_count q * PAIRING_EVENT_JSON_MAX) (queue_bytes q)))))"
  using nvs_lawfulD [OF assms(1)] nvs_reliableD [OF assms(2)]
  by (auto simp: events_nvs_store_def Let_def case_prod_beta)

lemma events_reload:
  assumes law: "nvs_lawful (nvs E) view" and inv: "queue_inv q"
    and v: "view n (CY_SEC, NVS_KEY_QUEUE) =
      (if q_count q = 0 then None else Some (Blob (take (4 + q_count q * PAIRING_EVENT_JSON_MAX) (queue_bytes q))))"
  shows "queued (fst (pairing_events_init E n)) = queued q"
proof -
  obtain err n1 where o: "nvs_open (nvs E) CY_SEC NVS_READONLY n = (err, n1)" by fastforce
  have v1: "view n1 = view n" using nvs_open_view [OF law, of CY_SEC NVS_READONLY n] o by simp
  show ?thesis
  proof (cases "q_count q = 0")
    case True
    then have "nvs_get_blob (nvs E) CY_SEC NVS_KEY_QUEUE QUEUE_SIZE n1 = (ESP_ERR_NVS_NOT_FOUND, [])"
      using nvs_get_blob_None [OF law] v1 v by simp
    then show ?thesis using True by (simp add: pairing_events_init_def events_nvs_load_def o queued_def queue_zero_def)
  next
    case False
    let ?b = "take (4 + q_count q * PAIRING_EVENT_JSON_MAX) (queue_bytes q)"
    have lb: "length ?b = 4 + q_count q * PAIRING_EVENT_JSON_MAX"
      using inv by (simp add: length_queue_bytes queue_inv_def)
    have err: "err = ESP_OK" using nvs_open_ro [OF law, of n CY_SEC NVS_KEY_QUEUE] v o False by simp
    have g: "nvs_get_blob (nvs E) CY_SEC NVS_KEY_QUEUE QUEUE_SIZE n1 = (ESP_OK, ?b)"
      using v1 v False inv lb by (intro nvs_get_blob_Some [OF law]) (simp_all add: queue_inv_def)
    have c: "q_count q \<le> 8" using inv by (simp add: queue_inv_def)
    show ?thesis
      unfolding pairing_events_init_def events_nvs_load_def o Let_def prod.case g err
      using queue_reload [OF inv refl] lb c by (simp del: length_take)
  qed
qed

lemma events_load_inv: "queue_inv (fst (pairing_events_init E n))"
proof -
  obtain err n1 where o: "nvs_open (nvs E) CY_SEC NVS_READONLY n = (err, n1)" by fastforce
  obtain err2 b where g: "nvs_get_blob (nvs E) CY_SEC NVS_KEY_QUEUE QUEUE_SIZE n1 = (err2, b)" by fastforce
  define q where "q = (if err2 = ESP_OK then queue_of_bytes (memcpy_into (queue_bytes queue_zero) b) else queue_zero)"
  have "queue_inv q" if h: "\<not> (err2 \<noteq> ESP_OK \<or> q_count q > 8 \<or> length b \<noteq> 4 + q_count q * 256)"
  proof -
    have "length (memcpy_into (queue_bytes queue_zero) b) = 2052" using h by (simp add: length_queue_bytes)
    then show ?thesis using h by (auto simp: q_def queue_inv_def queue_of_bytes_def list_all_iff)
  qed
  then show ?thesis
    unfolding q_def by (auto simp: pairing_events_init_def events_nvs_load_def o g Let_def)
qed

section \<open>Property\<close>

text \<open>
  C22. The pairing events are a persistent queue of the eight newest events: pushing appends the
  event's JSON text, which always fits its slot, and drops the oldest one when eight are queued;
  popping removes the oldest; and with healthy flash a reboot right after either finds exactly
  the same events in the same order.
\<close>

theorem pairing_events_queue:
  assumes law: "nvs_lawful (nvs E) view" "nvs_reliable (nvs E)" and inv: "queue_inv q"
    and r: "(q', n') = pairing_events_push E t ev sub role q n \<and>
        k = (if length (queued q) = PAIRING_EVENTS_MAX then tl (queued q) else queued q) @ [event_json t ev sub role] \<or>
      (q', n') = pairing_events_pop E q n \<and> 0 < q_count q \<and> k = tl (queued q)"
  shows "queued q' = k \<and> queue_inv q' \<and> queued (fst (pairing_events_init E n')) = k \<and>
    length (event_json t ev sub role) < PAIRING_EVENT_JSON_MAX"
proof -
  have s: "queue_inv q' \<and> queued q' = k \<and> n' = events_nvs_store E q' n"
    using r
  proof
    assume a: "(q', n') = pairing_events_push E t ev sub role q n \<and>
        k = (if length (queued q) = PAIRING_EVENTS_MAX then tl (queued q) else queued q) @ [event_json t ev sub role]"
    then have "q' = fst (pairing_events_push E t ev sub role q n)" "n' = snd (pairing_events_push E t ev sub role q n)"
      by (metis fst_conv snd_conv)+
    then show ?thesis using push_spec [OF inv] a by (simp add: pairing_events_push_def Let_def)
  next
    assume a: "(q', n') = pairing_events_pop E q n \<and> 0 < q_count q \<and> k = tl (queued q)"
    then have "q' = fst (pairing_events_pop E q n)" "n' = snd (pairing_events_pop E q n)" by (metis fst_conv snd_conv)+
    then show ?thesis using pop_spec [OF inv] a by (simp add: pairing_events_pop_def Let_def)
  qed
  then have "queued (fst (pairing_events_init E n')) = k"
    using events_reload [OF law(1), of q' n'] events_store_view [OF law, of q' n] by simp
  with s event_json_fits show ?thesis by blast
qed

definition reset_queue :: queue_t where
  "reset_queue = fst (pairing_events_push (bench True) 0 ''reset'' [] [] queue_zero blank)"

theorem pairing_events_queue_witness:
  "queued reset_queue = [event_json 0 ''reset'' [] []] \<and>
    queued (fst (pairing_events_init (bench True) (snd (pairing_events_push (bench True) 0 ''reset'' [] [] queue_zero blank)))) =
      [event_json 0 ''reset'' [] []]"
  using pairing_events_queue [where E = "bench True" and view = "\<lambda>f. f" and q = queue_zero and t = 0 and ev = "''reset''"
      and sub = "[]" and role = "[]" and n = blank and q' = reset_queue
      and n' = "snd (pairing_events_push (bench True) 0 ''reset'' [] [] queue_zero blank)"
      and k = "[event_json 0 ''reset'' [] []]"] flash_nvs_lawful [of True] flash_nvs_reliable
  by (simp add: reset_queue_def)

end
