(* ===== verification/Provisioning.thy ===== *)
theory Provisioning
  imports Bench_Platform
begin

text \<open>
  The on-chip half of certificate provisioning, \<open>aws/provisioning.c\<close>: the identity kept in NVS
  (namespace \<open>prov\<close>) and the line handler of the handshake \<open>REQID\<close>, \<open>PROV\<close>, \<open>CSRREQ\<close>, \<open>DEVID\<close>,
  \<open>CERT\<close> (chunks), \<open>PFIN\<close>. A C string variable is the string it holds. The handler returns whether
  the line was one of its own, the new state and flash, the byte strings it passes to \<open>send()\<close> in
  order, and the delay of a reboot it armed.

  Shown here: the handshake as an app runs it persists exactly the identity it was given, which is
  the one in force after the reboot; and what the handler does when steps are left out.
\<close>

section \<open>State\<close>

abbreviation (input) PROV_DEVICE_ID_MAX :: nat where "PROV_DEVICE_ID_MAX \<equiv> 40"
abbreviation (input) PROV_SOURCE_TERMINAL_ID_MAX :: nat where "PROV_SOURCE_TERMINAL_ID_MAX \<equiv> 40"
abbreviation (input) PROV_ENDPOINT_MAX :: nat where "PROV_ENDPOINT_MAX \<equiv> 128"
abbreviation (input) PROV_CERT_PEM_MAX :: nat where "PROV_CERT_PEM_MAX \<equiv> 2048"
abbreviation (input) PROV_KEY_PEM_MAX :: nat where "PROV_KEY_PEM_MAX \<equiv> 512"
abbreviation (input) CERT_B64_BUF_LEN :: nat where "CERT_B64_BUF_LEN \<equiv> 2732"
abbreviation (input) CSR_DER_BUF_LEN :: nat where "CSR_DER_BUF_LEN \<equiv> 256"
abbreviation (input) PROV_NVS_NAMESPACE :: bytes where "PROV_NVS_NAMESPACE \<equiv> ''prov''"
abbreviation (input) PROV_NVS_KEY_DEVID :: bytes where "PROV_NVS_KEY_DEVID \<equiv> ''devid''"
abbreviation (input) PROV_NVS_KEY_SRCTERMID :: bytes where "PROV_NVS_KEY_SRCTERMID \<equiv> ''srctermid''"
abbreviation (input) PROV_NVS_KEY_EP :: bytes where "PROV_NVS_KEY_EP \<equiv> ''ep''"
abbreviation (input) PROV_NVS_KEY_CERT :: bytes where "PROV_NVS_KEY_CERT \<equiv> ''cert''"
abbreviation (input) PROV_NVS_KEY_OPKEY :: bytes where "PROV_NVS_KEY_OPKEY \<equiv> ''opkey''"

datatype handshake_state = HS_IDLE | HS_GOT_PROV | HS_SENT_CSR | HS_RECEIVING_CERT

record prov_state =
  g_prov_device_id :: bytes
  g_prov_source_terminal_id :: bytes
  g_prov_iot_endpoint :: bytes
  g_prov_cert_pem :: bytes
  g_prov_key_pem :: bytes
  s_active :: bool
  s_state :: handshake_state
  s_pending_source_terminal_id :: bytes
  s_pending_iot_endpoint :: bytes
  s_pending_device_id :: bytes
  s_cert_b64 :: bytes
  s_cert_total_chunks :: int
  s_cert_next_seq :: int

definition prov_zero :: prov_state where
  "prov_zero = \<lparr> g_prov_device_id = [], g_prov_source_terminal_id = [], g_prov_iot_endpoint = [],
     g_prov_cert_pem = [], g_prov_key_pem = [], s_active = False, s_state = HS_IDLE,
     s_pending_source_terminal_id = [], s_pending_iot_endpoint = [], s_pending_device_id = [],
     s_cert_b64 = [], s_cert_total_chunks = 0, s_cert_next_seq = 1 \<rparr>"

section \<open>NVS\<close>

text \<open>\<open>None\<close> when the string could not be read; the destination is then left as it was.\<close>

definition nvs_get_string :: "('n, 'h) env \<Rightarrow> bytes \<Rightarrow> nat \<Rightarrow> 'n \<Rightarrow> bytes option \<times> 'n" where
  "nvs_get_string E key out_size n0 =
    (let (err, n) = nvs_open (nvs E) PROV_NVS_NAMESPACE NVS_READONLY n0 in
     if err \<noteq> ESP_OK then (None, n) else
     let (err, s) = nvs_get_str (nvs E) PROV_NVS_NAMESPACE key out_size n
     in (if err = ESP_OK then Some s else None, n))"

definition nvs_set_string :: "('n, 'h) env \<Rightarrow> bytes \<Rightarrow> bytes \<Rightarrow> 'n \<Rightarrow> esp_err \<times> 'n" where
  "nvs_set_string E key value n0 =
    (let (err, n) = nvs_open (nvs E) PROV_NVS_NAMESPACE NVS_READWRITE n0 in
     if err \<noteq> ESP_OK then (err, n) else
     let (err, n) = nvs_set (nvs E) PROV_NVS_NAMESPACE key (Str value) n
     in if err = ESP_OK then nvs_commit (nvs E) PROV_NVS_NAMESPACE n else (err, n))"

definition trim_trailing_ws :: "bytes \<Rightarrow> bytes" where
  "trim_trailing_ws s = rev (dropWhile (\<lambda>c. c = LF \<or> c = CR \<or> c = CHR '' '') (rev (cstr s)))"

definition provisioning_init :: "('n, 'h) env \<Rightarrow> 'n \<Rightarrow> prov_state \<times> 'n" where
  "provisioning_init E n =
    (let (devid, n) = nvs_get_string E PROV_NVS_KEY_DEVID PROV_DEVICE_ID_MAX n;
         (srctermid, n) = nvs_get_string E PROV_NVS_KEY_SRCTERMID PROV_SOURCE_TERMINAL_ID_MAX n;
         (ep, n) = nvs_get_string E PROV_NVS_KEY_EP PROV_ENDPOINT_MAX n;
         (cert, n) = nvs_get_string E PROV_NVS_KEY_CERT PROV_CERT_PEM_MAX n;
         (key, n) = nvs_get_string E PROV_NVS_KEY_OPKEY PROV_KEY_PEM_MAX n;
         val = (\<lambda>v. case v of Some s \<Rightarrow> s | None \<Rightarrow> [])
     in (prov_zero \<lparr> g_prov_device_id := trim_trailing_ws (val devid),
           g_prov_source_terminal_id := trim_trailing_ws (val srctermid),
           g_prov_iot_endpoint := trim_trailing_ws (val ep), g_prov_cert_pem := val cert, g_prov_key_pem := val key,
           s_active := devid \<noteq> None \<and> srctermid \<noteq> None \<and> ep \<noteq> None \<and> cert \<noteq> None \<and> key \<noteq> None \<rparr>, n))"

definition provisioning_is_active :: "prov_state \<Rightarrow> bool" where
  "provisioning_is_active p = s_active p"

text \<open>Source terminal id, device id and provisioning state, cut to the caller's buffers.\<close>

definition provisioning_get_scan_fields :: "nat \<Rightarrow> nat \<Rightarrow> nat \<Rightarrow> prov_state \<Rightarrow> bytes \<times> bytes \<times> bytes" where
  "provisioning_get_scan_fields src_size dev_size state_size p =
    (if s_active p
     then (snprintf_buf src_size (g_prov_source_terminal_id p), snprintf_buf dev_size (g_prov_device_id p),
           snprintf_buf state_size ''claimed'')
     else ([], [], snprintf_buf state_size ''unprovisioned''))"

section \<open>Key and certificate request\<close>

text \<open>The return code (0 for success), the state with its key buffer, the flash.\<close>

definition load_or_generate_keypair :: "('n, 'h) env \<Rightarrow> nat \<Rightarrow> prov_state \<Rightarrow> 'n \<Rightarrow> int \<times> prov_state \<times> 'n" where
  "load_or_generate_keypair E i p n =
    (let (stored_key, n) = nvs_get_string E PROV_NVS_KEY_OPKEY PROV_KEY_PEM_MAX n;
         p = (case stored_key of Some k \<Rightarrow> p \<lparr> g_prov_key_pem := k \<rparr> | None \<Rightarrow> p) in
     if stored_key \<noteq> None \<and> pk_parse (pki E) (g_prov_key_pem p) = 0 then (0, p, n) else
     let (ret, pem) = pk_gen_pem (pki E) i PROV_KEY_PEM_MAX in
     if ret \<noteq> 0 then (ret, p, n) else
     let p = p \<lparr> g_prov_key_pem := pem \<rparr>; ret = pk_parse (pki E) pem in
     if ret \<noteq> 0 then (ret, p, n) else
     let (err, n) = nvs_set_string E PROV_NVS_KEY_OPKEY pem n
     in (if err \<noteq> ESP_OK then - 1 else 0, p, n))"

definition build_csr_base64 :: "('n, 'h) env \<Rightarrow> nat \<Rightarrow> nat \<Rightarrow> prov_state \<Rightarrow> 'n \<Rightarrow> bytes option \<times> prov_state \<times> 'n" where
  "build_csr_base64 E i out_size p n =
    (let (ret, p, n) = load_or_generate_keypair E i p n in
     if ret \<noteq> 0 then (None, p, n) else
     let (der_len, der) = csr_der (pki E) (i + 1) (g_prov_key_pem p) CSR_DER_BUF_LEN in
     if der_len < 0 then (None, p, n) else (base64_encode (cry E) out_size der, p, n))"

section \<open>Line handling\<close>

definition prov_send_line :: "bytes \<Rightarrow> bytes list" where
  "prov_send_line text = (if length text + 1 < 64 then [text @ [LF]] else [text, [LF]])"

definition prov_reset_handshake :: "prov_state \<Rightarrow> prov_state" where
  "prov_reset_handshake p = p \<lparr> s_state := HS_IDLE, s_pending_source_terminal_id := [], s_pending_iot_endpoint := [],
     s_pending_device_id := [], s_cert_b64 := [], s_cert_total_chunks := 0, s_cert_next_seq := 1 \<rparr>"

record 'n prov_result =
  pr_state :: prov_state
  pr_flash :: 'n
  pr_sent :: "bytes list"
  pr_reboot :: "nat option"

abbreviation (input) ACK :: "bytes list" where "ACK \<equiv> prov_send_line ''ACK''"

fun has_infix :: "bytes \<Rightarrow> bytes \<Rightarrow> bool" where
  "has_infix p [] = (p = [])"
| "has_infix p (c # cs) = (take (length p) (c # cs) = p \<or> has_infix p cs)"

definition claim_credentials_present :: "config \<Rightarrow> bool" where
  "claim_credentials_present c \<longleftrightarrow>
    has_infix ''-----BEGIN'' (claim_cert_pem c) \<and> has_infix ''-----BEGIN'' (claim_key_pem c)"

definition handle_reqid :: "('n, 'h) env \<Rightarrow> nat \<Rightarrow> bytes \<Rightarrow> prov_state \<Rightarrow> 'n \<Rightarrow> 'n prov_result" where
  "handle_reqid E i line p n =
    (let reply = (\<lambda>out. \<lparr> pr_state = p, pr_flash = n, pr_sent = out, pr_reboot = None \<rparr>); request_id = drop 6 line in
     if \<not> claim_credentials_present (cfg E) then reply ACK else
     let (ret, hash) = md_sha256 (pki E) request_id;
         ret = (if ret = 0 then pk_parse (pki E) (claim_key_pem (cfg E)) else ret);
         (ret, sig) = (if ret = 0 then pk_sign (pki E) i (claim_key_pem (cfg E)) hash else (ret, [])) in
     if ret \<noteq> 0 then reply ACK else
     let sig_b64 = (case base64_encode (cry E) 512 sig of
           Some t \<Rightarrow> t | None \<Rightarrow> take (length (b64_encode (cry E) sig) + 1) (cstr (stale E 512))) in
     case base64_encode (cry E) 2800 (claim_cert_pem (cfg E)) of
       None \<Rightarrow> reply ACK
     | Some cert \<Rightarrow> reply (prov_send_line (snprintf_buf 2900 (''CLAIM:'' @ cert @ '','' @ sig_b64))))"

definition handle_prov :: "bytes \<Rightarrow> prov_state \<Rightarrow> 'n \<Rightarrow> 'n prov_result" where
  "handle_prov line p n =
    (let reply = (\<lambda>p. \<lparr> pr_state = p, pr_flash = n, pr_sent = ACK, pr_reboot = None \<rparr>) in
     case split_at COMMA (drop 5 line) of
       (_, None) \<Rightarrow> reply p
     | (chan, Some rest) \<Rightarrow>
         (case split_at COMMA rest of
            (_, None) \<Rightarrow> reply p
          | (_, Some ep) \<Rightarrow>
              reply (p \<lparr> s_pending_source_terminal_id := take (PROV_SOURCE_TERMINAL_ID_MAX - 1) chan,
                s_pending_iot_endpoint := snprintf_buf PROV_ENDPOINT_MAX ep, s_state := HS_GOT_PROV \<rparr>)))"

definition handle_csrreq :: "('n, 'h) env \<Rightarrow> nat \<Rightarrow> prov_state \<Rightarrow> 'n \<Rightarrow> 'n prov_result" where
  "handle_csrreq E i p n =
    (case build_csr_base64 E i 400 p n of
       (None, p, n) \<Rightarrow> \<lparr> pr_state = p, pr_flash = n, pr_sent = ACK, pr_reboot = None \<rparr>
     | (Some b64, p, n) \<Rightarrow> \<lparr> pr_state = p \<lparr> s_state := HS_SENT_CSR \<rparr>, pr_flash = n,
         pr_sent = prov_send_line (snprintf_buf 420 (''CSR:'' @ b64)), pr_reboot = None \<rparr>)"

definition handle_devid :: "bytes \<Rightarrow> prov_state \<Rightarrow> 'n \<Rightarrow> 'n prov_result" where
  "handle_devid line p n =
    \<lparr> pr_state = p \<lparr> s_pending_device_id := snprintf_buf PROV_DEVICE_ID_MAX (drop 6 line), s_state := HS_RECEIVING_CERT,
        s_cert_b64 := [], s_cert_total_chunks := 0, s_cert_next_seq := 1 \<rparr>,
      pr_flash = n, pr_sent = ACK, pr_reboot = None \<rparr>"

text \<open>A parsed certificate chunk: only the next expected one of the announced total is taken.\<close>

definition cert_chunk :: "('n, 'h) env \<Rightarrow> int \<Rightarrow> int \<Rightarrow> bytes \<Rightarrow> prov_state \<Rightarrow> bytes list \<times> prov_state" where
  "cert_chunk E seq tot chunk p =
    (if s_state p \<noteq> HS_RECEIVING_CERT \<or> seq \<noteq> s_cert_next_seq p \<or>
        (s_cert_total_chunks p \<noteq> 0 \<and> tot \<noteq> s_cert_total_chunks p)
     then (ACK, p)
     else
       let p = p \<lparr> s_cert_total_chunks := tot \<rparr> in
       if length (s_cert_b64 p) + length chunk \<ge> CERT_B64_BUF_LEN then (ACK, prov_reset_handshake p)
       else
         let p = p \<lparr> s_cert_b64 := s_cert_b64 p @ chunk, s_cert_next_seq := s_cert_next_seq p + 1 \<rparr> in
         if seq = tot then
           (case base64_decode (cry E) (PROV_CERT_PEM_MAX - 1) (s_cert_b64 p) of
              None \<Rightarrow> (ACK, prov_reset_handshake p)
            | Some pem \<Rightarrow> (prov_send_line ''CERTOK'', p \<lparr> g_prov_cert_pem := cstr pem \<rparr>))
         else (ACK, p))"

definition handle_cert :: "('n, 'h) env \<Rightarrow> bytes \<Rightarrow> prov_state \<Rightarrow> 'n \<Rightarrow> 'n prov_result" where
  "handle_cert E line p n =
    (let rest = drop 5 line; seq = fst (strtol rest);
         (out, p) =
           (case split_at COLON rest of
              (_, None) \<Rightarrow> (ACK, p)
            | (_, Some r1) \<Rightarrow>
                let tot = fst (strtol r1) in
                (case split_at COLON r1 of
                   (_, None) \<Rightarrow> (ACK, p)
                 | (_, Some chunk) \<Rightarrow> cert_chunk E seq tot chunk p))
     in \<lparr> pr_state = p, pr_flash = n, pr_sent = out, pr_reboot = None \<rparr>)"

text \<open>The four writes of \<open>PFIN\<close>, each only if the one before it succeeded.\<close>

fun nvs_set_strings :: "('n, 'h) env \<Rightarrow> (bytes \<times> bytes) list \<Rightarrow> 'n \<Rightarrow> bool \<times> 'n" where
  "nvs_set_strings E [] n = (True, n)"
| "nvs_set_strings E ((k, v) # kvs) n =
    (let (err, n) = nvs_set_string E k v n in if err = ESP_OK then nvs_set_strings E kvs n else (False, n))"

definition handle_pfin :: "('n, 'h) env \<Rightarrow> prov_state \<Rightarrow> 'n \<Rightarrow> 'n prov_result" where
  "handle_pfin E p n =
    (if s_state p \<noteq> HS_RECEIVING_CERT \<or> g_prov_cert_pem p = [] \<or> s_pending_device_id p = [] then
       (if s_active p \<and> s_pending_source_terminal_id p \<noteq> [] then
          let p = p \<lparr> g_prov_source_terminal_id := snprintf_buf PROV_SOURCE_TERMINAL_ID_MAX (s_pending_source_terminal_id p) \<rparr>;
              (_, n) = nvs_set_string E PROV_NVS_KEY_SRCTERMID (g_prov_source_terminal_id p) n
          in \<lparr> pr_state = prov_reset_handshake p, pr_flash = n, pr_sent = ACK, pr_reboot = None \<rparr>
        else \<lparr> pr_state = prov_reset_handshake p, pr_flash = n, pr_sent = ACK, pr_reboot = None \<rparr>)
     else
       let p = p \<lparr> g_prov_device_id := snprintf_buf PROV_DEVICE_ID_MAX (s_pending_device_id p),
             g_prov_source_terminal_id := snprintf_buf PROV_SOURCE_TERMINAL_ID_MAX (s_pending_source_terminal_id p),
             g_prov_iot_endpoint := snprintf_buf PROV_ENDPOINT_MAX (s_pending_iot_endpoint p) \<rparr>;
           (ok, n) = nvs_set_strings E [(PROV_NVS_KEY_DEVID, g_prov_device_id p),
             (PROV_NVS_KEY_SRCTERMID, g_prov_source_terminal_id p), (PROV_NVS_KEY_EP, g_prov_iot_endpoint p),
             (PROV_NVS_KEY_CERT, g_prov_cert_pem p)] n
       in \<lparr> pr_state = prov_reset_handshake p, pr_flash = n, pr_sent = ACK, pr_reboot = (if ok then Some 1000 else None) \<rparr>)"

text \<open>
  \<open>line\<close> is the buffer up to its terminating NUL or beyond; \<open>memcmp\<close> against a keyword cannot match
  past the NUL. \<open>None\<close> when the line belongs to someone else.
\<close>

definition provisioning_handle_tcp_line :: "('n, 'h) env \<Rightarrow> nat \<Rightarrow> bytes \<Rightarrow> prov_state \<Rightarrow> 'n \<Rightarrow> 'n prov_result option" where
  "provisioning_handle_tcp_line E i buf p n =
    (if \<not> memcmp_eq buf ''REQID:'' \<and> \<not> memcmp_eq buf ''PROV:'' \<and> \<not> memcmp_eq buf ''CSRREQ'' \<and>
        \<not> memcmp_eq buf ''DEVID:'' \<and> \<not> memcmp_eq buf ''CERT:'' \<and> \<not> memcmp_eq buf ''PFIN'' then None
     else
       let line = trim_trailing_ws buf in
       if memcmp_eq line ''REQID:'' then Some (handle_reqid E i line p n)
       else if memcmp_eq line ''PROV:'' then Some (handle_prov line p n)
       else if memcmp_eq line ''CSRREQ'' then Some (handle_csrreq E i p n)
       else if memcmp_eq line ''DEVID:'' then Some (handle_devid line p n)
       else if memcmp_eq line ''CERT:'' then Some (handle_cert E line p n)
       else if memcmp_eq line ''PFIN'' then Some (handle_pfin E p n)
       else None)"

section \<open>Reading and writing strings\<close>

lemma set_string_ok:
  assumes "nvs_lawful (nvs E) view" "nvs_reliable (nvs E)"
  shows "fst (nvs_set_string E k v n) = ESP_OK"
    "view (snd (nvs_set_string E k v n)) = (view n)((PROV_NVS_NAMESPACE, k) \<mapsto> Str v)"
  using nvs_lawfulD [OF assms(1)] nvs_reliableD [OF assms(2)]
  by (simp_all add: nvs_set_string_def Let_def case_prod_beta)

lemma get_string_ok:
  assumes "nvs_lawful (nvs E) view" "view n (PROV_NVS_NAMESPACE, k) = Some (Str v)" "length v < cap"
  shows "fst (nvs_get_string E k cap n) = Some v" "view (snd (nvs_get_string E k cap n)) = view n"
proof -
  have "fst (nvs_open (nvs E) PROV_NVS_NAMESPACE NVS_READONLY n) = ESP_OK"
    using nvs_open_ro [OF assms(1), of n PROV_NVS_NAMESPACE k] assms(2) by simp
  moreover have "view (snd (nvs_open (nvs E) PROV_NVS_NAMESPACE NVS_READONLY n)) = view n"
    by (rule nvs_open_view [OF assms(1)])
  ultimately show "fst (nvs_get_string E k cap n) = Some v" "view (snd (nvs_get_string E k cap n)) = view n"
    using nvs_get_str_Some [OF assms(1), of _ PROV_NVS_NAMESPACE k v cap] assms(2,3)
    by (simp_all add: nvs_get_string_def Let_def case_prod_beta)
qed

lemma get_string_view: "nvs_lawful (nvs E) view \<Longrightarrow> view (snd (nvs_get_string E k cap n)) = view n"
  using nvs_open_view [of "nvs E" view PROV_NVS_NAMESPACE NVS_READONLY n]
  by (simp add: nvs_get_string_def Let_def case_prod_beta)

lemma set_strings_ok:
  assumes "nvs_lawful (nvs E) view" "nvs_reliable (nvs E)"
  shows "fst (nvs_set_strings E [(k1, v1), (k2, v2), (k3, v3), (k4, v4)] n)"
    "view (snd (nvs_set_strings E [(k1, v1), (k2, v2), (k3, v3), (k4, v4)] n)) =
      (view n)((PROV_NVS_NAMESPACE, k1) \<mapsto> Str v1, (PROV_NVS_NAMESPACE, k2) \<mapsto> Str v2,
        (PROV_NVS_NAMESPACE, k3) \<mapsto> Str v3, (PROV_NVS_NAMESPACE, k4) \<mapsto> Str v4)"
  using set_string_ok [OF assms] by (simp_all add: Let_def case_prod_beta)

lemma trim_line: "NUL \<notin> set s \<Longrightarrow> s \<noteq> [] \<Longrightarrow> last s \<notin> {LF, CR, CHR '' ''} \<Longrightarrow> trim_trailing_ws (s @ [LF]) = s"
proof -
  assume s: "NUL \<notin> set s" "s \<noteq> []" "last s \<notin> {LF, CR, CHR '' ''}"
  then obtain t c where t: "s = t @ [c]" by (metis append_butlast_last_id)
  have "cstr (s @ [LF]) = s @ [LF]" using s(1) by simp
  then show ?thesis using s(3) by (simp add: trim_trailing_ws_def t)
qed

lemma trim_id: "NUL \<notin> set s \<Longrightarrow> s = [] \<or> last s \<notin> {LF, CR, CHR '' ''} \<Longrightarrow> trim_trailing_ws s = s"
proof (cases s rule: rev_cases)
  case (snoc t c)
  assume "NUL \<notin> set s" "s = [] \<or> last s \<notin> {LF, CR, CHR '' ''}"
  then show ?thesis by (simp add: trim_trailing_ws_def snoc)
qed (simp add: trim_trailing_ws_def cstr_def)

text \<open>A string that can stand as the last field of a line and survives it unchanged.\<close>

definition line_text :: "nat \<Rightarrow> bytes \<Rightarrow> bool" where
  "line_text cap s \<longleftrightarrow> NUL \<notin> set s \<and> s \<noteq> [] \<and> last s \<notin> {LF, CR, CHR '' ''} \<and> length s < cap"

lemma line_textD:
  "line_text cap s \<Longrightarrow> NUL \<notin> set s" "line_text cap s \<Longrightarrow> s \<noteq> []" "line_text cap s \<Longrightarrow> length s < cap"
  "line_text cap s \<Longrightarrow> trim_trailing_ws s = s" "line_text cap s \<Longrightarrow> snprintf_buf cap s = s"
  by (auto simp: line_text_def trim_id snprintf_buf_def)

section \<open>The handshake, line by line\<close>

lemma prov_line:
  assumes "COMMA \<notin> set chan" "NUL \<notin> set chan" "length chan < PROV_SOURCE_TERMINAL_ID_MAX"
    "COMMA \<notin> set typ" "NUL \<notin> set typ" "line_text PROV_ENDPOINT_MAX ep"
  shows "provisioning_handle_tcp_line E i (''PROV:'' @ chan @ '','' @ typ @ '','' @ ep @ [LF]) p n =
    Some \<lparr> pr_state = p \<lparr> s_pending_source_terminal_id := chan, s_pending_iot_endpoint := ep, s_state := HS_GOT_PROV \<rparr>,
      pr_flash = n, pr_sent = ACK, pr_reboot = None \<rparr>"
proof -
  let ?l = "''PROV:'' @ chan @ '','' @ typ @ '','' @ ep"
  have t: "trim_trailing_ws (?l @ [LF]) = ?l"
    using assms(2,5,6) by (intro trim_line) (auto simp: line_text_def)
  have "split_at COMMA (chan @ COMMA # typ @ COMMA # ep) = (chan, Some (typ @ COMMA # ep))"
    by (rule split_at_some [OF assms(1)])
  moreover have "split_at COMMA (typ @ COMMA # ep) = (typ, Some ep)" by (rule split_at_some [OF assms(4)])
  ultimately have "handle_prov ?l p n = \<lparr> pr_state = p \<lparr> s_pending_source_terminal_id := chan,
      s_pending_iot_endpoint := ep, s_state := HS_GOT_PROV \<rparr>, pr_flash = n, pr_sent = ACK, pr_reboot = None \<rparr>"
    using assms(3,6) by (simp add: handle_prov_def line_textD(5))
  then show ?thesis
    using t by (simp add: provisioning_handle_tcp_line_def memcmp_eq_def)
qed

lemma csrreq_line:
  "provisioning_handle_tcp_line E i (''CSRREQ'' @ [LF]) p n = Some (handle_csrreq E i p n)"
  using trim_line [of "''CSRREQ''"] by (simp add: provisioning_handle_tcp_line_def memcmp_eq_def)

lemma devid_line:
  assumes "line_text PROV_DEVICE_ID_MAX dev"
  shows "provisioning_handle_tcp_line E i (''DEVID:'' @ dev @ [LF]) p n =
    Some \<lparr> pr_state = p \<lparr> s_pending_device_id := dev, s_state := HS_RECEIVING_CERT,
        s_cert_b64 := [], s_cert_total_chunks := 0, s_cert_next_seq := 1 \<rparr>, pr_flash = n, pr_sent = ACK, pr_reboot = None \<rparr>"
proof -
  have "trim_trailing_ws ((''DEVID:'' @ dev) @ [LF]) = ''DEVID:'' @ dev"
    using assms by (intro trim_line) (auto simp: line_text_def)
  then show ?thesis
    using assms by (simp add: provisioning_handle_tcp_line_def memcmp_eq_def handle_devid_def line_textD(5))
qed

lemma pfin_line: "provisioning_handle_tcp_line E i (''PFIN'' @ [LF]) p n = Some (handle_pfin E p n)"
  using trim_line [of "''PFIN''"] by (simp add: provisioning_handle_tcp_line_def memcmp_eq_def)

definition cert_line :: "nat \<Rightarrow> nat \<Rightarrow> bytes \<Rightarrow> bytes" where
  "cert_line k m chunk = ''CERT:'' @ dec_int (int k) @ '':'' @ dec_int (int m) @ '':'' @ chunk @ [LF]"

lemma cert_line_step:
  assumes "set chunk \<inter> {NUL, LF, CR, COLON, CHR '' ''} = {}" "int k \<le> LONG_MAX" "int m \<le> LONG_MAX"
  shows "provisioning_handle_tcp_line E i (cert_line k m chunk) p n =
    Some \<lparr> pr_state = snd (cert_chunk E (int k) (int m) chunk p), pr_flash = n,
      pr_sent = fst (cert_chunk E (int k) (int m) chunk p), pr_reboot = None \<rparr>"
proof -
  define l where "l = ''CERT:'' @ dec_int (int k) @ COLON # dec_int (int m) @ COLON # chunk"
  have "last l \<in> set chunk \<union> {COLON}" unfolding l_def by (cases chunk rule: rev_cases) auto
  moreover have "NUL \<notin> set l" "l \<noteq> []" using assms(1) by (auto simp: l_def)
  ultimately have t: "trim_trailing_ws (l @ [LF]) = l" using assms(1) by (intro trim_line) auto
  have e: "cert_line k m chunk = l @ [LF]" by (simp add: cert_line_def l_def)
  have lm: "LONG_MIN \<le> int j" for j by (simp add: LONG_MIN_def)
  have s1: "fst (strtol (dec_int (int k) @ COLON # dec_int (int m) @ COLON # chunk)) = int k"
    by (simp only: strtol_dec_int [OF lm assms(2)] fst_conv)
  have s2: "fst (strtol (dec_int (int m) @ COLON # chunk)) = int m" by (simp only: strtol_dec_int [OF lm assms(3)] fst_conv)
  have s3: "split_at COLON (dec_int (int k) @ COLON # dec_int (int m) @ COLON # chunk) = (dec_int (int k), Some (dec_int (int m) @ COLON # chunk))"
    by (rule split_at_some) simp
  have s4: "split_at COLON (dec_int (int m) @ COLON # chunk) = (dec_int (int m), Some chunk)" by (rule split_at_some) simp
  have d: "drop 5 l = dec_int (int k) @ COLON # dec_int (int m) @ COLON # chunk" by (simp add: l_def)
  have h: "handle_cert E l p n = \<lparr> pr_state = snd (cert_chunk E (int k) (int m) chunk p), pr_flash = n,
      pr_sent = fst (cert_chunk E (int k) (int m) chunk p), pr_reboot = None \<rparr>"
    unfolding handle_cert_def Let_def d s3 prod.case option.case s4 s1 s2 by (simp add: case_prod_beta)
  have m: "memcmp_eq (l @ [LF]) ''CERT:''" "memcmp_eq l ''CERT:''" "\<not> memcmp_eq l ''REQID:''" "\<not> memcmp_eq l ''PROV:''"
    "\<not> memcmp_eq l ''CSRREQ''" "\<not> memcmp_eq l ''DEVID:''"
    by (simp_all add: memcmp_eq_def l_def)
  show ?thesis unfolding e provisioning_handle_tcp_line_def t Let_def using m h by simp
qed

text \<open>The chunk the device waits for is appended; the last one is decoded into the certificate.\<close>

lemma cert_chunk_next:
  assumes "s_state p = HS_RECEIVING_CERT" "s_cert_next_seq p = k" "s_cert_total_chunks p = 0 \<or> s_cert_total_chunks p = m"
    "length (s_cert_b64 p) + length chunk < CERT_B64_BUF_LEN"
  shows "snd (cert_chunk E k m chunk p) =
    (let p' = p \<lparr> s_cert_total_chunks := m, s_cert_b64 := s_cert_b64 p @ chunk, s_cert_next_seq := k + 1 \<rparr> in
     if k \<noteq> m then p'
     else (case base64_decode (cry E) (PROV_CERT_PEM_MAX - 1) (s_cert_b64 p @ chunk) of
         None \<Rightarrow> prov_reset_handshake p' | Some pem \<Rightarrow> p' \<lparr> g_prov_cert_pem := cstr pem \<rparr>))"
  using assms by (auto simp: cert_chunk_def Let_def split: option.split)

section \<open>The whole handshake\<close>

fun prov_run :: "('n, 'h) env \<Rightarrow> nat \<Rightarrow> bytes list \<Rightarrow> prov_state \<times> 'n \<Rightarrow> prov_state \<times> 'n" where
  "prov_run E i [] s = s"
| "prov_run E i (l # ls) s = prov_run E (i + 2) ls
    (case provisioning_handle_tcp_line E i l (fst s) (snd s) of None \<Rightarrow> s | Some r \<Rightarrow> (pr_state r, pr_flash r))"

lemma prov_run_append: "prov_run E i (xs @ ys) s = prov_run E (i + 2 * length xs) ys (prov_run E i xs s)"
  by (induction E i xs s rule: prov_run.induct) (simp_all add: algebra_simps)

fun cert_lines :: "nat \<Rightarrow> nat \<Rightarrow> bytes list \<Rightarrow> bytes list" where
  "cert_lines k m [] = []"
| "cert_lines k m (c # cs) = cert_line k m c # cert_lines (k + 1) m cs"

lemma run_cert_lines:
  assumes "s_state p = HS_RECEIVING_CERT" "s_cert_next_seq p = int k"
    "s_cert_total_chunks p = 0 \<or> s_cert_total_chunks p = int m" "m + 1 = k + length cs" "cs \<noteq> []" "int m \<le> LONG_MAX"
    "\<And>c. c \<in> set cs \<Longrightarrow> set c \<inter> {NUL, LF, CR, COLON, CHR '' ''} = {}"
    "s_cert_b64 p @ concat cs = t" "length t < CERT_B64_BUF_LEN" "base64_decode (cry E) (PROV_CERT_PEM_MAX - 1) t = Some pem"
  shows "\<exists>p'. prov_run E i (cert_lines k m cs) (p, n) = (p', n) \<and> g_prov_cert_pem p' = cstr pem \<and>
    s_state p' = HS_RECEIVING_CERT \<and> g_prov_key_pem p' = g_prov_key_pem p \<and>
    s_pending_source_terminal_id p' = s_pending_source_terminal_id p \<and>
    s_pending_iot_endpoint p' = s_pending_iot_endpoint p \<and> s_pending_device_id p' = s_pending_device_id p"
  using assms
proof (induction cs arbitrary: p k i)
  case (Cons c cs)
  have k: "int k \<le> LONG_MAX" using Cons.prems(4,6) by simp
  have len: "length (s_cert_b64 p) + length c < CERT_B64_BUF_LEN" using Cons.prems(8,9) by auto
  define p1 where "p1 = p \<lparr> s_cert_total_chunks := int m, s_cert_b64 := s_cert_b64 p @ c, s_cert_next_seq := int k + 1 \<rparr>"
  have nx: "snd (cert_chunk E (int k) (int m) c p) =
     (if int k \<noteq> int m then p1 else (case base64_decode (cry E) (PROV_CERT_PEM_MAX - 1) (s_cert_b64 p @ c) of
         None \<Rightarrow> prov_reset_handshake p1 | Some pem \<Rightarrow> p1 \<lparr> g_prov_cert_pem := cstr pem \<rparr>))"
    using cert_chunk_next [OF Cons.prems(1-3) len, where E = E] unfolding Let_def p1_def .
  have cl: "provisioning_handle_tcp_line E i (cert_line k m c) p n =
    Some \<lparr> pr_state = snd (cert_chunk E (int k) (int m) c p), pr_flash = n,
      pr_sent = fst (cert_chunk E (int k) (int m) c p), pr_reboot = None \<rparr>"
    by (rule cert_line_step [OF _ k Cons.prems(6)]) (rule Cons.prems(7), simp)
  show ?case
  proof (cases "cs = []")
    case True
    then have "k = m" "s_cert_b64 p @ c = t" using Cons.prems(4,8) by simp_all
    then have "snd (cert_chunk E (int k) (int m) c p) = p1 \<lparr> g_prov_cert_pem := cstr pem \<rparr>"
      using nx Cons.prems(10) by simp
    then have "prov_run E i (cert_lines k m (c # cs)) (p, n) = (p1 \<lparr> g_prov_cert_pem := cstr pem \<rparr>, n)"
      by (simp only: True cert_lines.simps prov_run.simps fst_conv snd_conv cl option.case prov_result.select_convs)
    then show ?thesis using Cons.prems(1) by (simp add: p1_def)
  next
    case False
    then have km: "k \<noteq> m" using Cons.prems(4) by (cases cs) auto
    have "\<exists>p'. prov_run E (i + 2) (cert_lines (k + 1) m cs) (p1, n) = (p', n) \<and> g_prov_cert_pem p' = cstr pem \<and>
      s_state p' = HS_RECEIVING_CERT \<and> g_prov_key_pem p' = g_prov_key_pem p1 \<and>
      s_pending_source_terminal_id p' = s_pending_source_terminal_id p1 \<and>
      s_pending_iot_endpoint p' = s_pending_iot_endpoint p1 \<and> s_pending_device_id p' = s_pending_device_id p1"
      by (rule Cons.IH) (use Cons.prems False in \<open>auto simp: p1_def\<close>)
    then show ?thesis using km by (simp add: cl nx) (simp add: p1_def)
  qed
qed simp

lemma load_keypair_ok:
  assumes law: "nvs_lawful (nvs E) view" "nvs_reliable (nvs E)" "pki_lawful (pki E)"
    and r: "load_or_generate_keypair E i p n = (0, p', n')"
  shows "view n' (PROV_NVS_NAMESPACE, PROV_NVS_KEY_OPKEY) = Some (Str (g_prov_key_pem p')) \<and>
    length (g_prov_key_pem p') < PROV_KEY_PEM_MAX \<and> p' = p \<lparr> g_prov_key_pem := g_prov_key_pem p' \<rparr>"
proof -
  obtain sk n1 where g: "nvs_get_string E PROV_NVS_KEY_OPKEY PROV_KEY_PEM_MAX n = (sk, n1)" by fastforce
  have v1: "view n1 = view n" using get_string_view [OF law(1), of PROV_NVS_KEY_OPKEY PROV_KEY_PEM_MAX n] g by simp
  have stored: "view n1 (PROV_NVS_NAMESPACE, PROV_NVS_KEY_OPKEY) = Some (Str k) \<and> length k < PROV_KEY_PEM_MAX" if "sk = Some k" for k
  proof -
    have "nvs_get_str (nvs E) PROV_NVS_NAMESPACE PROV_NVS_KEY_OPKEY PROV_KEY_PEM_MAX n1 = (ESP_OK, k)"
      using g that by (auto simp: nvs_get_string_def Let_def case_prod_beta prod_eq_iff split: if_splits)
    then show ?thesis by (rule nvs_get_str_inv [OF law(1)])
  qed
  obtain ret pem where k: "pk_gen_pem (pki E) i PROV_KEY_PEM_MAX = (ret, pem)" by fastforce
  obtain err n2 where w: "nvs_set_string E PROV_NVS_KEY_OPKEY pem n1 = (err, n2)" by fastforce
  have ok: "err = ESP_OK" "view n2 = (view n1)((PROV_NVS_NAMESPACE, PROV_NVS_KEY_OPKEY) \<mapsto> Str pem)"
    using set_string_ok [OF law(1,2), of PROV_NVS_KEY_OPKEY pem n1] w by simp_all
  show ?thesis
  proof (cases "\<exists>k. sk = Some k \<and> pk_parse (pki E) k = 0")
    case True
    then obtain k where "sk = Some k" "pk_parse (pki E) k = 0" by blast
    with r stored show ?thesis by (auto simp: load_or_generate_keypair_def g)
  next
    case False
    have len: "ret = 0 \<Longrightarrow> length pem < PROV_KEY_PEM_MAX" using law(3) k unfolding pki_lawful_def by blast
    have "ret = 0 \<and> p' = p \<lparr> g_prov_key_pem := pem \<rparr> \<and> n' = n2"
      using r False unfolding load_or_generate_keypair_def g Let_def prod.case k w
      by (cases sk) (auto split: if_splits)
    with ok len show ?thesis by simp
  qed
qed

lemma csrreq_ok:
  assumes law: "nvs_lawful (nvs E) view" "nvs_reliable (nvs E)" "pki_lawful (pki E)"
    and r: "build_csr_base64 E i 400 p n = (Some b64, p', n')"
  shows "handle_csrreq E i p n = \<lparr> pr_state = p' \<lparr> s_state := HS_SENT_CSR \<rparr>, pr_flash = n',
      pr_sent = prov_send_line (snprintf_buf 420 (''CSR:'' @ b64)), pr_reboot = None \<rparr>"
    "view n' (PROV_NVS_NAMESPACE, PROV_NVS_KEY_OPKEY) = Some (Str (g_prov_key_pem p'))"
    "length (g_prov_key_pem p') < PROV_KEY_PEM_MAX" "p' = p \<lparr> g_prov_key_pem := g_prov_key_pem p' \<rparr>"
proof -
  obtain ret p1 n1 where l: "load_or_generate_keypair E i p n = (ret, p1, n1)" by (metis prod_cases3)
  have e: "ret = 0" "p' = p1" "n' = n1"
    using r by (auto simp: build_csr_base64_def l Let_def split: if_splits prod.splits)
  from load_keypair_ok [OF law l [unfolded e(1)]] e
  show "view n' (PROV_NVS_NAMESPACE, PROV_NVS_KEY_OPKEY) = Some (Str (g_prov_key_pem p'))"
    "length (g_prov_key_pem p') < PROV_KEY_PEM_MAX" "p' = p \<lparr> g_prov_key_pem := g_prov_key_pem p' \<rparr>" by simp_all
  show "handle_csrreq E i p n = \<lparr> pr_state = p' \<lparr> s_state := HS_SENT_CSR \<rparr>, pr_flash = n',
      pr_sent = prov_send_line (snprintf_buf 420 (''CSR:'' @ b64)), pr_reboot = None \<rparr>"
    by (simp add: handle_csrreq_def r)
qed

lemma pfin_ok:
  assumes law: "nvs_lawful (nvs E) view" "nvs_reliable (nvs E)"
    and p: "s_state p = HS_RECEIVING_CERT" "g_prov_cert_pem p \<noteq> []" "line_text PROV_DEVICE_ID_MAX (s_pending_device_id p)"
      "line_text PROV_SOURCE_TERMINAL_ID_MAX (s_pending_source_terminal_id p)" "line_text PROV_ENDPOINT_MAX (s_pending_iot_endpoint p)"
  shows "view (pr_flash (handle_pfin E p n)) = (view n)(
      (PROV_NVS_NAMESPACE, PROV_NVS_KEY_DEVID) \<mapsto> Str (s_pending_device_id p),
      (PROV_NVS_NAMESPACE, PROV_NVS_KEY_SRCTERMID) \<mapsto> Str (s_pending_source_terminal_id p),
      (PROV_NVS_NAMESPACE, PROV_NVS_KEY_EP) \<mapsto> Str (s_pending_iot_endpoint p),
      (PROV_NVS_NAMESPACE, PROV_NVS_KEY_CERT) \<mapsto> Str (g_prov_cert_pem p)) \<and>
    pr_reboot (handle_pfin E p n) = Some 1000"
  using p set_strings_ok [OF law]
  by (simp add: handle_pfin_def Let_def case_prod_beta line_textD(2,5) del: nvs_set_strings.simps)

lemma provisioning_init_ok:
  assumes law: "nvs_lawful (nvs E) view"
    and v: "view n (PROV_NVS_NAMESPACE, PROV_NVS_KEY_DEVID) = Some (Str dev)"
      "view n (PROV_NVS_NAMESPACE, PROV_NVS_KEY_SRCTERMID) = Some (Str chan)"
      "view n (PROV_NVS_NAMESPACE, PROV_NVS_KEY_EP) = Some (Str ep)"
      "view n (PROV_NVS_NAMESPACE, PROV_NVS_KEY_CERT) = Some (Str cert)"
      "view n (PROV_NVS_NAMESPACE, PROV_NVS_KEY_OPKEY) = Some (Str key)"
    and t: "line_text PROV_DEVICE_ID_MAX dev" "line_text PROV_SOURCE_TERMINAL_ID_MAX chan" "line_text PROV_ENDPOINT_MAX ep"
      "length cert < PROV_CERT_PEM_MAX" "length key < PROV_KEY_PEM_MAX"
  shows "fst (provisioning_init E n) = prov_zero \<lparr> g_prov_device_id := dev, g_prov_source_terminal_id := chan,
    g_prov_iot_endpoint := ep, g_prov_cert_pem := cert, g_prov_key_pem := key, s_active := True \<rparr>"
proof -
  note g = get_string_ok [OF law]
  obtain n1 where 1: "nvs_get_string E PROV_NVS_KEY_DEVID PROV_DEVICE_ID_MAX n = (Some dev, n1)" "view n1 = view n"
    using g [OF v(1) line_textD(3) [OF t(1)]] by (metis prod.collapse)
  obtain n2 where 2: "nvs_get_string E PROV_NVS_KEY_SRCTERMID PROV_SOURCE_TERMINAL_ID_MAX n1 = (Some chan, n2)" "view n2 = view n"
    using g [of n1 PROV_NVS_KEY_SRCTERMID chan] line_textD(3) [OF t(2)] v(2) 1(2) by (metis prod.collapse)
  obtain n3 where 3: "nvs_get_string E PROV_NVS_KEY_EP PROV_ENDPOINT_MAX n2 = (Some ep, n3)" "view n3 = view n"
    using g [of n2 PROV_NVS_KEY_EP ep] line_textD(3) [OF t(3)] v(3) 2(2) by (metis prod.collapse)
  obtain n4 where 4: "nvs_get_string E PROV_NVS_KEY_CERT PROV_CERT_PEM_MAX n3 = (Some cert, n4)" "view n4 = view n"
    using g [of n3 PROV_NVS_KEY_CERT cert] t(4) v(4) 3(2) by (metis prod.collapse)
  obtain n5 where 5: "nvs_get_string E PROV_NVS_KEY_OPKEY PROV_KEY_PEM_MAX n4 = (Some key, n5)"
    using g [of n4 PROV_NVS_KEY_OPKEY key] t(5) v(5) 4(2) by (metis prod.collapse)
  show ?thesis
    by (simp add: provisioning_init_def 1(1) 2(1) 3(1) 4(1) 5 line_textD(4) [OF t(1)] line_textD(4) [OF t(2)] line_textD(4) [OF t(3)])
qed

section \<open>Properties\<close>

lemma load_keypair_pending:
  "load_or_generate_keypair E i (p \<lparr> s_pending_source_terminal_id := a, s_pending_iot_endpoint := b, s_state := c \<rparr>) n =
    (case load_or_generate_keypair E i p n of (ret, p', n') \<Rightarrow>
      (ret, p' \<lparr> s_pending_source_terminal_id := a, s_pending_iot_endpoint := b, s_state := c \<rparr>, n'))"
  by (simp add: load_or_generate_keypair_def Let_def case_prod_beta split: option.split)

lemma build_csr_pending:
  "fst (build_csr_base64 E i k (p \<lparr> s_pending_source_terminal_id := a, s_pending_iot_endpoint := b, s_state := c \<rparr>) n) =
    fst (build_csr_base64 E i k p n)"
  by (simp add: build_csr_base64_def load_keypair_pending Let_def case_prod_beta)

text \<open>What the app sends: the channel, the request, the device id, the certificate in chunks, the end.\<close>

definition handshake_lines :: "bytes \<Rightarrow> bytes \<Rightarrow> bytes \<Rightarrow> bytes \<Rightarrow> bytes list \<Rightarrow> bytes list" where
  "handshake_lines chan typ ep dev chunks =
    [''PROV:'' @ chan @ '','' @ typ @ '','' @ ep @ [LF], ''CSRREQ'' @ [LF], ''DEVID:'' @ dev @ [LF]] @
    cert_lines 1 (length chunks) chunks @ [''PFIN'' @ [LF]]"

lemma prov_run_Cons:
  "provisioning_handle_tcp_line E i l p n = Some r \<Longrightarrow>
    prov_run E i (l # ls) (p, n) = prov_run E (i + 2) ls (pr_state r, pr_flash r)"
  by simp

text \<open>
  C24. Provisioning round trip. The handshake as the app runs it (channel, certificate request,
  device id, the certificate's Base64 text cut into numbered chunks of any size, \<open>PFIN\<close>), from any
  state of the module, on healthy flash and with a request that could be built, leaves in flash
  exactly the identity the app sent and the key the request was made with: the next boot comes up
  provisioned with that device id, channel, endpoint, certificate and key.
\<close>

theorem provisioning_handshake:
  assumes law: "nvs_lawful (nvs E) view" "nvs_reliable (nvs E)" "pki_lawful (pki E)" "base64_lawful (cry E)"
    and f: "line_text PROV_SOURCE_TERMINAL_ID_MAX chan" "COMMA \<notin> set chan" "COMMA \<notin> set typ" "NUL \<notin> set typ"
      "line_text PROV_ENDPOINT_MAX ep" "line_text PROV_DEVICE_ID_MAX dev"
    and c: "cert \<noteq> []" "NUL \<notin> set cert" "length cert < PROV_CERT_PEM_MAX" "concat chunks = b64_encode (cry E) cert"
      "length (b64_encode (cry E) cert) < CERT_B64_BUF_LEN" "int (length chunks) \<le> LONG_MAX"
    and csr: "fst (build_csr_base64 E (i + 2) 400 p n) \<noteq> None"
    and run: "prov_run E i (handshake_lines chan typ ep dev chunks) (p, n) = (p', n')"
  shows "fst (provisioning_init E n') = prov_zero \<lparr> g_prov_device_id := dev, g_prov_source_terminal_id := chan,
    g_prov_iot_endpoint := ep, g_prov_cert_pem := cert, g_prov_key_pem := g_prov_key_pem p', s_active := True \<rparr>"
proof -
  define p1 where "p1 = p \<lparr> s_pending_source_terminal_id := chan, s_pending_iot_endpoint := ep, s_state := HS_GOT_PROV \<rparr>"
  obtain b64 p2 n2 where b: "build_csr_base64 E (i + 2) 400 p1 n = (Some b64, p2, n2)"
    using csr build_csr_pending [where E = E and i = "i + 2" and k = 400 and p = p and n = n] unfolding p1_def
    by (metis not_None_eq prod.collapse)
  note c2 = csrreq_ok [OF law(1-3) b]
  define p3 where "p3 = p2 \<lparr> s_pending_device_id := dev, s_state := HS_RECEIVING_CERT,
    s_cert_b64 := [], s_cert_total_chunks := 0, s_cert_next_seq := 1 \<rparr>"
  have ne: "chunks \<noteq> []"
  proof
    assume "chunks = []"
    then have "b64_encode (cry E) cert = []" using c(4) by simp
    then have "(length cert + 2) div 3 = 0" using length_b64_encode [OF law(4), of cert] by simp
    moreover have "1 \<le> length cert" using c(1) by (cases cert) auto
    ultimately show False by linarith
  qed
  have ch: "set x \<inter> {NUL, LF, CR, COLON, CHR '' ''} = {}" if "x \<in> set chunks" for x
  proof -
    have "set x \<subseteq> set (b64_encode (cry E) cert)" using that unfolding c(4) [symmetric] by auto
    then show ?thesis using b64_no_sep [OF law(4), of cert] by auto
  qed
  have dec: "base64_decode (cry E) (PROV_CERT_PEM_MAX - 1) (b64_encode (cry E) cert) = Some cert"
    using c(3) by (intro base64_decode_encode [OF law(4)]) simp
  obtain p4 where p4: "prov_run E (i + 6) (cert_lines 1 (length chunks) chunks) (p3, n2) = (p4, n2)"
      "g_prov_cert_pem p4 = cert" "s_state p4 = HS_RECEIVING_CERT" "g_prov_key_pem p4 = g_prov_key_pem p2"
      "s_pending_source_terminal_id p4 = chan" "s_pending_iot_endpoint p4 = ep" "s_pending_device_id p4 = dev"
  proof -
    have "s_pending_source_terminal_id p2 = chan" "s_pending_iot_endpoint p2 = ep" by (subst c2(4), simp add: p1_def)+
    then show thesis
      using run_cert_lines [of p3 1 "length chunks" chunks "b64_encode (cry E) cert" E cert "i + 6" n2] ne c ch dec that
      by (auto simp: p3_def)
  qed
  have s1: "prov_run E i ((''PROV:'' @ chan @ '','' @ typ @ '','' @ ep @ [LF]) # ls) (p, n) = prov_run E (i + 2) ls (p1, n)" for ls
    unfolding prov_run_Cons [OF prov_line [OF f(2) line_textD(1) [OF f(1)] line_textD(3) [OF f(1)] f(3-5)]]
    by (simp add: p1_def)
  have s2: "prov_run E (i + 2) ((''CSRREQ'' @ [LF]) # ls) (p1, n) = prov_run E (i + 4) ls (p2 \<lparr> s_state := HS_SENT_CSR \<rparr>, n2)" for ls
    unfolding prov_run_Cons [OF csrreq_line] c2(1) by (simp add: eval_nat_numeral)
  have s3: "prov_run E (i + 4) ((''DEVID:'' @ dev @ [LF]) # ls) (p2 \<lparr> s_state := HS_SENT_CSR \<rparr>, n2) = prov_run E (i + 6) ls (p3, n2)" for ls
    unfolding prov_run_Cons [OF devid_line [OF f(6)]] by (simp add: p3_def eval_nat_numeral)
  have "prov_run E i (handshake_lines chan typ ep dev chunks) (p, n) =
      prov_run E (i + 6) (cert_lines 1 (length chunks) chunks @ [''PFIN'' @ [LF]]) (p3, n2)"
    unfolding handshake_lines_def append.append_Cons [of "''PROV:'' @ _"] append.append_Cons [of "''CSRREQ'' @ _"]
      append.append_Cons [of "''DEVID:'' @ _"] append.append_Nil [of "cert_lines _ _ _ @ _"] s1 s2 s3 ..
  also have "\<dots> = (pr_state (handle_pfin E p4 n2), pr_flash (handle_pfin E p4 n2))"
    using p4(1) pfin_line [of E _ p4 n2] by (simp add: prov_run_append)
  finally have n': "n' = pr_flash (handle_pfin E p4 n2)" "p' = pr_state (handle_pfin E p4 n2)" using run by simp_all
  have v: "view n' = (view n2)((PROV_NVS_NAMESPACE, PROV_NVS_KEY_DEVID) \<mapsto> Str dev,
      (PROV_NVS_NAMESPACE, PROV_NVS_KEY_SRCTERMID) \<mapsto> Str chan,
      (PROV_NVS_NAMESPACE, PROV_NVS_KEY_EP) \<mapsto> Str ep, (PROV_NVS_NAMESPACE, PROV_NVS_KEY_CERT) \<mapsto> Str cert)"
    using pfin_ok [OF law(1,2), of p4 n2] p4 f c(1) n' by simp
  have k: "g_prov_key_pem p' = g_prov_key_pem p2"
    using p4(4) n'(2) by (simp add: handle_pfin_def prov_reset_handshake_def Let_def case_prod_beta)
  show ?thesis
    unfolding k by (rule provisioning_init_ok [OF law(1)]) (use v c2 f c in simp_all)
qed

theorem provisioning_handshake_witness:
  "fst (provisioning_init (bench True) (snd (prov_run (bench True) 0
      (handshake_lines ''room'' ''lamp'' ''host'' ''dev7'' [''UEV'', ''N'']) (prov_zero, blank)))) =
    prov_zero \<lparr> g_prov_device_id := ''dev7'', g_prov_source_terminal_id := ''room'', g_prov_iot_endpoint := ''host'',
      g_prov_cert_pem := ''PEM'', g_prov_key_pem := g_prov_key_pem (fst (prov_run (bench True) 0
        (handshake_lines ''room'' ''lamp'' ''host'' ''dev7'' [''UEV'', ''N'']) (prov_zero, blank))), s_active := True \<rparr>"
proof (rule provisioning_handshake [where view = "\<lambda>f. f" and p = prov_zero and n = blank and i = 0])
  show "nvs_lawful (nvs (bench True)) (\<lambda>f. f)" "nvs_reliable (nvs (bench True))" "pki_lawful (pki (bench True))"
    "base64_lawful (cry (bench True))"
    using flash_nvs_lawful flash_nvs_reliable bench_pki_lawful bench_base64_lawful by simp_all
  show "concat [''UEV'', ''N''] = b64_encode (cry (bench True)) ''PEM''" "length (b64_encode (cry (bench True)) ''PEM'') < CERT_B64_BUF_LEN"
    by (simp_all add: bench_crypto_def b64_chr_def b64_alphabet_def)
  show "fst (build_csr_base64 (bench True) (0 + 2) 400 prov_zero blank) \<noteq> None"
    by (simp add: build_csr_base64_def load_or_generate_keypair_def nvs_get_string_def nvs_set_string_def flash_nvs_def blank_def
        bench_pki_def base64_encode_def bench_crypto_def Let_def)
qed (simp_all add: line_text_def LONG_MAX_def)

text \<open>
  C25. \<open>PFIN\<close> accepts an identity that was never sent. On a provisioned device, \<open>DEVID:\<close> followed
  directly by \<open>PFIN\<close> passes the check for a received certificate, because the certificate of the
  old identity is still in its buffer: the new device id is persisted over the old one with an
  empty channel and an empty endpoint, and the device boots into that identity as provisioned.
\<close>

theorem pfin_without_certificate:
  assumes law: "nvs_lawful (nvs E) view" "nvs_reliable (nvs E)" and dev: "line_text PROV_DEVICE_ID_MAX dev"
    and p: "g_prov_cert_pem p \<noteq> []" "s_pending_source_terminal_id p = []" "s_pending_iot_endpoint p = []"
    and run: "prov_run E i [''DEVID:'' @ dev @ [LF], ''PFIN'' @ [LF]] (p, n) = (p', n')"
  shows "view n' (PROV_NVS_NAMESPACE, PROV_NVS_KEY_DEVID) = Some (Str dev) \<and>
    view n' (PROV_NVS_NAMESPACE, PROV_NVS_KEY_SRCTERMID) = Some (Str []) \<and>
    view n' (PROV_NVS_NAMESPACE, PROV_NVS_KEY_EP) = Some (Str []) \<and>
    view n' (PROV_NVS_NAMESPACE, PROV_NVS_KEY_CERT) = Some (Str (g_prov_cert_pem p))"
proof -
  define p1 where "p1 = p \<lparr> s_pending_device_id := dev, s_state := HS_RECEIVING_CERT, s_cert_b64 := [],
    s_cert_total_chunks := 0, s_cert_next_seq := 1 \<rparr>"
  have "n' = pr_flash (handle_pfin E p1 n)"
    using run unfolding prov_run_Cons [OF devid_line [OF dev]] prov_run_Cons [OF pfin_line] by (simp add: p1_def)
  moreover have "snprintf_buf k [] = []" for k by (simp add: snprintf_buf_def)
  ultimately show ?thesis
    using p dev set_strings_ok [OF law]
    by (simp add: handle_pfin_def p1_def Let_def case_prod_beta line_textD(2,5) del: nvs_set_strings.simps)
qed

theorem pfin_without_certificate_witness:
  "snd (prov_run (bench True) 0 [''DEVID:x1'' @ [LF], ''PFIN'' @ [LF]] (prov_zero \<lparr> g_prov_cert_pem := ''PEM'' \<rparr>, blank))
     (PROV_NVS_NAMESPACE, PROV_NVS_KEY_EP) = Some (Str [])"
  using pfin_without_certificate [where E = "bench True" and view = "\<lambda>f. f" and dev = "''x1''" and i = 0 and n = blank
      and p = "prov_zero \<lparr> g_prov_cert_pem := ''PEM'' \<rparr>"] flash_nvs_lawful [of True] flash_nvs_reliable
  by (cases "prov_run (bench True) 0 [''DEVID:x1'' @ [LF], ''PFIN'' @ [LF]] (prov_zero \<lparr> g_prov_cert_pem := ''PEM'' \<rparr>, blank)")
    (simp add: line_text_def prov_zero_def)

end
