(* ===== verification/Discovery.thy ===== *)
theory Discovery
  imports Provisioning
begin

text \<open>
  How the device is found: the stored discovery mode (\<open>ble/discovery_mode.c\<close>), the BLE scan beacon
  (\<open>ble/ble_beacon.c\<close>), the unit name (\<open>wifi/wifi_info_handler.c\<close>), the 128-bit UUIDs
  (\<open>ble/ble_host.c\<close>) and the mDNS service record (\<open>mdns/mdns_discovery.c\<close>).

  The calls into NimBLE's advertiser are recorded in order, with their return codes taken from the
  environment; the record tells what is on the air. Shown here: in every reachable state of the
  beacon in which no stop was refused, what is broadcast is the current address, only while the station
  has one and the host is synchronised, and the mode includes BLE unless a stored mode waits to be applied.
\<close>

section \<open>Discovery mode\<close>

abbreviation (input) DISCOVERY_WIFI :: nat where "DISCOVERY_WIFI \<equiv> 1"
abbreviation (input) DISCOVERY_BLE :: nat where "DISCOVERY_BLE \<equiv> 2"
abbreviation (input) DISCOVERY_BOTH :: nat where "DISCOVERY_BOTH \<equiv> 3"
abbreviation (input) CY_BLE :: bytes where "CY_BLE \<equiv> ''cy_ble''"
abbreviation (input) NVS_KEY_MODE :: bytes where "NVS_KEY_MODE \<equiv> ''disc_mode''"

definition discovery_mode_init :: "('n, 'h) env \<Rightarrow> 'n \<Rightarrow> nat \<times> 'n" where
  "discovery_mode_init E n0 =
    (let (err, n) = nvs_open (nvs E) CY_BLE NVS_READONLY n0 in
     if err \<noteq> ESP_OK then (DISCOVERY_BOTH, n) else
     let (err, mode) = nvs_get_u8 (nvs E) CY_BLE NVS_KEY_MODE n
     in (if err = ESP_OK \<and> mode \<ge> DISCOVERY_WIFI \<and> mode \<le> DISCOVERY_BOTH then mode else DISCOVERY_BOTH, n))"

definition discovery_mode_get :: "nat \<Rightarrow> nat" where
  "discovery_mode_get mode = mode"

definition discovery_mode_set :: "('n, 'h) env \<Rightarrow> nat \<Rightarrow> nat \<Rightarrow> 'n \<Rightarrow> esp_err \<times> nat \<times> 'n" where
  "discovery_mode_set E new mode n0 =
    (if new < DISCOVERY_WIFI \<or> new > DISCOVERY_BOTH then (ESP_ERR_INVALID_ARG, mode, n0) else
     let (err, n) = nvs_open (nvs E) CY_BLE NVS_READWRITE n0 in
     if err \<noteq> ESP_OK then (err, mode, n) else
     let (err, n) = nvs_set (nvs E) CY_BLE NVS_KEY_MODE (U8 new) n in
     if err = ESP_OK then
       let (err, n) = nvs_commit (nvs E) CY_BLE n in (err, if err = ESP_OK then new else mode, n)
     else (err, mode, n))"

definition discovery_mode_should_advertise_ble :: "nat \<Rightarrow> bool" where
  "discovery_mode_should_advertise_ble mode \<longleftrightarrow>
    discovery_mode_get mode = DISCOVERY_BLE \<or> discovery_mode_get mode = DISCOVERY_BOTH"

lemma discovery_mode_range:
  "fst (discovery_mode_init E n) \<in> {DISCOVERY_WIFI..DISCOVERY_BOTH}"
  "mode \<in> {DISCOVERY_WIFI..DISCOVERY_BOTH} \<Longrightarrow>
    fst (snd (discovery_mode_set E new mode n)) \<in> {DISCOVERY_WIFI..DISCOVERY_BOTH}"
  by (auto simp: discovery_mode_init_def discovery_mode_set_def Let_def case_prod_beta)

lemma discovery_mode_persistent:
  assumes "nvs_lawful (nvs E) view" "discovery_mode_set E new mode n = (ESP_OK, mode', n')"
  shows "mode' = new \<and> fst (discovery_mode_init E n') = new"
proof -
  obtain n1 where o: "nvs_open (nvs E) CY_BLE NVS_READWRITE n = (ESP_OK, n1)"
    using assms(2) by (auto simp: discovery_mode_set_def Let_def split: prod.splits if_splits)
  obtain n2 where s: "nvs_set (nvs E) CY_BLE NVS_KEY_MODE (U8 new) n1 = (ESP_OK, n2)"
    using assms(2) o by (auto simp: discovery_mode_set_def Let_def split: prod.splits if_splits)
  have r: "new \<in> {1..3}" "nvs_commit (nvs E) CY_BLE n2 = (ESP_OK, n')" "mode' = new"
    using assms(2) o s by (auto simp: discovery_mode_set_def Let_def split: prod.splits if_splits)
  have v: "view n' (CY_BLE, NVS_KEY_MODE) = Some (U8 new)"
    using nvs_set_view [OF assms(1), of CY_BLE NVS_KEY_MODE "U8 new" n1] nvs_commit_view [OF assms(1), of CY_BLE n2] s r(2) by simp
  obtain n3 where n3: "nvs_open (nvs E) CY_BLE NVS_READONLY n' = (ESP_OK, n3)"
    using nvs_open_ro [OF assms(1), of n' CY_BLE NVS_KEY_MODE] v by (metis option.distinct(1) prod.collapse)
  have "nvs_get_u8 (nvs E) CY_BLE NVS_KEY_MODE n3 = (ESP_OK, new)"
    using nvs_get_u8_Some [OF assms(1)] nvs_open_view [OF assms(1), of CY_BLE NVS_READONLY n'] n3 v by simp
  then show ?thesis using n3 r by (simp add: discovery_mode_init_def)
qed

section \<open>The unit's name and UUIDs\<close>

definition hex_digit :: "nat \<Rightarrow> byte" where
  "hex_digit d = char_of (if d < 10 then 48 + d else 55 + d)"

text \<open>\<open>%02X\<close>.\<close>

definition hex_byte :: "byte \<Rightarrow> bytes" where
  "hex_byte c = [hex_digit (of_char c div 16), hex_digit (of_char c mod 16)]"

definition wifi_get_unit_suffix :: "config \<Rightarrow> nat \<Rightarrow> bytes" where
  "wifi_get_unit_suffix c out_size = snprintf_buf out_size
    (hex_byte (base_mac c ! 3) @ hex_byte (base_mac c ! 4) @ hex_byte (base_mac c ! 5))"

definition wifi_get_ap_ssid :: "config \<Rightarrow> nat \<Rightarrow> bytes" where
  "wifi_get_ap_ssid c out_size = snprintf_buf out_size (cy_ap_ssid_prefix c @ wifi_get_unit_suffix c 7)"

text \<open>The channel's UUID with the service id in bytes 12 and 13, low byte first.\<close>

definition ble_uuid128_from_base :: "config \<Rightarrow> 16 word \<Rightarrow> bytes" where
  "ble_uuid128_from_base c svc = (cy_ble_base_uuid128 c)[12 := byte_of svc, 13 := byte_of (drop_bit 8 svc)]"

section \<open>The beacon\<close>

abbreviation (input) BEACON_NAME_MAX :: nat where "BEACON_NAME_MAX \<equiv> 29"
abbreviation (input) BLE_HS_EALREADY :: int where "BLE_HS_EALREADY \<equiv> 2"
abbreviation (input) BLE_PAIRING_NAME_PREFIX :: bytes where "BLE_PAIRING_NAME_PREFIX \<equiv> ''Cy_''"

text \<open>
  What the advertiser is told, and what happens to it: the calls \<open>ble_gap_adv_stop\<close>,
  \<open>ble_gap_adv_set_fields\<close> (with the manufacturer data), \<open>ble_gap_adv_rsp_set_fields\<close> and
  \<open>ble_gap_adv_start\<close> with their return codes; the controller ending a set by itself; a host reset.
\<close>

datatype adv_op = AdvStop int | AdvFields bytes int | AdvRsp bytes bool int | AdvStart int | AdvEnded | HostReset

record beacon =
  b_lock :: bool
  host_ready :: bool
  have_ip :: bool
  advertising :: bool
  mfg_data :: bytes
  adv_name :: bytes
  adv_name_complete :: bool
  adv_log :: "adv_op list"

definition beacon_zero :: beacon where
  "beacon_zero = \<lparr> b_lock = False, host_ready = False, have_ip = False, advertising = False,
     mfg_data = [CHR 0xFF, CHR 0xFF, CHR 0x01, NUL, NUL, NUL, NUL], adv_name = [], adv_name_complete = True, adv_log = [] \<rparr>"

definition build_name :: "config \<Rightarrow> prov_state \<Rightarrow> beacon \<Rightarrow> beacon" where
  "build_name c p b =
    (let (_, device_id, _) = provisioning_get_scan_fields PROV_SOURCE_TERMINAL_ID_MAX PROV_DEVICE_ID_MAX 16 p in
     if device_id \<noteq> []
     then b \<lparr> adv_name_complete := length device_id \<le> BEACON_NAME_MAX,
              adv_name := snprintf_buf (BEACON_NAME_MAX + 1) (take BEACON_NAME_MAX device_id) \<rparr>
     else b \<lparr> adv_name := snprintf_buf (BEACON_NAME_MAX + 1) (BLE_PAIRING_NAME_PREFIX @ wifi_get_unit_suffix c 7),
              adv_name_complete := True \<rparr>)"

text \<open>The return code of the next call into the advertiser.\<close>

definition next_rc :: "('n, 'h) env \<Rightarrow> beacon \<Rightarrow> int" where
  "next_rc E b = adv_call E (length (adv_log b))"

definition stop_advertising_locked :: "('n, 'h) env \<Rightarrow> beacon \<Rightarrow> beacon" where
  "stop_advertising_locked E b =
    (if \<not> advertising b then b
     else b \<lparr> adv_log := adv_log b @ [AdvStop (next_rc E b)], advertising := False \<rparr>)"

definition start_advertising_locked :: "('n, 'h) env \<Rightarrow> nat \<Rightarrow> beacon \<Rightarrow> beacon" where
  "start_advertising_locked E mode b =
    (if \<not> host_ready b \<or> \<not> have_ip b then b
     else if \<not> discovery_mode_should_advertise_ble mode then stop_advertising_locked E b
     else
       let b = stop_advertising_locked E b;
           rc = next_rc E b;
           b = b \<lparr> adv_log := adv_log b @ [AdvFields (mfg_data b) rc] \<rparr> in
       if rc \<noteq> 0 then b else
       let rc = next_rc E b;
           b = b \<lparr> adv_log := adv_log b @ [AdvRsp (adv_name b) (adv_name_complete b) rc] \<rparr> in
       if rc \<noteq> 0 then b else
       let rc = next_rc E b;
           b = b \<lparr> adv_log := adv_log b @ [AdvStart rc] \<rparr> in
       if rc \<noteq> 0 then b else b \<lparr> advertising := True \<rparr>)"

text \<open>\<open>gap_event\<close> for \<open>BLE_GAP_EVENT_ADV_COMPLETE\<close>; other events are ignored.\<close>

definition beacon_adv_complete :: "('n, 'h) env \<Rightarrow> nat \<Rightarrow> beacon \<Rightarrow> beacon" where
  "beacon_adv_complete E mode b =
    start_advertising_locked E mode (b \<lparr> adv_log := adv_log b @ [AdvEnded], advertising := False \<rparr>)"

definition beacon_on_reset :: "beacon \<Rightarrow> beacon" where
  "beacon_on_reset b = b \<lparr> adv_log := adv_log b @ [HostReset], host_ready := False, advertising := False \<rparr>"

text \<open>\<open>on_sync\<close>; \<open>rc\<close> is what \<open>ble_host_resolve_addr\<close> returns.\<close>

definition beacon_on_sync :: "('n, 'h) env \<Rightarrow> nat \<Rightarrow> int \<Rightarrow> beacon \<Rightarrow> beacon" where
  "beacon_on_sync E mode rc b =
    (if rc \<noteq> 0 then b else start_advertising_locked E mode (b \<lparr> host_ready := True \<rparr>))"

text \<open>\<open>rc\<close> is what \<open>ble_host_init\<close> returns.\<close>

definition ble_beacon_start :: "('n, 'h) env \<Rightarrow> int \<Rightarrow> prov_state \<Rightarrow> beacon \<Rightarrow> beacon" where
  "ble_beacon_start E rc p b =
    (let b = b \<lparr> b_lock := True \<rparr> in if rc \<noteq> 0 then b else build_name (cfg E) p b)"

definition ble_beacon_on_ip :: "('n, 'h) env \<Rightarrow> nat \<Rightarrow> bytes \<Rightarrow> beacon \<Rightarrow> beacon" where
  "ble_beacon_on_ip E mode ip b =
    (if \<not> b_lock b then b
     else start_advertising_locked E mode (b \<lparr> mfg_data := take 3 (mfg_data b) @ take 4 ip, have_ip := True \<rparr>))"

definition ble_beacon_on_ip_lost :: "('n, 'h) env \<Rightarrow> beacon \<Rightarrow> beacon" where
  "ble_beacon_on_ip_lost E b =
    (if \<not> b_lock b then b else stop_advertising_locked E (b \<lparr> have_ip := False \<rparr>))"

definition ble_beacon_apply_discovery_mode :: "('n, 'h) env \<Rightarrow> nat \<Rightarrow> beacon \<Rightarrow> beacon" where
  "ble_beacon_apply_discovery_mode E mode b =
    (if \<not> b_lock b then b else start_advertising_locked E mode b)"

section \<open>The mDNS service record\<close>

abbreviation (input) MDNS_TAG_MAX :: nat where "MDNS_TAG_MAX \<equiv> 16"

text \<open>
  \<open>m_txt\<close>, \<open>m_hostname\<close> and \<open>m_instance\<close> are what the responder has accepted; \<open>m_calls\<close> counts the calls
  into it.
\<close>

record mdns_state =
  m_lock :: bool
  m_started :: bool
  m_tag :: bytes
  m_hostname :: bytes
  m_instance :: bytes
  m_txt :: "(bytes \<times> bytes) list"
  m_calls :: nat

definition mdns_zero :: mdns_state where
  "mdns_zero = \<lparr> m_lock = False, m_started = False, m_tag = [], m_hostname = [], m_instance = [], m_txt = [], m_calls = 0 \<rparr>"

definition load_channel_tag :: "config \<Rightarrow> bytes" where
  "load_channel_tag c = snprintf_buf (MDNS_TAG_MAX + 1) (cy_mdns_channel_tag c)"

definition flag :: "bool \<Rightarrow> bytes" where
  "flag b = (if b then ''1'' else ''0'')"

text \<open>The seven TXT items; \<open>paired\<close> and \<open>pw\<close> say whether the list has an entry and a password is set.\<close>

definition build_txt :: "config \<Rightarrow> bytes \<Rightarrow> prov_state \<Rightarrow> bool \<Rightarrow> bool \<Rightarrow> (bytes \<times> bytes) list" where
  "build_txt c tag p paired pw =
    (let (_, device_id, _) = provisioning_get_scan_fields PROV_SOURCE_TERMINAL_ID_MAX PROV_DEVICE_ID_MAX 16 p
     in [(''id'', device_id), (''ch'', tag), (''v'', cy_firmware_version c), (''type'', cy_device_type c),
         (''paired'', flag paired), (''pw'', flag pw), (''prov'', flag (provisioning_is_active p))])"

definition mdns_discovery_init :: "mdns_state \<Rightarrow> mdns_state" where
  "mdns_discovery_init m = m \<lparr> m_lock := True \<rparr>"

definition to_lower :: "byte \<Rightarrow> byte" where
  "to_lower c = (if 65 \<le> (of_char c :: nat) \<and> (of_char c :: nat) \<le> 90 then char_of (of_char c + 32 :: nat) else c)"

definition mdns_hostname :: "config \<Rightarrow> bytes" where
  "mdns_hostname c = map to_lower (snprintf_buf 16 (''cything-'' @ wifi_get_unit_suffix c 7))"

definition mdns_instance :: "config \<Rightarrow> bytes \<Rightarrow> bytes" where
  "mdns_instance c tag = snprintf_buf 34 (''Cything '' @ wifi_get_unit_suffix c 7 @ (if tag \<noteq> [] then '' #'' @ tag else []))"

definition mdns_discovery_start :: "('n, 'h) env \<Rightarrow> prov_state \<Rightarrow> bool \<Rightarrow> bool \<Rightarrow> mdns_state \<Rightarrow> mdns_state" where
  "mdns_discovery_start E p paired pw m =
    (if m_started m then m else
     let m = m \<lparr> m_tag := load_channel_tag (cfg E) \<rparr>;
         host = mdns_hostname (cfg E); inst = mdns_instance (cfg E) (m_tag m); k = m_calls m in
     if mdns_call E k \<noteq> ESP_OK then m \<lparr> m_calls := k + 1 \<rparr> else
     let txt = build_txt (cfg E) (m_tag m) p paired pw in
     if mdns_call E (k + 1) \<noteq> ESP_OK then m \<lparr> m_calls := k + 3 \<rparr>
     else if mdns_call E (k + 2) \<noteq> ESP_OK then m \<lparr> m_calls := k + 4 \<rparr>
     else if mdns_call E (k + 3) \<noteq> ESP_OK then m \<lparr> m_calls := k + 5 \<rparr>
     else m \<lparr> m_started := True, m_hostname := host, m_instance := inst, m_txt := txt, m_calls := k + 4 \<rparr>)"

definition mdns_discovery_refresh :: "('n, 'h) env \<Rightarrow> prov_state \<Rightarrow> bool \<Rightarrow> bool \<Rightarrow> mdns_state \<Rightarrow> mdns_state" where
  "mdns_discovery_refresh E p paired pw m =
    (if \<not> m_lock m \<or> \<not> m_started m then m else
     let txt = build_txt (cfg E) (m_tag m) p paired pw; ok = (mdns_call E (m_calls m) = ESP_OK)
     in m \<lparr> m_calls := m_calls m + 1, m_txt := (if ok then txt else m_txt m) \<rparr>)"

section \<open>What is on the air\<close>

text \<open>The fields last accepted, and whether a set is running, after a history of calls.\<close>

primrec air_step :: "adv_op \<Rightarrow> bytes \<times> bool \<Rightarrow> bytes \<times> bool" where
  "air_step (AdvStop rc) s = (fst s, snd s \<and> rc \<noteq> 0 \<and> rc \<noteq> BLE_HS_EALREADY)"
| "air_step (AdvFields m rc) s = (if rc = 0 then m else fst s, snd s)"
| "air_step (AdvRsp nm cmpl rc) s = s"
| "air_step (AdvStart rc) s = (fst s, snd s \<or> rc = 0)"
| "air_step AdvEnded s = (fst s, False)"
| "air_step HostReset s = (fst s, False)"

definition on_air :: "adv_op list \<Rightarrow> bytes option" where
  "on_air ops = (let (m, r) = fold air_step ops ([], False) in if r then Some m else None)"

text \<open>
  The events that drive the beacon, each with its mutex held. The state carries the mode, the number
  of receive tasks that have stored a mode and not yet applied it, and the address the station holds, as the
  IP events report it. The owner's command takes two mutexes one after the other:
  \<open>store_mode\<close> is a successful \<open>discovery_mode_set\<close>, \<open>apply_mode\<close> the
  \<open>ble_beacon_apply_discovery_mode\<close> that follows it in the same task; other events and the commands of
  other sessions can come in between.
\<close>

type_synonym air = "nat \<times> nat \<times> bytes option \<times> beacon"

inductive beacon_step :: "('n, 'h) env \<Rightarrow> air \<Rightarrow> air \<Rightarrow> bool" for E where
  sync: "beacon_step E (mode, p, cur, b) (mode, p, cur, beacon_on_sync E mode rc b)"
| reset: "beacon_step E (mode, p, cur, b) (mode, p, cur, beacon_on_reset b)"
| complete: "beacon_step E (mode, p, cur, b) (mode, p, cur, beacon_adv_complete E mode b)"
| got_ip: "length ip = 4 \<Longrightarrow> beacon_step E (mode, p, cur, b) (mode, p, Some ip, ble_beacon_on_ip E mode ip b)"
| lost_ip: "beacon_step E (mode, p, cur, b) (mode, p, None, ble_beacon_on_ip_lost E b)"
| store_mode: "discovery_mode_set E new mode n = (ESP_OK, mode', n') \<Longrightarrow> beacon_step E (mode, p, cur, b) (mode', Suc p, cur, b)"
| apply_mode: "beacon_step E (mode, Suc p, cur, b) (mode, p, cur, ble_beacon_apply_discovery_mode E mode b)"

inductive beacon_reach :: "('n, 'h) env \<Rightarrow> air \<Rightarrow> bool" for E where
  boot: "beacon_reach E (mode, 0, None, ble_beacon_start E 0 prov beacon_zero)"
| step: "beacon_reach E s \<Longrightarrow> beacon_step E s t \<Longrightarrow> beacon_reach E t"

abbreviation (input) mfg_header :: bytes where "mfg_header \<equiv> [CHR 0xFF, CHR 0xFF, CHR 0x01]"

text \<open>No attempt to stop the advertiser failed.\<close>

definition stops_ok :: "adv_op list \<Rightarrow> bool" where
  "stops_ok ops \<longleftrightarrow> list_all (\<lambda>x. case x of AdvStop rc \<Rightarrow> rc = 0 \<or> rc = BLE_HS_EALREADY | _ \<Rightarrow> True) ops"

definition beacon_inv :: "nat \<times> beacon \<Rightarrow> bool" where
  "beacon_inv s \<longleftrightarrow> (let (mode, b) = s in b_lock b \<and>
     (stops_ok (adv_log b) \<longrightarrow> on_air (adv_log b) = (if advertising b then Some (mfg_data b) else None)) \<and>
     (advertising b \<longrightarrow> host_ready b \<and> have_ip b \<and> discovery_mode_should_advertise_ble mode))"

lemma beacon_invI:
  "b_lock b \<Longrightarrow> (stops_ok (adv_log b) \<Longrightarrow> on_air (adv_log b) = (if advertising b then Some (mfg_data b) else None)) \<Longrightarrow>
   (advertising b \<Longrightarrow> host_ready b \<and> have_ip b \<and> discovery_mode_should_advertise_ble mode) \<Longrightarrow> beacon_inv (mode, b)"
  by (simp add: beacon_inv_def)

lemma beacon_invD:
  assumes "beacon_inv (mode, b)"
  shows "b_lock b" "stops_ok (adv_log b) \<Longrightarrow> on_air (adv_log b) = (if advertising b then Some (mfg_data b) else None)"
    "advertising b \<Longrightarrow> host_ready b \<and> have_ip b \<and> discovery_mode_should_advertise_ble mode"
  using assms by (simp_all add: beacon_inv_def)

lemma stops_ok_append [simp]: "stops_ok (xs @ ys) \<longleftrightarrow> stops_ok xs \<and> stops_ok ys"
  by (simp add: stops_ok_def)

lemma stops_ok_simps [simp]:
  "stops_ok []" "stops_ok (AdvStop rc # xs) \<longleftrightarrow> (rc = 0 \<or> rc = BLE_HS_EALREADY) \<and> stops_ok xs"
  "stops_ok (AdvFields m rc # xs) = stops_ok xs" "stops_ok (AdvRsp nm cmpl rc # xs) = stops_ok xs"
  "stops_ok (AdvStart rc # xs) = stops_ok xs" "stops_ok (AdvEnded # xs) = stops_ok xs" "stops_ok (HostReset # xs) = stops_ok xs"
  by (simp_all add: stops_ok_def)

lemma on_air_snoc: "on_air (ops @ [x]) =
    (let (m, r) = air_step x (fold air_step ops ([], False)) in if r then Some m else None)"
  by (simp add: on_air_def)

lemma stop_air:
  assumes "stops_ok (adv_log (stop_advertising_locked E b))" "stops_ok (adv_log b) \<Longrightarrow> advertising b \<or> on_air (adv_log b) = None"
  shows "on_air (adv_log (stop_advertising_locked E b)) = None"
  using assms by (auto simp: stop_advertising_locked_def on_air_snoc case_prod_beta Let_def split: if_splits)

lemma stop_simps [simp]:
  "advertising (stop_advertising_locked E b) = False" "host_ready (stop_advertising_locked E b) = host_ready b"
  "have_ip (stop_advertising_locked E b) = have_ip b" "mfg_data (stop_advertising_locked E b) = mfg_data b"
  "b_lock (stop_advertising_locked E b) = b_lock b"
  by (simp_all add: stop_advertising_locked_def)

lemma on_air_quiet:
  "on_air ops = None \<Longrightarrow> on_air (ops @ [AdvFields m rc]) = None"
  "on_air ops = None \<Longrightarrow> on_air (ops @ [AdvRsp nm cmpl rc]) = None"
  "on_air ops = None \<Longrightarrow> rc \<noteq> 0 \<Longrightarrow> on_air (ops @ [AdvStart rc]) = None"
  "on_air (ops @ [AdvEnded]) = None" "on_air (ops @ [HostReset]) = None"
  by (auto simp: on_air_def case_prod_beta Let_def split: if_splits)

lemma on_air_started:
  "on_air (ops @ [AdvFields m 0, AdvRsp nm cmpl 0, AdvStart 0]) = Some m"
  by (simp add: on_air_def)

lemma start_inv:
  assumes "b_lock b" "stops_ok (adv_log b) \<Longrightarrow> advertising b \<or> on_air (adv_log b) = None"
    "\<not> host_ready b \<or> \<not> have_ip b \<Longrightarrow> \<not> advertising b"
  shows "beacon_inv (mode, start_advertising_locked E mode b)"
proof -
  define b1 where "b1 = stop_advertising_locked E b"
  have q: "on_air (adv_log b1) = None" if "stops_ok (adv_log b1)"
    using that assms(2) unfolding b1_def by (intro stop_air) simp_all
  show ?thesis
  proof (cases "\<not> host_ready b \<or> \<not> have_ip b")
    case True
    then show ?thesis using assms by (auto simp: start_advertising_locked_def intro!: beacon_invI)
  next
    case ready: False
    show ?thesis
    proof (cases "discovery_mode_should_advertise_ble mode")
      case False
      then show ?thesis
        using q assms(1) ready by (auto simp: start_advertising_locked_def b1_def intro!: beacon_invI)
    next
      case True
      define r1 where "r1 = adv_call E (length (adv_log b1))"
      define r2 where "r2 = adv_call E (length (adv_log b1) + 1)"
      define r3 where "r3 = adv_call E (length (adv_log b1) + 2)"
      have s: "start_advertising_locked E mode b =
         (if r1 \<noteq> 0 then b1 \<lparr> adv_log := adv_log b1 @ [AdvFields (mfg_data b1) r1] \<rparr>
          else if r2 \<noteq> 0 then b1 \<lparr> adv_log := adv_log b1 @ [AdvFields (mfg_data b1) r1, AdvRsp (adv_name b1) (adv_name_complete b1) r2] \<rparr>
          else if r3 \<noteq> 0 then b1 \<lparr> adv_log := adv_log b1 @ [AdvFields (mfg_data b1) r1, AdvRsp (adv_name b1) (adv_name_complete b1) r2, AdvStart r3] \<rparr>
          else b1 \<lparr> adv_log := adv_log b1 @ [AdvFields (mfg_data b1) r1, AdvRsp (adv_name b1) (adv_name_complete b1) r2, AdvStart r3], advertising := True \<rparr>)"
        using ready True by (simp add: start_advertising_locked_def b1_def [symmetric] Let_def next_rc_def r1_def r2_def r3_def)
      have a: "stops_ok (adv_log b1) \<Longrightarrow> on_air (adv_log b1 @ [AdvFields (mfg_data b1) r1]) = None"
        "stops_ok (adv_log b1) \<Longrightarrow> on_air (adv_log b1 @ [AdvFields (mfg_data b1) r1, AdvRsp (adv_name b1) (adv_name_complete b1) r2]) = None"
        "stops_ok (adv_log b1) \<Longrightarrow> r3 \<noteq> 0 \<Longrightarrow>
          on_air (adv_log b1 @ [AdvFields (mfg_data b1) r1, AdvRsp (adv_name b1) (adv_name_complete b1) r2, AdvStart r3]) = None"
        using q on_air_quiet(1) [of "adv_log b1"] on_air_quiet(2) [of "adv_log b1 @ [_]"] on_air_quiet(3) [of "adv_log b1 @ [_, _]"]
        by auto
      show ?thesis
        unfolding s using a on_air_started [of "adv_log b1" "mfg_data b1"] ready True assms(1)
        by (auto simp: b1_def intro!: beacon_invI)
    qed
  qed
qed

lemma start_fields [simp]:
  "host_ready (start_advertising_locked E mode b) = host_ready b" "have_ip (start_advertising_locked E mode b) = have_ip b"
  "mfg_data (start_advertising_locked E mode b) = mfg_data b"
  by (simp_all add: start_advertising_locked_def Let_def)

lemma start_succeeds:
  "\<forall>i. adv_call E i = 0 \<Longrightarrow> (\<not> host_ready b \<or> \<not> have_ip b \<Longrightarrow> \<not> advertising b) \<Longrightarrow>
   advertising (start_advertising_locked E mode b) \<longleftrightarrow> host_ready b \<and> have_ip b \<and> discovery_mode_should_advertise_ble mode"
  by (auto simp: start_advertising_locked_def Let_def next_rc_def)

lemma start_stops_ok:
  "\<forall>i. adv_call E i = 0 \<Longrightarrow> stops_ok (adv_log b) \<Longrightarrow> stops_ok (adv_log (stop_advertising_locked E b))"
  "\<forall>i. adv_call E i = 0 \<Longrightarrow> stops_ok (adv_log b) \<Longrightarrow> stops_ok (adv_log (start_advertising_locked E mode b))"
  by (simp_all add: start_advertising_locked_def stop_advertising_locked_def Let_def next_rc_def)

text \<open>
  What holds in every reachable state, for the mode the advertiser was last started or stopped with;
  the last part when the advertiser never refuses a call.
\<close>

definition air_for :: "('n, 'h) env \<Rightarrow> nat \<Rightarrow> bytes option \<Rightarrow> beacon \<Rightarrow> bool" where
  "air_for E mode cur b \<longleftrightarrow> beacon_inv (mode, b) \<and> (have_ip b \<longleftrightarrow> cur \<noteq> None) \<and>
     take 3 (mfg_data b) = mfg_header \<and> (\<forall>ip. cur = Some ip \<longrightarrow> mfg_data b = mfg_header @ ip) \<and>
     ((\<forall>i. adv_call E i = 0) \<longrightarrow>
        (advertising b \<longleftrightarrow> host_ready b \<and> have_ip b \<and> discovery_mode_should_advertise_ble mode) \<and> stops_ok (adv_log b))"

text \<open>That mode is the stored one when no task is about to apply it.\<close>

definition air_inv :: "('n, 'h) env \<Rightarrow> air \<Rightarrow> bool" where
  "air_inv E s \<longleftrightarrow> (case s of (mode, p, cur, b) \<Rightarrow> \<exists>applied. air_for E applied cur b \<and> (p = 0 \<longrightarrow> applied = mode))"

lemma start_air_for:
  assumes "beacon_inv (mode, start_advertising_locked E mode b)" "have_ip b \<longleftrightarrow> cur \<noteq> None" "take 3 (mfg_data b) = mfg_header"
    "\<And>ip. cur = Some ip \<Longrightarrow> mfg_data b = mfg_header @ ip" "\<not> host_ready b \<or> \<not> have_ip b \<Longrightarrow> \<not> advertising b"
    "\<forall>i. adv_call E i = 0 \<Longrightarrow> stops_ok (adv_log b)"
  shows "air_for E mode cur (start_advertising_locked E mode b)"
  using assms start_succeeds [of E b mode] start_stops_ok(2) [of E b mode] by (simp add: air_for_def)

lemma air_forD:
  assumes "air_for E mode cur b"
  shows "b_lock b" "stops_ok (adv_log b) \<Longrightarrow> on_air (adv_log b) = (if advertising b then Some (mfg_data b) else None)"
    "advertising b \<Longrightarrow> host_ready b \<and> have_ip b \<and> discovery_mode_should_advertise_ble mode"
    "have_ip b \<longleftrightarrow> cur \<noteq> None" "take 3 (mfg_data b) = mfg_header" "cur = Some ip \<Longrightarrow> mfg_data b = mfg_header @ ip"
    "beacon_inv (mode, b)" "\<forall>i. adv_call E i = 0 \<Longrightarrow> stops_ok (adv_log b)"
  using assms by (auto simp: air_for_def beacon_inv_def)

text \<open>Whatever mode was applied before, a restart applies the present one.\<close>

lemma restart_air_for:
  assumes "air_for E applied cur b"
  shows "air_for E mode cur (start_advertising_locked E mode b)"
    and "air_for E mode cur (start_advertising_locked E mode (b \<lparr> host_ready := True \<rparr>))"
    and "air_for E mode cur (beacon_adv_complete E mode b)"
    and "length ip = 4 \<Longrightarrow> air_for E mode (Some ip) (ble_beacon_on_ip E mode ip b)"
proof -
  note i = air_forD [OF assms]
  have "beacon_inv (mode, start_advertising_locked E mode b)"
    by (rule start_inv) (use i in \<open>auto split: if_splits\<close>)
  then show "air_for E mode cur (start_advertising_locked E mode b)" by (rule start_air_for) (use i in auto)
  have "beacon_inv (mode, start_advertising_locked E mode (b \<lparr> host_ready := True \<rparr>))"
    by (rule start_inv) (use i in \<open>auto split: if_splits\<close>)
  then show "air_for E mode cur (start_advertising_locked E mode (b \<lparr> host_ready := True \<rparr>))" by (rule start_air_for) (use i in auto)
  have "beacon_inv (mode, beacon_adv_complete E mode b)"
    using i by (auto simp: beacon_adv_complete_def on_air_quiet intro!: start_inv)
  then show "air_for E mode cur (beacon_adv_complete E mode b)"
    unfolding beacon_adv_complete_def by (rule start_air_for) (use i in auto)
  assume ip: "length ip = 4"
  let ?b = "b \<lparr> mfg_data := take 3 (mfg_data b) @ take 4 ip, have_ip := True \<rparr>"
  have l: "length (take 3 (mfg_data b)) = 3" unfolding i(5) by simp
  have "beacon_inv (mode, start_advertising_locked E mode ?b)" by (rule start_inv) (use i in \<open>auto split: if_splits\<close>)
  then have "air_for E mode (Some ip) (start_advertising_locked E mode ?b)"
    by (rule start_air_for) (use i ip l in \<open>auto simp del: length_take\<close>)
  with i(1) show "air_for E mode (Some ip) (ble_beacon_on_ip E mode ip b)" by (simp add: ble_beacon_on_ip_def)
qed

lemma stop_air_for:
  assumes "air_for E applied cur b"
  shows "air_for E applied cur (beacon_on_reset b)" "air_for E applied None (ble_beacon_on_ip_lost E b)"
proof -
  note i = air_forD [OF assms]
  have "beacon_inv (applied, beacon_on_reset b)" using i by (auto simp: beacon_on_reset_def on_air_quiet intro!: beacon_invI)
  then show "air_for E applied cur (beacon_on_reset b)" using i by (simp add: air_for_def beacon_on_reset_def)
  have "beacon_inv (applied, stop_advertising_locked E (b \<lparr> have_ip := False \<rparr>))"
    using i stop_air [of E "b \<lparr> have_ip := False \<rparr>"] by (auto intro!: beacon_invI split: if_splits)
  then show "air_for E applied None (ble_beacon_on_ip_lost E b)"
    using i start_stops_ok(1) [of E "b \<lparr> have_ip := False \<rparr>"] by (simp add: ble_beacon_on_ip_lost_def air_for_def)
qed

lemma air_invI: "air_for E mode cur b \<Longrightarrow> air_inv E (mode, p, cur, b)"
  by (auto simp: air_inv_def)

lemma air_invE:
  assumes "air_inv E (mode, p, cur, b)"
  obtains applied where "air_for E applied cur b" "p = 0 \<longrightarrow> applied = mode"
  using assms by (auto simp: air_inv_def)

lemma air_inv_step:
  assumes "air_inv E s" "beacon_step E s t"
  shows "air_inv E t"
  using assms(2)
proof cases
  case (sync mode p cur b rc)
  then obtain m where m: "air_for E m cur b" using assms(1) by (auto elim: air_invE)
  show ?thesis
  proof (cases "rc = 0")
    case True
    with sync air_invI [OF restart_air_for(2) [OF m]] show ?thesis by (simp add: beacon_on_sync_def)
  qed (use sync assms(1) in \<open>simp add: beacon_on_sync_def\<close>)
next
  case (complete mode p cur b)
  then obtain m where "air_for E m cur b" using assms(1) by (auto elim: air_invE)
  with complete air_invI [OF restart_air_for(3)] show ?thesis by simp
next
  case (got_ip ip mode p cur b)
  then obtain m where "air_for E m cur b" using assms(1) by (auto elim: air_invE)
  with got_ip air_invI [OF restart_air_for(4)] show ?thesis by simp
next
  case (apply_mode mode p cur b)
  then obtain m where m: "air_for E m cur b" using assms(1) by (auto elim: air_invE)
  with apply_mode air_invI [OF restart_air_for(1) [OF m]] air_forD(1) [OF m]
  show ?thesis by (simp add: ble_beacon_apply_discovery_mode_def)
qed (use assms(1) in \<open>auto simp: air_inv_def intro: stop_air_for\<close>)

lemma air_inv_reach: "beacon_reach E s \<Longrightarrow> air_inv E s"
proof (induction rule: beacon_reach.induct)
  case (boot mode p)
  show ?case
    by (simp add: air_inv_def air_for_def beacon_inv_def ble_beacon_start_def beacon_zero_def build_name_def on_air_def case_prod_beta Let_def)
qed (rule air_inv_step)

section \<open>Property\<close>

text \<open>
  C23. The beacon never advertises a stale address. After any sequence of host, IP and mode events in
  which no call that stops the advertiser failed, whatever is on the air is the manufacturer data
  with the address the station holds right now; and the mode includes BLE unless some task has stored a
  mode and not applied it yet, the only time at which the beacon can be on the air against the mode.
  When the advertiser refuses no call at all and no mode waits to be applied, the beacon is on the
  air exactly when the station has an address, the host is synchronised and the mode includes BLE.
\<close>

theorem beacon_current:
  assumes "beacon_reach E (mode, p, cur, b)"
  shows "(stops_ok (adv_log b) \<longrightarrow> (\<forall>m. on_air (adv_log b) = Some m \<longrightarrow>
      (\<exists>ip. cur = Some ip \<and> m = mfg_header @ ip) \<and> host_ready b \<and> (p = 0 \<longrightarrow> discovery_mode_should_advertise_ble mode))) \<and>
    ((\<forall>i. adv_call E i = 0) \<and> p = 0 \<longrightarrow>
      on_air (adv_log b) = (if host_ready b \<and> discovery_mode_should_advertise_ble mode
        then map_option (\<lambda>ip. mfg_header @ ip) cur else None))"
proof -
  from air_inv_reach [OF assms] obtain applied where v: "air_for E applied cur b" "p = 0 \<longrightarrow> applied = mode" by (auto simp: air_inv_def)
  note i = air_forD [OF v(1)]
  have a: "(\<forall>i. adv_call E i = 0) \<longrightarrow> (advertising b \<longleftrightarrow> host_ready b \<and> have_ip b \<and> discovery_mode_should_advertise_ble applied)"
    using v(1) by (simp add: air_for_def)
  show ?thesis
  proof (intro conjI impI allI)
    fix m assume m: "stops_ok (adv_log b)" "on_air (adv_log b) = Some m"
    then have adv: "advertising b" "m = mfg_data b" using i(2) by (simp_all split: if_splits)
    then obtain ip where "cur = Some ip" using i(3,4) by auto
    with i(6) adv show "\<exists>ip. cur = Some ip \<and> m = mfg_header @ ip" by simp
    show "host_ready b" "p = 0 \<Longrightarrow> discovery_mode_should_advertise_ble mode" using i(3) adv v(2) by simp_all
  next
    assume "(\<forall>i. adv_call E i = 0) \<and> p = 0"
    with a v(2) i(2,4,6,8) show "on_air (adv_log b) = (if host_ready b \<and> discovery_mode_should_advertise_ble mode
        then map_option (\<lambda>ip. mfg_header @ ip) cur else None)" by (cases cur) auto
  qed
qed

definition bench_air :: beacon where
  "bench_air = ble_beacon_on_ip (bench True) 3 ''abcd'' (beacon_on_sync (bench True) 3 0 (ble_beacon_start (bench True) 0 prov_zero beacon_zero))"

theorem beacon_current_witness:
  "beacon_reach (bench True) (3, 0, Some ''abcd'', bench_air) \<and> on_air (adv_log bench_air) = Some (mfg_header @ ''abcd'')"
proof
  show r: "beacon_reach (bench True) (3, 0, Some ''abcd'', bench_air)" unfolding bench_air_def
    by (rule beacon_reach.step [OF beacon_reach.step [OF beacon_reach.boot beacon_step.sync] beacon_step.got_ip]) simp
  have "host_ready bench_air"
    by (simp add: bench_air_def ble_beacon_on_ip_def beacon_on_sync_def)
  then show "on_air (adv_log bench_air) = Some (mfg_header @ ''abcd'')"
    using beacon_current [OF r] by (simp add: discovery_mode_should_advertise_ble_def discovery_mode_get_def)
qed

end
