(* ===== verification/Device_Password.thy ===== *)
theory Device_Password
  imports Bench_Platform
begin

text \<open>
  The device password and the limits on guessing it, \<open>security/device_password.c\<close>. The password
  is kept as an SRP salt and verifier; a buffer with its length is the list of its valid bytes.
  Times are microseconds since boot, as \<open>esp_timer_get_time\<close> counts them, an argument of the
  operations that read the clock. An operation is the part of the C function that runs under the
  mutex; the mDNS refresh after a change is added in theory \<open>Device\<close>.

  Shown: the lock times are exactly doubling from one minute to the cap of one hour; after twenty
  consecutive failures the device is locked for every address, and that survives a reboot; a
  password that was set is the one loaded at the next boot; and one way in which the limit per
  address can be escaped.
\<close>

section \<open>State\<close>

abbreviation (input) DEVICE_PW_MIN_LEN :: nat where "DEVICE_PW_MIN_LEN \<equiv> 8"
abbreviation (input) DEVICE_PW_MAX_LEN :: nat where "DEVICE_PW_MAX_LEN \<equiv> 64"
abbreviation (input) DEVICE_PW_SALT_LEN :: nat where "DEVICE_PW_SALT_LEN \<equiv> 16"
abbreviation (input) DEVICE_PW_VERIFIER_MAX :: nat where "DEVICE_PW_VERIFIER_MAX \<equiv> 384"
abbreviation (input) DEVICE_PW_IP_MAX_FAILS :: nat where "DEVICE_PW_IP_MAX_FAILS \<equiv> 5"
abbreviation (input) DEVICE_PW_GLOBAL_MAX_FAILS :: nat where "DEVICE_PW_GLOBAL_MAX_FAILS \<equiv> 20"
abbreviation (input) DEVICE_PW_LOCK_BASE_S :: nat where "DEVICE_PW_LOCK_BASE_S \<equiv> 60"
abbreviation (input) DEVICE_PW_LOCK_MAX_S :: nat where "DEVICE_PW_LOCK_MAX_S \<equiv> 3600"
abbreviation (input) DEVICE_PW_SRP_IDENTITY :: bytes where "DEVICE_PW_SRP_IDENTITY \<equiv> ''cy-device''"
abbreviation (input) IP_SLOTS :: nat where "IP_SLOTS \<equiv> 8"

abbreviation (input) NVS_KEY_SALT :: bytes where "NVS_KEY_SALT \<equiv> ''pw_salt''"
abbreviation (input) NVS_KEY_VER :: bytes where "NVS_KEY_VER \<equiv> ''pw_ver''"
abbreviation (input) NVS_KEY_FAILS :: bytes where "NVS_KEY_FAILS \<equiv> ''pw_fails''"
abbreviation (input) NVS_KEY_LOCK :: bytes where "NVS_KEY_LOCK \<equiv> ''pw_lock''"

record ip_slot_t =
  slot_ip :: "32 word"
  slot_fails :: nat
  slot_until :: int

record pw_state =
  s_salt :: bytes
  s_verifier :: bytes
  s_init_salt :: bytes
  s_init_verifier :: bytes
  s_ip :: "ip_slot_t list"
  global_fails :: nat
  global_until :: int

definition slot_zero :: ip_slot_t where
  "slot_zero = \<lparr> slot_ip = 0, slot_fails = 0, slot_until = 0 \<rparr>"

definition pw_zero :: pw_state where
  "pw_zero = \<lparr> s_salt = [], s_verifier = [], s_init_salt = [], s_init_verifier = [],
     s_ip = replicate IP_SLOTS slot_zero, global_fails = 0, global_until = 0 \<rparr>"

section \<open>Lock times\<close>

function lock_loop :: "nat \<Rightarrow> nat \<Rightarrow> nat \<Rightarrow> nat" where
  "lock_loop i fails s =
    (if i < fails \<and> s < DEVICE_PW_LOCK_MAX_S then lock_loop (i + 1) fails (s * 2) else s)"
  by pat_completeness auto
termination
  by (relation "measure (\<lambda>(i, fails, s). fails - i)") auto

declare lock_loop.simps [simp del]

definition lock_seconds :: "nat \<Rightarrow> nat \<Rightarrow> nat" where
  "lock_seconds fails threshold =
    (if fails < threshold then 0
     else let s = lock_loop threshold fails DEVICE_PW_LOCK_BASE_S
       in if s > DEVICE_PW_LOCK_MAX_S then DEVICE_PW_LOCK_MAX_S else s)"

definition remaining_s :: "int \<Rightarrow> int \<Rightarrow> 32 word" where
  "remaining_s now until =
    (let d = until - now in if d \<le> 0 then 0 else of_int ((d + 999999) div 1000000))"

section \<open>NVS\<close>

definition pw_nvs_load :: "('n, 'h) env \<Rightarrow> int \<Rightarrow> 'n \<Rightarrow> pw_state \<Rightarrow> pw_state \<times> 'n" where
  "pw_nvs_load E now n0 p =
    (let (err, n) = nvs_open (nvs E) CY_SEC NVS_READONLY n0 in
     if err \<noteq> ESP_OK then (p, n) else
     let (err_salt, salt) = nvs_get_blob (nvs E) CY_SEC NVS_KEY_SALT DEVICE_PW_SALT_LEN n;
         p = (if err_salt = ESP_OK then
                let (err_ver, ver) = nvs_get_blob (nvs E) CY_SEC NVS_KEY_VER DEVICE_PW_VERIFIER_MAX n
                in if err_ver = ESP_OK then p \<lparr> s_salt := salt, s_verifier := ver \<rparr> else p \<lparr> s_salt := [] \<rparr>
              else p);
         (err_f, f) = nvs_get_u8 (nvs E) CY_SEC NVS_KEY_FAILS n;
         (err_l, l) = nvs_get_u32 (nvs E) CY_SEC NVS_KEY_LOCK n;
         fails = (if err_f = ESP_OK then f else 0);
         lock_s = (if err_l = ESP_OK then l else 0);
         p = p \<lparr> global_fails := fails \<rparr>
     in (if lock_s > 0 then p \<lparr> global_until := now + uint lock_s * 1000000 \<rparr> else p, n))"

definition nvs_store_pair :: "('n, 'h) env \<Rightarrow> (bytes \<times> bytes) option \<Rightarrow> 'n \<Rightarrow> esp_err \<times> 'n" where
  "nvs_store_pair E pair n0 =
    (let (err, n) = nvs_open (nvs E) CY_SEC NVS_READWRITE n0 in
     if err \<noteq> ESP_OK then (err, n) else
     let (err, n) = (case pair of
           None \<Rightarrow>
             let (_, n) = nvs_erase_key (nvs E) CY_SEC NVS_KEY_SALT n;
                 (_, n) = nvs_erase_key (nvs E) CY_SEC NVS_KEY_VER n
             in (err, n)
         | Some (salt, ver) \<Rightarrow>
             let (err, n) = nvs_set (nvs E) CY_SEC NVS_KEY_SALT (Blob salt) n
             in if err = ESP_OK then nvs_set (nvs E) CY_SEC NVS_KEY_VER (Blob ver) n else (err, n));
         (err, n) = (if err = ESP_OK then nvs_set (nvs E) CY_SEC NVS_KEY_FAILS (U8 0) n else (err, n));
         (err, n) = (if err = ESP_OK then nvs_set (nvs E) CY_SEC NVS_KEY_LOCK (U32 0) n else (err, n))
     in if err = ESP_OK then nvs_commit (nvs E) CY_SEC n else (err, n))"

definition nvs_store_lockout :: "('n, 'h) env \<Rightarrow> int \<Rightarrow> pw_state \<Rightarrow> 'n \<Rightarrow> 'n" where
  "nvs_store_lockout E now p n0 =
    (let (err, n) = nvs_open (nvs E) CY_SEC NVS_READWRITE n0 in
     if err \<noteq> ESP_OK then n else
     let (_, n) = nvs_set (nvs E) CY_SEC NVS_KEY_FAILS (U8 (global_fails p)) n;
         (_, n) = nvs_set (nvs E) CY_SEC NVS_KEY_LOCK (U32 (remaining_s now (global_until p))) n
     in snd (nvs_commit (nvs E) CY_SEC n))"

section \<open>Operations\<close>

definition device_password_init :: "('n, 'h) env \<Rightarrow> int \<Rightarrow> 'n \<Rightarrow> pw_state \<times> 'n" where
  "device_password_init E now n = pw_nvs_load E now n pw_zero"

definition device_password_is_set :: "pw_state \<Rightarrow> bool" where
  "device_password_is_set p \<longleftrightarrow> length (s_salt p) > 0 \<and> length (s_verifier p) > 0"

definition device_password_set_locked ::
    "('n, 'h) env \<Rightarrow> nat \<Rightarrow> bytes \<Rightarrow> pw_state \<Rightarrow> 'n \<Rightarrow> esp_err \<times> pw_state \<times> 'n" where
  "device_password_set_locked E i password p n =
    (if length password < DEVICE_PW_MIN_LEN \<or> length password > DEVICE_PW_MAX_LEN
     then (ESP_ERR_INVALID_SIZE, p, n)
     else
       let (err, salt, ver) = srp_gen_salt_verifier (srp E) i DEVICE_PW_SRP_IDENTITY password DEVICE_PW_SALT_LEN in
       if err \<noteq> ESP_OK then (err, p, n)
       else if length ver \<le> 0 \<or> length ver > DEVICE_PW_VERIFIER_MAX then (ESP_ERR_INVALID_SIZE, p, n)
       else
         let salt = take DEVICE_PW_SALT_LEN salt;
             (err, n) = nvs_store_pair E (Some (salt, ver)) n
         in if err = ESP_OK
            then (err, p \<lparr> s_salt := salt, s_verifier := ver, global_fails := 0, global_until := 0,
                           s_ip := replicate IP_SLOTS slot_zero \<rparr>, n)
            else (err, p, n))"

definition device_password_clear_locked :: "('n, 'h) env \<Rightarrow> pw_state \<Rightarrow> 'n \<Rightarrow> esp_err \<times> pw_state \<times> 'n" where
  "device_password_clear_locked E p n =
    (let (err, n) = nvs_store_pair E None n
     in (err, p \<lparr> s_salt := [], s_verifier := [], global_fails := 0, global_until := 0,
                  s_ip := replicate IP_SLOTS slot_zero \<rparr>, n))"

definition derive_initial_locked :: "('n, 'h) env \<Rightarrow> nat \<Rightarrow> pw_state \<Rightarrow> bool \<times> pw_state" where
  "derive_initial_locked E i p =
    (if length (s_init_verifier p) > 0 then (True, p)
     else
       let pass = cy_initial_password (cfg E);
           (err, salt, ver) = srp_gen_salt_verifier (srp E) i DEVICE_PW_SRP_IDENTITY pass DEVICE_PW_SALT_LEN
       in if err = ESP_OK \<and> length ver > 0 \<and> length ver \<le> DEVICE_PW_VERIFIER_MAX
          then (True, p \<lparr> s_init_salt := take DEVICE_PW_SALT_LEN salt, s_init_verifier := ver \<rparr>)
          else (False, p))"

definition device_password_get :: "('n, 'h) env \<Rightarrow> nat \<Rightarrow> pw_state \<Rightarrow> (bytes \<times> bytes) option \<times> pw_state" where
  "device_password_get E i p =
    (if device_password_is_set p then (Some (s_salt p, s_verifier p), p)
     else
       let (ok, p) = derive_initial_locked E i p
       in (if ok then Some (s_init_salt p, s_init_verifier p) else None, p))"

section \<open>Rate limiting\<close>

text \<open>The slot of an address if the scan meets it, otherwise the slot to reuse.\<close>

function ip_scan :: "ip_slot_t list \<Rightarrow> 32 word \<Rightarrow> nat \<Rightarrow> nat \<Rightarrow> bool \<times> nat" where
  "ip_scan slots ip i victim =
    (if i < length slots then
       if slot_ip (slots ! i) = ip then (True, i)
       else if slot_ip (slots ! i) = 0 then (False, i)
       else if slot_until (slots ! i) < slot_until (slots ! victim) then ip_scan slots ip (i + 1) i
       else ip_scan slots ip (i + 1) victim
     else (False, victim))"
  by pat_completeness auto
termination
  by (relation "measure (\<lambda>(slots, ip, i, v). length slots - i)") auto

declare ip_scan.simps [simp del]

definition ip_slot :: "32 word \<Rightarrow> ip_slot_t list \<Rightarrow> nat \<times> ip_slot_t list" where
  "ip_slot ip slots =
    (let (found, k) = ip_scan slots ip 0 0
     in (k, if found then slots else slots[k := slot_zero \<lparr> slot_ip := ip \<rparr>]))"

definition device_password_lock_remaining_s :: "int \<Rightarrow> 32 word \<Rightarrow> pw_state \<Rightarrow> 32 word" where
  "device_password_lock_remaining_s now peer_ip p =
    (if \<not> device_password_is_set p then 0
     else
       let g = remaining_s now (global_until p);
           q = (case find (\<lambda>s. slot_ip s = peer_ip) (s_ip p) of
                  Some s \<Rightarrow> remaining_s now (slot_until s) | None \<Rightarrow> 0)
       in if g > q then g else q)"

definition device_password_note_failure ::
    "('n, 'h) env \<Rightarrow> int \<Rightarrow> 32 word \<Rightarrow> pw_state \<Rightarrow> 'n \<Rightarrow> pw_state \<times> 'n" where
  "device_password_note_failure E now peer_ip p n =
    (if \<not> device_password_is_set p then (p, n)
     else
       let (k, slots) = ip_slot peer_ip (s_ip p);
           slot = slots ! k;
           slot = (if slot_fails slot < 255 then slot \<lparr> slot_fails := slot_fails slot + 1 \<rparr> else slot);
           ls = lock_seconds (slot_fails slot) DEVICE_PW_IP_MAX_FAILS;
           slot = (if ls \<noteq> 0 then slot \<lparr> slot_until := now + int ls * 1000000 \<rparr> else slot);
           p = p \<lparr> s_ip := slots[k := slot] \<rparr>;
           p = (if global_fails p < 255 then p \<lparr> global_fails := global_fails p + 1 \<rparr> else p);
           gs = lock_seconds (global_fails p) DEVICE_PW_GLOBAL_MAX_FAILS;
           p = (if gs \<noteq> 0 then p \<lparr> global_until := now + int gs * 1000000 \<rparr> else p)
       in (p, nvs_store_lockout E now p n))"

definition device_password_note_success ::
    "('n, 'h) env \<Rightarrow> int \<Rightarrow> 32 word \<Rightarrow> pw_state \<Rightarrow> 'n \<Rightarrow> pw_state \<times> 'n" where
  "device_password_note_success E now peer_ip p n =
    (let slots = (case index_of (\<lambda>s. slot_ip s = peer_ip) (s_ip p) of
           Some k \<Rightarrow> (s_ip p)[k := slot_zero] | None \<Rightarrow> s_ip p);
         dirty = (global_fails p \<noteq> 0 \<or> global_until p \<noteq> 0);
         p = p \<lparr> s_ip := slots, global_fails := 0, global_until := 0 \<rparr>
     in (p, if dirty then nvs_store_lockout E now p n else n))"

section \<open>Lock times are bounded and doubling\<close>

lemma lock_loop_spec:
  "i \<le> fails \<Longrightarrow> 0 < s \<Longrightarrow> min DEVICE_PW_LOCK_MAX_S (lock_loop i fails s) = min DEVICE_PW_LOCK_MAX_S (s * 2 ^ (fails - i))"
proof (induction i fails s rule: lock_loop.induct)
  case (1 i fails s)
  show ?case
  proof (cases "i < fails \<and> s < DEVICE_PW_LOCK_MAX_S")
    case True
    then have "fails - i = Suc (fails - (i + 1))" by (simp add: Suc_diff_Suc)
    then have "s * 2 ^ (fails - i) = s * 2 * 2 ^ (fails - (i + 1))" by simp
    with 1 True show ?thesis by (subst lock_loop.simps) simp
  next
    case False
    then consider "i = fails" | "DEVICE_PW_LOCK_MAX_S \<le> s" using 1(2) by linarith
    then show ?thesis
    proof cases
      case 2
      have "s \<le> s * 2 ^ (fails - i)" by simp
      with 2 have "DEVICE_PW_LOCK_MAX_S \<le> s * 2 ^ (fails - i)" by (rule order_trans)
      with 2 False show ?thesis by (subst lock_loop.simps) (simp add: min_absorb1)
    qed (subst lock_loop.simps, simp)
  qed
qed

lemma lock_seconds_eq:
  "lock_seconds fails thr =
    (if fails < thr then 0 else min DEVICE_PW_LOCK_MAX_S (DEVICE_PW_LOCK_BASE_S * 2 ^ (fails - thr)))"
proof (cases "fails < thr")
  case False
  have "lock_seconds fails thr = min DEVICE_PW_LOCK_MAX_S (lock_loop thr fails DEVICE_PW_LOCK_BASE_S)"
    using False by (simp add: lock_seconds_def Let_def)
  with lock_loop_spec [of thr fails DEVICE_PW_LOCK_BASE_S] False show ?thesis by simp
qed (simp add: lock_seconds_def)

lemma lock_seconds_pos: "thr \<le> fails \<Longrightarrow> DEVICE_PW_LOCK_BASE_S \<le> lock_seconds fails thr"
proof -
  assume "thr \<le> fails"
  moreover have "(60::nat) \<le> 60 * 2 ^ (fails - thr)" by simp
  ultimately show ?thesis by (simp add: lock_seconds_eq)
qed

lemma lock_seconds_le: "lock_seconds fails thr \<le> DEVICE_PW_LOCK_MAX_S"
  by (simp add: lock_seconds_eq)

lemma lock_seconds_mono: "f \<le> f' \<Longrightarrow> lock_seconds f thr \<le> lock_seconds f' thr"
proof -
  assume f: "f \<le> f'"
  then have "(2::nat) ^ (f - thr) \<le> 2 ^ (f' - thr)" by (intro power_increasing) auto
  then have "min DEVICE_PW_LOCK_MAX_S (60 * 2 ^ (f - thr)) \<le> min DEVICE_PW_LOCK_MAX_S (60 * 2 ^ (f' - thr) :: nat)"
    by (intro min.mono mult_le_mono2) simp_all
  then show ?thesis using f unfolding lock_seconds_eq by (simp only: if_splits split: if_split) auto
qed

lemma remaining_exact: "0 \<le> l \<Longrightarrow> l < 2 ^ 32 \<Longrightarrow> remaining_s now (now + l * 1000000) = of_int l"
proof -
  assume l: "0 \<le> l" "l < 2 ^ 32"
  have "(l * 1000000 + 999999) div 1000000 = l" by simp
  then show ?thesis using l by (auto simp: remaining_s_def Let_def)
qed

lemma remaining_pos: "now < until \<Longrightarrow> until - now \<le> 1000000 * 3600 \<Longrightarrow> remaining_s now until > 0"
proof -
  assume a: "now < until" "until - now \<le> 1000000 * 3600"
  let ?q = "(until - now + 999999) div 1000000"
  have q: "1 \<le> ?q" "?q \<le> 3600" using a by auto
  then have "uint (of_int ?q :: 32 word) = ?q" by (simp add: uint_word_of_int_eq take_bit_int_eq_self)
  with q have "of_int ?q \<noteq> (0 :: 32 word)" by auto
  then show ?thesis using a by (simp add: remaining_s_def Let_def word_gt_0)
qed

section \<open>Counting failures\<close>

lemma ip_scan_lt: "victim < length slots \<Longrightarrow> snd (ip_scan slots ip i victim) < length slots"
  by (induction slots ip i victim rule: ip_scan.induct) (subst ip_scan.simps, auto)

lemma ip_slot_ok: "slots \<noteq> [] \<Longrightarrow> fst (ip_slot ip slots) < length slots \<and> length (snd (ip_slot ip slots)) = length slots"
  using ip_scan_lt [of 0 slots ip 0] by (simp add: ip_slot_def case_prod_beta)

definition bump :: "nat \<Rightarrow> nat" where
  "bump f = (if f < 255 then f + 1 else f)"

lemma note_failure_simps:
  assumes "device_password_is_set p"
  shows "global_fails (fst (device_password_note_failure E now ip p n)) = bump (global_fails p)"
    and "global_until (fst (device_password_note_failure E now ip p n)) =
      (if lock_seconds (bump (global_fails p)) DEVICE_PW_GLOBAL_MAX_FAILS \<noteq> 0
       then now + int (lock_seconds (bump (global_fails p)) DEVICE_PW_GLOBAL_MAX_FAILS) * 1000000 else global_until p)"
    and "s_salt (fst (device_password_note_failure E now ip p n)) = s_salt p"
    and "s_verifier (fst (device_password_note_failure E now ip p n)) = s_verifier p"
    and "snd (device_password_note_failure E now ip p n) =
      nvs_store_lockout E now (fst (device_password_note_failure E now ip p n)) n"
  using assms by (simp_all add: device_password_note_failure_def bump_def Let_def case_prod_beta)

lemma note_failure_set: "device_password_is_set p \<Longrightarrow> device_password_is_set (fst (device_password_note_failure E now ip p n))"
  by (simp add: device_password_is_set_def note_failure_simps)

fun run_failures :: "('n, 'h) env \<Rightarrow> (int \<times> 32 word) list \<Rightarrow> pw_state \<times> 'n \<Rightarrow> pw_state \<times> 'n" where
  "run_failures E [] s = s"
| "run_failures E ((now, ip) # evs) s = run_failures E evs (device_password_note_failure E now ip (fst s) (snd s))"

lemma run_failures_snoc:
  "run_failures E (evs @ [(now, ip)]) s =
    device_password_note_failure E now ip (fst (run_failures E evs s)) (snd (run_failures E evs s))"
  by (induction E evs s rule: run_failures.induct) simp_all

lemma run_failures_count:
  "device_password_is_set (fst s) \<Longrightarrow> global_fails (fst s) \<le> 255 \<Longrightarrow>
   device_password_is_set (fst (run_failures E evs s)) \<and>
   global_fails (fst (run_failures E evs s)) = min 255 (global_fails (fst s) + length evs) \<and>
   s_salt (fst (run_failures E evs s)) = s_salt (fst s) \<and> s_verifier (fst (run_failures E evs s)) = s_verifier (fst s)"
proof (induction E evs s rule: run_failures.induct)
  case (2 E now ip evs s)
  let ?s = "device_password_note_failure E now ip (fst s) (snd s)"
  have "device_password_is_set (fst ?s)" "global_fails (fst ?s) = bump (global_fails (fst s))"
    "s_salt (fst ?s) = s_salt (fst s)" "s_verifier (fst ?s) = s_verifier (fst s)"
    using 2(2) by (simp_all add: note_failure_simps note_failure_set)
  with 2 show ?case by (auto simp: bump_def)
qed simp

lemma max_remaining:
  "device_password_is_set p \<Longrightarrow> remaining_s now (global_until p) \<le> device_password_lock_remaining_s now ip p"
  by (auto simp: device_password_lock_remaining_s_def Let_def)

section \<open>Stored state\<close>

lemma store_lockout_view:
  assumes "nvs_lawful (nvs E) view" "nvs_reliable (nvs E)"
  shows "view (nvs_store_lockout E now p n) =
    (view n)((CY_SEC, NVS_KEY_FAILS) \<mapsto> U8 (global_fails p),
      (CY_SEC, NVS_KEY_LOCK) \<mapsto> U32 (remaining_s now (global_until p)))"
  using nvs_lawfulD(1-3) [OF assms(1)] nvs_reliableD [OF assms(2)]
  by (simp add: nvs_store_lockout_def Let_def case_prod_beta)

lemma store_pair_view:
  assumes "nvs_lawful (nvs E) view" "fst (nvs_store_pair E (Some (salt, ver)) n) = ESP_OK"
  shows "view (snd (nvs_store_pair E (Some (salt, ver)) n)) =
    (view n)((CY_SEC, NVS_KEY_SALT) \<mapsto> Blob salt, (CY_SEC, NVS_KEY_VER) \<mapsto> Blob ver,
      (CY_SEC, NVS_KEY_FAILS) \<mapsto> U8 0, (CY_SEC, NVS_KEY_LOCK) \<mapsto> U32 0)"
  using assms(2) nvs_lawfulD(1-3) [OF assms(1)]
  by (simp add: nvs_store_pair_def Let_def case_prod_beta split: if_splits)

lemma load_stored:
  assumes law: "nvs_lawful (nvs E) view"
    and v: "view n (CY_SEC, NVS_KEY_SALT) = Some (Blob salt)" "view n (CY_SEC, NVS_KEY_VER) = Some (Blob ver)"
      "view n (CY_SEC, NVS_KEY_FAILS) = Some (U8 f)" "view n (CY_SEC, NVS_KEY_LOCK) = Some (U32 l)"
    and len: "length salt \<le> DEVICE_PW_SALT_LEN" "length ver \<le> DEVICE_PW_VERIFIER_MAX"
  shows "fst (device_password_init E now n) = pw_zero \<lparr> s_salt := salt, s_verifier := ver, global_fails := f,
    global_until := (if l > 0 then now + uint l * 1000000 else 0) \<rparr>"
proof -
  let ?n = "snd (nvs_open (nvs E) CY_SEC NVS_READONLY n)"
  have open_ok: "fst (nvs_open (nvs E) CY_SEC NVS_READONLY n) = ESP_OK"
    using nvs_open_ro [OF law, of n CY_SEC NVS_KEY_SALT] v(1) by simp
  have view: "view ?n = view n" by (rule nvs_open_view [OF law])
  have "nvs_get_blob (nvs E) CY_SEC NVS_KEY_SALT DEVICE_PW_SALT_LEN ?n = (ESP_OK, salt)"
    "nvs_get_blob (nvs E) CY_SEC NVS_KEY_VER DEVICE_PW_VERIFIER_MAX ?n = (ESP_OK, ver)"
    "nvs_get_u8 (nvs E) CY_SEC NVS_KEY_FAILS ?n = (ESP_OK, f)"
    "nvs_get_u32 (nvs E) CY_SEC NVS_KEY_LOCK ?n = (ESP_OK, l)"
    using v len view nvs_get_blob_Some [OF law] nvs_get_u8_Some [OF law] nvs_get_u32_Some [OF law] by auto
  then show ?thesis
    using open_ok by (simp add: device_password_init_def pw_nvs_load_def Let_def case_prod_beta pw_zero_def)
qed

section \<open>Properties\<close>

text \<open>
  The lock after a failure is 0 below the threshold, then 60 seconds doubling with every
  further failure, never more than an hour: the loop computes exactly that, for every counter
  value.
\<close>

theorem lock_seconds_doubles:
  "lock_seconds fails threshold =
    (if fails < threshold then 0 else min 3600 (60 * 2 ^ (fails - threshold)))"
  by (rule lock_seconds_eq)

text \<open>
  C19. Guessing the password is limited for everybody. After any sequence of failed proofs, from
  any addresses at any times, the failures are counted (up to 255), and once twenty have
  accumulated every address is refused from the last failure until the lock has run out, which
  takes at least a minute and doubles with each failure up to an hour.
\<close>

theorem guessing_locks_everyone:
  assumes "device_password_is_set p" "global_fails p \<le> 255" "evs \<noteq> []" "last evs = (t, a)"
    "20 \<le> global_fails p + length evs"
  shows "let p' = fst (run_failures E evs (p, n)); l = lock_seconds (min 255 (global_fails p + length evs)) 20
    in global_fails p' = min 255 (global_fails p + length evs) \<and> 60 \<le> l \<and>
      (\<forall>now ip. t \<le> now \<and> now < t + int l * 1000000 \<longrightarrow> device_password_lock_remaining_s now ip p' > 0)"
proof -
  obtain evs' where e: "evs = evs' @ [(t, a)]" using assms(3,4) by (metis append_butlast_last_id)
  let ?s = "run_failures E evs' (p, n)" and ?p' = "fst (run_failures E evs (p, n))"
  let ?c = "min 255 (global_fails p + length evs)"
  let ?l = "lock_seconds ?c 20"
  have s: "device_password_is_set (fst ?s)" "global_fails (fst ?s) = min 255 (global_fails p + length evs')"
    using run_failures_count [of "(p, n)" E evs'] assms(1,2) by auto
  have p': "?p' = fst (device_password_note_failure E t a (fst ?s) (snd ?s))" by (simp add: e run_failures_snoc)
  have set: "device_password_is_set ?p'" and c: "global_fails ?p' = ?c"
    using run_failures_count [of "(p, n)" E evs] assms(1,2) by auto
  have l: "60 \<le> ?l" using lock_seconds_pos [of 20 ?c] assms(5) by simp
  have "bump (global_fails (fst ?s)) = ?c" using s(2) e by (auto simp: bump_def)
  then have u: "global_until ?p' = t + int ?l * 1000000"
    using note_failure_simps(2) [OF s(1), of E t a "snd ?s"] l unfolding p' by simp
  have "device_password_lock_remaining_s now ip ?p' > 0" if "t \<le> now" "now < t + int ?l * 1000000" for now ip
  proof -
    have "remaining_s now (global_until ?p') > 0"
      using that u lock_seconds_le [of ?c 20] by (intro remaining_pos) auto
    then show ?thesis using max_remaining [OF set, of now ip] by (rule less_le_trans)
  qed
  then show ?thesis using c l by (simp add: Let_def)
qed

definition locked_down :: pw_state where
  "locked_down = pw_zero \<lparr> s_salt := ''salt'', s_verifier := ''ver'', global_fails := 19 \<rparr>"

theorem guessing_locks_everyone_witness:
  "device_password_lock_remaining_s 59000005 7 (fst (run_failures (bench True) [(5, 1)] (locked_down, blank))) > 0"
  using guessing_locks_everyone [of locked_down "[(5, 1)]" 5 1 "bench True" blank]
  by (simp add: locked_down_def device_password_is_set_def Let_def lock_seconds_eq)

text \<open>
  C20. Switching the device off does not help a guesser. On a working flash, the counter and the
  remaining lock after a failed proof are those found at the next boot, whenever that is, and the
  password is still the same.
\<close>

theorem lockout_survives_reboot:
  assumes "nvs_lawful (nvs E) view" "nvs_reliable (nvs E)" "device_password_is_set p" "0 \<le> boot"
    "view n (CY_SEC, NVS_KEY_SALT) = Some (Blob (s_salt p))" "view n (CY_SEC, NVS_KEY_VER) = Some (Blob (s_verifier p))"
    "length (s_salt p) \<le> DEVICE_PW_SALT_LEN" "length (s_verifier p) \<le> DEVICE_PW_VERIFIER_MAX"
    "device_password_note_failure E now ip p n = (p', n')"
  shows "let b = fst (device_password_init E boot n')
    in global_fails b = global_fails p' \<and> remaining_s boot (global_until b) = remaining_s now (global_until p') \<and>
      s_salt b = s_salt p \<and> s_verifier b = s_verifier p"
proof -
  note nf = note_failure_simps [OF assms(3), of E now ip n, unfolded assms(9) fst_conv snd_conv]
  have v: "view n' = (view n)((CY_SEC, NVS_KEY_FAILS) \<mapsto> U8 (global_fails p'),
      (CY_SEC, NVS_KEY_LOCK) \<mapsto> U32 (remaining_s now (global_until p')))"
    unfolding nf(5) by (rule store_lockout_view [OF assms(1,2)])
  let ?r = "remaining_s now (global_until p')"
  have b: "fst (device_password_init E boot n') = pw_zero \<lparr> s_salt := s_salt p, s_verifier := s_verifier p,
      global_fails := global_fails p', global_until := (if ?r > 0 then boot + uint ?r * 1000000 else 0) \<rparr>"
    using v assms(5-8) by (intro load_stored [OF assms(1)]) simp_all
  have "uint ?r < 2 ^ 32" using unsigned_less [where ?'a = int, of ?r] by simp
  then have "remaining_s boot (boot + uint ?r * 1000000) = ?r"
    by (subst remaining_exact) simp_all
  moreover have "remaining_s boot 0 = 0" using assms(4) by (simp add: remaining_s_def)
  ultimately show ?thesis unfolding b by (auto simp: Let_def word_gt_0)
qed

definition flash_with_password :: flash where
  "flash_with_password = blank((CY_SEC, NVS_KEY_SALT) \<mapsto> Blob ''salt'', (CY_SEC, NVS_KEY_VER) \<mapsto> Blob ''ver'')"

theorem lockout_survives_reboot_witness:
  "global_fails (fst (device_password_init (bench True) 3
     (snd (device_password_note_failure (bench True) 5 1 locked_down flash_with_password)))) = 20"
proof -
  obtain p' n' where p': "device_password_note_failure (bench True) 5 1 locked_down flash_with_password = (p', n')" by fastforce
  have law: "nvs_lawful (nvs (bench True)) (\<lambda>f. f)" "nvs_reliable (nvs (bench True))"
    by (simp_all add: flash_nvs_lawful flash_nvs_reliable)
  have set: "device_password_is_set locked_down" by (simp add: locked_down_def device_password_is_set_def)
  have "global_fails p' = 20"
    using note_failure_simps(1) [OF set, of "bench True" 5 1 flash_with_password] p' by (simp add: locked_down_def bump_def)
  then show ?thesis
    using lockout_survives_reboot [OF law set _ _ _ _ _ p', of 3] p'
    by (simp add: flash_with_password_def locked_down_def Let_def)
qed

text \<open>
  A password that was set is the one in force after the next boot: the same salt and
  verifier, no failures counted, nobody locked out.
\<close>

theorem password_survives_reboot:
  assumes "nvs_lawful (nvs E) view" "device_password_set_locked E i pw p n = (ESP_OK, p', n')" "0 \<le> boot"
  shows "let b = fst (device_password_init E boot n')
    in s_salt b = s_salt p' \<and> s_verifier b = s_verifier p' \<and> device_password_is_set b = device_password_is_set p' \<and>
      global_fails b = 0 \<and> (\<forall>now ip. boot \<le> now \<longrightarrow> device_password_lock_remaining_s now ip b = 0)"
proof -
  obtain salt ver where g: "srp_gen_salt_verifier (srp E) i DEVICE_PW_SRP_IDENTITY pw DEVICE_PW_SALT_LEN = (ESP_OK, salt, ver)"
    "length ver \<le> DEVICE_PW_VERIFIER_MAX" "nvs_store_pair E (Some (take DEVICE_PW_SALT_LEN salt, ver)) n = (ESP_OK, n')"
    "s_salt p' = take DEVICE_PW_SALT_LEN salt" "s_verifier p' = ver"
    using assms(2) by (auto simp: device_password_set_locked_def Let_def split: prod.splits if_splits)
  have v: "view n' = (view n)((CY_SEC, NVS_KEY_SALT) \<mapsto> Blob (s_salt p'), (CY_SEC, NVS_KEY_VER) \<mapsto> Blob (s_verifier p'),
      (CY_SEC, NVS_KEY_FAILS) \<mapsto> U8 0, (CY_SEC, NVS_KEY_LOCK) \<mapsto> U32 0)"
    using store_pair_view [OF assms(1), of "take DEVICE_PW_SALT_LEN salt" ver n] g by simp
  have b: "fst (device_password_init E boot n') = pw_zero \<lparr> s_salt := s_salt p', s_verifier := s_verifier p',
      global_fails := 0, global_until := (if (0 :: 32 word) > 0 then boot + uint (0 :: 32 word) * 1000000 else 0) \<rparr>"
    using v g by (intro load_stored [OF assms(1)]) simp_all
  have find: "find (\<lambda>s. slot_ip s = ip) (s_ip pw_zero) = (if ip = 0 then Some slot_zero else None)" for ip
    by (auto simp: pw_zero_def slot_zero_def numeral_eq_Suc)
  have "device_password_lock_remaining_s now ip (fst (device_password_init E boot n')) = 0" if "boot \<le> now" for now ip
    unfolding b using that assms(3) find [of ip]
    by (auto simp: device_password_lock_remaining_s_def remaining_s_def Let_def slot_zero_def pw_zero_def)
  then show ?thesis unfolding b by (simp add: Let_def device_password_is_set_def)
qed

definition fresh_password :: "esp_err \<times> pw_state \<times> flash" where
  "fresh_password = device_password_set_locked (bench True) 0 ''correct horse'' pw_zero blank"

lemma fresh_password_ok: "fresh_password = (ESP_OK, fst (snd fresh_password), snd (snd fresh_password))"
  by (simp add: fresh_password_def device_password_set_locked_def nvs_store_pair_def Let_def bench_srp_api_def flash_nvs_def
      case_prod_beta)

theorem password_survives_reboot_witness:
  "device_password_lock_remaining_s 9 7 (fst (device_password_init (bench True) 5 (snd (snd fresh_password)))) = 0"
proof -
  have "nvs_lawful (nvs (bench True)) (\<lambda>f. f)" by (simp add: flash_nvs_lawful)
  from password_survives_reboot [OF this fresh_password_ok [unfolded fresh_password_def], of 5]
  show ?thesis by (simp add: Let_def fresh_password_def)
qed

text \<open>Where the search for an address ends if the first or the second slot decides.\<close>

lemma ip_slot_first:
  "slot_ip x = ip \<Longrightarrow> ip_slot ip (x # xs) = (0, x # xs)"
  "slot_ip x = 0 \<Longrightarrow> ip \<noteq> 0 \<Longrightarrow> ip_slot ip (x # xs) = (0, slot_zero \<lparr> slot_ip := ip \<rparr> # xs)"
  by (subst ip_slot_def, subst ip_scan.simps, simp)+

lemma ip_slot_second:
  "slot_ip x \<noteq> ip \<Longrightarrow> slot_ip x \<noteq> 0 \<Longrightarrow> slot_ip y = ip \<Longrightarrow> ip_slot ip (x # y # ys) = (1, x # y # ys)"
  "slot_ip x \<noteq> ip \<Longrightarrow> slot_ip x \<noteq> 0 \<Longrightarrow> slot_ip y = 0 \<Longrightarrow> ip \<noteq> 0 \<Longrightarrow>
    ip_slot ip (x # y # ys) = (1, x # slot_zero \<lparr> slot_ip := ip \<rparr> # ys)"
  by (subst ip_slot_def, subst ip_scan.simps, simp, subst ip_scan.simps, simp)+

lemma note_failure_early:
  assumes "device_password_is_set p" "ip_slot ip (s_ip p) = (k, slots)" "slot_fails (slots ! k) < 4" "global_fails p < 19"
  shows "fst (device_password_note_failure E now ip p n) =
    p \<lparr> s_ip := slots[k := (slots ! k) \<lparr> slot_fails := slot_fails (slots ! k) + 1 \<rparr>], global_fails := global_fails p + 1 \<rparr>"
  using assms by (simp add: device_password_note_failure_def lock_seconds_def Let_def)

definition slot :: "32 word \<Rightarrow> nat \<Rightarrow> ip_slot_t" where
  "slot ip f = \<lparr> slot_ip = ip, slot_fails = f, slot_until = 0 \<rparr>"

definition two_slots :: "ip_slot_t \<Rightarrow> ip_slot_t \<Rightarrow> nat \<Rightarrow> pw_state" where
  "two_slots a b g = \<lparr> s_salt = ''salt'', s_verifier = ''ver'', s_init_salt = [], s_init_verifier = [],
     s_ip = a # b # replicate 6 (slot 0 0), global_fails = g, global_until = 0 \<rparr>"

lemma two_slots_start: "pw_zero \<lparr> s_salt := ''salt'', s_verifier := ''ver'' \<rparr> = two_slots (slot 0 0) (slot 0 0) 0"
  by (simp add: pw_zero_def two_slots_def slot_def slot_zero_def numeral_eq_Suc)

lemma two_slots_set: "device_password_is_set (two_slots a b g)"
  by (simp add: two_slots_def device_password_is_set_def)

lemma two_slots_first:
  assumes "ip \<noteq> 0" "slot_ip a = ip \<and> f = slot_fails a \<and> slot_until a = 0 \<or> a = slot 0 0 \<and> f = 0" "f < 4" "g < 19"
  shows "\<exists>n'. device_password_note_failure E now ip (two_slots a b g) n = (two_slots (slot ip (f + 1)) b (g + 1), n')"
proof -
  have "ip_slot ip (s_ip (two_slots a b g)) = (0, slot ip f # b # replicate 6 (slot 0 0))"
    using assms(1,2) by (auto simp: two_slots_def ip_slot_first slot_def slot_zero_def)
  from note_failure_early [OF two_slots_set this, of E now n] assms(3,4)
  show ?thesis by (intro exI [of _ "snd _"]) (simp add: prod_eq_iff, simp add: two_slots_def slot_def)
qed

lemma two_slots_second:
  assumes "ip \<noteq> 0" "slot_ip a \<notin> {ip, 0}" "slot_ip b = ip \<and> f = slot_fails b \<and> slot_until b = 0 \<or> b = slot 0 0 \<and> f = 0"
    "f < 4" "g < 19"
  shows "\<exists>n'. device_password_note_failure E now ip (two_slots a b g) n = (two_slots a (slot ip (f + 1)) (g + 1), n')"
proof -
  have "ip_slot ip (s_ip (two_slots a b g)) = (1, a # slot ip f # replicate 6 (slot 0 0))"
    using assms(1-3) by (auto simp: two_slots_def ip_slot_second slot_def slot_zero_def)
  from note_failure_early [OF two_slots_set this, of E now n] assms(4,5)
  show ?thesis by (intro exI [of _ "snd _"]) (simp add: prod_eq_iff, simp add: two_slots_def slot_def)
qed

text \<open>
  C21. The limit per address can be escaped. Here address 2 fails four times, address 1, which had
  failed once before, then pairs successfully, and address 2 fails four more times: eight failures
  in a row, yet it is not locked (the limit is five), because looking for its slot stops at the
  slot the success has freed, which is before its own.
\<close>

theorem ip_limit_escaped:
  "let p = pw_zero \<lparr> s_salt := ''salt'', s_verifier := ''ver'' \<rparr>;
       s = run_failures (bench True) [(10, 1), (11, 2), (12, 2), (13, 2), (14, 2)] (p, blank);
       s = device_password_note_success (bench True) 15 1 (fst s) (snd s);
       s = run_failures (bench True) [(16, 2), (17, 2), (18, 2), (19, 2)] s
   in device_password_is_set (fst s) \<and> device_password_lock_remaining_s 19 2 (fst s) = 0"
proof -
  obtain n1 where n1: "run_failures (bench True) [(10, 1), (11, 2), (12, 2), (13, 2), (14, 2)] (two_slots (slot 0 0) (slot 0 0) 0, blank) =
      (two_slots (slot 1 1) (slot 2 4) 5, n1)"
  proof -
    obtain a1 where a1: "device_password_note_failure (bench True) 10 1 (two_slots (slot 0 0) (slot 0 0) 0) blank =
        (two_slots (slot 1 1) (slot 0 0) 1, a1)"
      using two_slots_first [of 1 "slot 0 0" 0 0 "bench True" 10 "slot 0 0" blank] by auto
    obtain a2 where a2: "device_password_note_failure (bench True) 11 2 (two_slots (slot 1 1) (slot 0 0) 1) a1 =
        (two_slots (slot 1 1) (slot 2 1) 2, a2)"
      using two_slots_second [of 2 "slot 1 1" "slot 0 0" 0 1 "bench True" 11 a1] by (auto simp: slot_def numeral_eq_Suc)
    obtain a3 where a3: "device_password_note_failure (bench True) 12 2 (two_slots (slot 1 1) (slot 2 1) 2) a2 =
        (two_slots (slot 1 1) (slot 2 2) 3, a3)"
      using two_slots_second [of 2 "slot 1 1" "slot 2 1" 1 2 "bench True" 12 a2] by (auto simp: slot_def numeral_eq_Suc)
    obtain a4 where a4: "device_password_note_failure (bench True) 13 2 (two_slots (slot 1 1) (slot 2 2) 3) a3 =
        (two_slots (slot 1 1) (slot 2 3) 4, a4)"
      using two_slots_second [of 2 "slot 1 1" "slot 2 2" 2 3 "bench True" 13 a3] by (auto simp: slot_def numeral_eq_Suc)
    obtain a5 where a5: "device_password_note_failure (bench True) 14 2 (two_slots (slot 1 1) (slot 2 3) 4) a4 =
        (two_slots (slot 1 1) (slot 2 4) 5, a5)"
      using two_slots_second [of 2 "slot 1 1" "slot 2 3" 3 4 "bench True" 14 a4] by (auto simp: slot_def numeral_eq_Suc)
    show thesis by (rule that [of a5]) (simp only: run_failures.simps a1 a2 a3 a4 a5 fst_conv snd_conv)
  qed
  obtain n2 where n2: "device_password_note_success (bench True) 15 1 (two_slots (slot 1 1) (slot 2 4) 5) n1 =
      (two_slots (slot 0 0) (slot 2 4) 0, n2)"
    by (simp add: device_password_note_success_def two_slots_def slot_def slot_zero_def Let_def)
  obtain n3 where n3: "run_failures (bench True) [(16, 2), (17, 2), (18, 2), (19, 2)] (two_slots (slot 0 0) (slot 2 4) 0, n2) =
      (two_slots (slot 2 4) (slot 2 4) 4, n3)"
  proof -
    obtain a1 where a1: "device_password_note_failure (bench True) 16 2 (two_slots (slot 0 0) (slot 2 4) 0) n2 =
        (two_slots (slot 2 1) (slot 2 4) 1, a1)"
      using two_slots_first [of 2 "slot 0 0" 0 0 "bench True" 16 "slot 2 4" n2] by auto
    obtain a2 where a2: "device_password_note_failure (bench True) 17 2 (two_slots (slot 2 1) (slot 2 4) 1) a1 =
        (two_slots (slot 2 2) (slot 2 4) 2, a2)"
      using two_slots_first [of 2 "slot 2 1" 1 1 "bench True" 17 "slot 2 4" a1] by (auto simp: slot_def numeral_eq_Suc)
    obtain a3 where a3: "device_password_note_failure (bench True) 18 2 (two_slots (slot 2 2) (slot 2 4) 2) a2 =
        (two_slots (slot 2 3) (slot 2 4) 3, a3)"
      using two_slots_first [of 2 "slot 2 2" 2 2 "bench True" 18 "slot 2 4" a2] by (auto simp: slot_def numeral_eq_Suc)
    obtain a4 where a4: "device_password_note_failure (bench True) 19 2 (two_slots (slot 2 3) (slot 2 4) 3) a3 =
        (two_slots (slot 2 4) (slot 2 4) 4, a4)"
      using two_slots_first [of 2 "slot 2 3" 3 3 "bench True" 19 "slot 2 4" a3] by (auto simp: slot_def numeral_eq_Suc)
    show thesis by (rule that [of a4]) (simp only: run_failures.simps a1 a2 a3 a4 fst_conv snd_conv)
  qed
  have "device_password_lock_remaining_s 19 2 (two_slots (slot 2 4) (slot 2 4) 4) = 0"
    by (simp add: device_password_lock_remaining_s_def remaining_s_def two_slots_def slot_def Let_def)
  then show ?thesis unfolding two_slots_start Let_def n1 fst_conv snd_conv n2 n3 using two_slots_set by blast
qed

end
