(* ===== verification/Device.thy ===== *)
theory Device
  imports Local_Session Pairing_Events Discovery Device_Password
begin

text \<open>
  The state the security modules share, and the public operations of the paired list and of the
  device password, which after their critical section refresh the mDNS record.

  \<open>wire\<close> is the history of \<open>send()\<close> calls, socket and bytes, oldest first; \<open>now_us\<close> is
  \<open>esp_timer_get_time()\<close>, \<open>wall\<close> is \<open>time(NULL)\<close>; \<open>draws\<close> counts the draws from the entropy
  source. The mutexes of the modules make each single operation on list, password, pool and events
  atomic, and a session's other fields belong to its receive task; a line handler is the composition of the
  operations it calls, with no other task in between.
\<close>

record ('n, 'h) dev =
  flash :: 'n
  plist :: paired_list
  pw :: pw_state
  pool :: "'h pool"
  events :: queue_t
  disc :: nat
  bcn :: beacon
  mdns :: mdns_state
  prov :: prov_state
  wire :: "(int \<times> bytes) list"
  now_us :: int
  wall :: int
  draws :: nat

definition send :: "int \<Rightarrow> bytes \<Rightarrow> ('n, 'h) dev \<Rightarrow> ('n, 'h) dev" where
  "send sk b d = d \<lparr> wire := wire d @ [(sk, b)] \<rparr>"

text \<open>\<open>mdns_discovery_refresh()\<close> with the state it reads.\<close>

definition refresh :: "('n, 'h) env \<Rightarrow> ('n, 'h) dev \<Rightarrow> ('n, 'h) dev" where
  "refresh E d = d \<lparr> mdns := mdns_discovery_refresh E (prov d) (paired_list_count (plist d) > 0)
     (device_password_is_set (pw d)) (mdns d) \<rparr>"

section \<open>The paired list\<close>

definition paired_list_add ::
    "('n, 'h) env \<Rightarrow> bytes \<Rightarrow> bytes \<Rightarrow> bytes \<Rightarrow> 32 word \<Rightarrow> ('n, 'h) dev \<Rightarrow> int \<times> nat \<times> bytes \<times> ('n, 'h) dev" where
  "paired_list_add E sub email key at d =
    (let (idx, role, key, l, n) = paired_list_add_locked E sub email key at (plist d) (flash d);
         d = d \<lparr> plist := l, flash := n \<rparr>
     in (idx, role, key, if idx < 0 then d else refresh E d))"

definition paired_list_remove :: "('n, 'h) env \<Rightarrow> int \<Rightarrow> ('n, 'h) dev \<Rightarrow> esp_err \<times> ('n, 'h) dev" where
  "paired_list_remove E i d =
    (if i < 0 \<or> i \<ge> int (pcount (plist d)) then (ESP_ERR_NOT_FOUND, d) else
     let (err, l, n) = paired_list_remove_locked E i (plist d) (flash d)
     in (err, refresh E (d \<lparr> plist := l, flash := n \<rparr>)))"

definition paired_list_rotate_owner_key :: "('n, 'h) env \<Rightarrow> ('n, 'h) dev \<Rightarrow> esp_err \<times> ('n, 'h) dev" where
  "paired_list_rotate_owner_key E d =
    (let fresh = fill_random (cry E) (draws d) PAIRED_KEY_LEN;
         (err, l, n) = rotate_owner_key_locked E fresh (plist d) (flash d)
     in (err, d \<lparr> plist := l, flash := n, draws := draws d + 1 \<rparr>))"

definition paired_list_clear :: "('n, 'h) env \<Rightarrow> ('n, 'h) dev \<Rightarrow> esp_err \<times> ('n, 'h) dev" where
  "paired_list_clear E d =
    (let (err, l, n) = paired_list_clear_locked E (flash d)
     in (err, refresh E (d \<lparr> plist := l, flash := n \<rparr>)))"

section \<open>The password\<close>

definition device_password_set :: "('n, 'h) env \<Rightarrow> bytes \<Rightarrow> ('n, 'h) dev \<Rightarrow> esp_err \<times> ('n, 'h) dev" where
  "device_password_set E password d =
    (let (err, p, n) = device_password_set_locked E (draws d) password (pw d) (flash d);
         d = d \<lparr> pw := p, flash := n, draws := draws d + 1 \<rparr>
     in (err, if err = ESP_OK then refresh E d else d))"

definition device_password_clear :: "('n, 'h) env \<Rightarrow> ('n, 'h) dev \<Rightarrow> esp_err \<times> ('n, 'h) dev" where
  "device_password_clear E d =
    (let (err, p, n) = device_password_clear_locked E (pw d) (flash d)
     in (err, refresh E (d \<lparr> pw := p, flash := n \<rparr>)))"

definition push_event :: "('n, 'h) env \<Rightarrow> bytes \<Rightarrow> bytes \<Rightarrow> bytes \<Rightarrow> ('n, 'h) dev \<Rightarrow> ('n, 'h) dev" where
  "push_event E ev sub role d =
    (let (q, n) = pairing_events_push E (wall d) ev sub role (events d) (flash d) in d \<lparr> events := q, flash := n \<rparr>)"

section \<open>Sessions\<close>

text \<open>The slot a task holds a pointer to, and an update of it.\<close>

abbreviation slot_at :: "nat \<Rightarrow> ('n, 'h) dev \<Rightarrow> 'h local_session" where
  "slot_at k d \<equiv> pool d ! k"

definition upd :: "nat \<Rightarrow> ('h local_session \<Rightarrow> 'h local_session) \<Rightarrow> ('n, 'h) dev \<Rightarrow> ('n, 'h) dev" where
  "upd k f d = d \<lparr> pool := (pool d)[k := f (pool d ! k)] \<rparr>"

lemma send_simps [simp]:
  "flash (send sk b d) = flash d" "plist (send sk b d) = plist d" "pw (send sk b d) = pw d" "pool (send sk b d) = pool d"
  "events (send sk b d) = events d" "disc (send sk b d) = disc d" "bcn (send sk b d) = bcn d" "mdns (send sk b d) = mdns d"
  "prov (send sk b d) = prov d" "wire (send sk b d) = wire d @ [(sk, b)]" "now_us (send sk b d) = now_us d"
  "wall (send sk b d) = wall d" "draws (send sk b d) = draws d"
  by (simp_all add: send_def)

lemma refresh_simps [simp]:
  "flash (refresh E d) = flash d" "plist (refresh E d) = plist d" "pw (refresh E d) = pw d" "pool (refresh E d) = pool d"
  "events (refresh E d) = events d" "disc (refresh E d) = disc d" "bcn (refresh E d) = bcn d"
  "prov (refresh E d) = prov d" "wire (refresh E d) = wire d" "now_us (refresh E d) = now_us d"
  "wall (refresh E d) = wall d" "draws (refresh E d) = draws d"
  by (simp_all add: refresh_def)

lemma upd_simps [simp]:
  "flash (upd k f d) = flash d" "plist (upd k f d) = plist d" "pw (upd k f d) = pw d"
  "pool (upd k f d) = (pool d)[k := f (pool d ! k)]"
  "events (upd k f d) = events d" "disc (upd k f d) = disc d" "bcn (upd k f d) = bcn d" "mdns (upd k f d) = mdns d"
  "prov (upd k f d) = prov d" "wire (upd k f d) = wire d" "now_us (upd k f d) = now_us d"
  "wall (upd k f d) = wall d" "draws (upd k f d) = draws d"
  by (simp_all add: upd_def)

section \<open>The invariant of the device\<close>

text \<open>
  The pool, the list and the queue are well formed, and every session agrees with the list: the
  row it names exists, and it has the owner's role only on the owner's row.
\<close>

definition dev_inv :: "('n, 'h) dev \<Rightarrow> bool" where
  "dev_inv d \<longleftrightarrow> pool_inv (pool d) \<and> list_ok (plist d) \<and> queue_inv (events d) \<and> list_all (session_agrees (plist d)) (pool d)"

lemma dev_invD:
  "dev_inv d \<Longrightarrow> pool_inv (pool d)" "dev_inv d \<Longrightarrow> list_ok (plist d)" "dev_inv d \<Longrightarrow> queue_inv (events d)"
  "dev_inv d \<Longrightarrow> list_all (session_agrees (plist d)) (pool d)"
  by (simp_all add: dev_inv_def)

text \<open>The parts of the state the invariant depends on.\<close>

lemma dev_inv_cong:
  "pool d' = pool d \<Longrightarrow> plist d' = plist d \<Longrightarrow> events d' = events d \<Longrightarrow> dev_inv d' = dev_inv d"
  by (simp add: dev_inv_def)

lemma dev_inv_send [simp]: "dev_inv (send sk b d) = dev_inv d"
  by (rule dev_inv_cong) simp_all

lemma dev_inv_refresh [simp]: "dev_inv (refresh E d) = dev_inv d"
  by (rule dev_inv_cong) simp_all

lemma dev_inv_upd:
  assumes "dev_inv d" "k < length (pool d)" "sock (f (pool d ! k)) = sock (pool d ! k)"
    "session_wf (f (pool d ! k))" "session_agrees (plist d) (f (pool d ! k))"
  shows "dev_inv (upd k f d)"
  using assms by (simp add: dev_inv_def pool_inv_update list_all_updateI)

lemma dev_inv_nth:
  "dev_inv d \<Longrightarrow> k < length (pool d) \<Longrightarrow> session_wf (pool d ! k) \<and> session_agrees (plist d) (pool d ! k)"
  by (simp add: dev_inv_def pool_inv_nth list_all_length)

lemma dev_inv_push: "dev_inv d \<Longrightarrow> dev_inv (push_event E ev sub role d)"
  using push_spec(1) [of "events d" E "wall d" ev sub role "flash d"]
  by (auto simp: push_event_def dev_inv_def case_prod_beta)

lemma push_event_simps [simp]:
  "plist (push_event E ev sub role d) = plist d" "pw (push_event E ev sub role d) = pw d"
  "pool (push_event E ev sub role d) = pool d" "wire (push_event E ev sub role d) = wire d"
  "disc (push_event E ev sub role d) = disc d" "bcn (push_event E ev sub role d) = bcn d"
  "prov (push_event E ev sub role d) = prov d" "now_us (push_event E ev sub role d) = now_us d"
  "wall (push_event E ev sub role d) = wall d" "draws (push_event E ev sub role d) = draws d"
  by (simp_all add: push_event_def case_prod_beta)

text \<open>A change of the list that keeps every row and demotes no owner keeps the agreement.\<close>

lemma session_agrees_mono:
  assumes "session_agrees l s"
    "\<And>i e. paired_list_get l i = Some e \<Longrightarrow> \<exists>e'. paired_list_get l' i = Some e' \<and> (prole e = PAIRED_ROLE_OWNER \<longrightarrow> prole e' = PAIRED_ROLE_OWNER)"
  shows "session_agrees l' s"
proof (cases "0 \<le> paired_index s")
  case True
  then obtain e where e: "paired_list_get l (paired_index s) = Some e" "ls_role s = LS_ROLE_OWNER \<longrightarrow> prole e = PAIRED_ROLE_OWNER"
    using assms(1) by (auto simp: session_agrees_def split: option.splits)
  from assms(2) [OF e(1)] obtain e' where
    "paired_list_get l' (paired_index s) = Some e'" "prole e = PAIRED_ROLE_OWNER \<longrightarrow> prole e' = PAIRED_ROLE_OWNER" by blast
  with e(2) show ?thesis by (simp add: session_agrees_def)
qed simp

text \<open>A device that has just booted on an empty flash.\<close>

definition bench_dev :: "(flash, bench_srp) dev" where
  "bench_dev = \<lparr> flash = blank, plist = list_zero, pw = pw_zero, pool = local_session_init, events = queue_zero, disc = 1,
     bcn = beacon_zero, mdns = mdns_zero, prov = prov_zero, wire = [], now_us = 0, wall = 0, draws = 0 \<rparr>"

lemma bench_dev_inv: "dev_inv bench_dev"
  by (simp add: dev_inv_def bench_dev_def list_all_length local_session_init_def session_zero_def session_agrees_def)
    (simp add: pool_inv_init [unfolded local_session_init_def session_zero_def, simplified])

end
