(* ===== verification/Enc_Frame.thy ===== *)
theory Enc_Frame
  imports Device
begin

text \<open>
  Encrypted line framing, \<open>security/enc_frame.c\<close>. A line is its bytes without the trailing newline;
  the receive buffer behind it continues with the newline and a NUL. \<open>enc_frame_unwrap\<close> returns the
  line to dispatch, \<open>None\<close> when the frame is dropped. The transmit mutex makes
  \<open>enc_frame_send\<close> one step.

  Shown here: an honest peer's frames get through in both directions, and no counter is accepted or
  used twice under one key.
\<close>

abbreviation (input) ENC_FRAME_NONCE_LEN :: nat where "ENC_FRAME_NONCE_LEN \<equiv> 12"
abbreviation (input) ENC_FRAME_TAG_LEN :: nat where "ENC_FRAME_TAG_LEN \<equiv> 16"
abbreviation (input) ENC_FRAME_PLAIN_MAX :: nat where "ENC_FRAME_PLAIN_MAX \<equiv> 768"
abbreviation (input) ENC_FRAME_DIR_TO_DEV :: "32 word" where "ENC_FRAME_DIR_TO_DEV \<equiv> 1"
abbreviation (input) ENC_FRAME_DIR_TO_APP :: "32 word" where "ENC_FRAME_DIR_TO_APP \<equiv> 2"
abbreviation (input) TCP_RECEIVE_DATA_LENGTH :: nat where "TCP_RECEIVE_DATA_LENGTH \<equiv> 5120"

section \<open>The cipher call\<close>

text \<open>\<open>aead(true, ..)\<close>: ciphertext and tag; \<open>aead(false, ..)\<close>: the plaintext.\<close>

definition aead_encrypt :: "crypto_api \<Rightarrow> bytes \<Rightarrow> bytes \<Rightarrow> bytes \<Rightarrow> nat \<Rightarrow> bytes option" where
  "aead_encrypt c key nonce inp out_size =
    (if out_size < length inp + ENC_FRAME_TAG_LEN then None
     else map_option (\<lambda>(ct, tag). ct @ tag) (gcm_seal c key nonce inp))"

definition aead_decrypt :: "crypto_api \<Rightarrow> bytes \<Rightarrow> bytes \<Rightarrow> bytes \<Rightarrow> nat \<Rightarrow> bytes option" where
  "aead_decrypt c key nonce inp out_size =
    (let plain_len = length inp - ENC_FRAME_TAG_LEN in
     if length inp < ENC_FRAME_TAG_LEN \<or> out_size < plain_len then None
     else gcm_open c key nonce (take plain_len inp) (drop plain_len inp))"

definition session_keyed :: "'h local_session \<Rightarrow> bool" where
  "session_keyed s \<longleftrightarrow> ls_state s = LS_PAKE_OK \<or> ls_state s = LS_AUTH_OK"

section \<open>Receive\<close>

definition send_plain_err :: "int \<Rightarrow> bytes \<Rightarrow> ('n, 'h) dev \<Rightarrow> ('n, 'h) dev" where
  "send_plain_err sk text d = send sk (text @ [LF]) d"

text \<open>The body of the frame after \<open>ENC:\<close>: nonce and ciphertext with tag, or \<open>None\<close> when malformed.\<close>

definition split_frame :: "crypto_api \<Rightarrow> bytes \<Rightarrow> (bytes \<times> bytes) option" where
  "split_frame c body =
    (case split_at COMMA body of
       (_, None) \<Rightarrow> None
     | (f, Some r) \<Rightarrow>
         (case base64_decode c (ENC_FRAME_NONCE_LEN + 1) f of
            None \<Rightarrow> None
          | Some nonce \<Rightarrow>
              if length nonce \<noteq> ENC_FRAME_NONCE_LEN then None
              else (case base64_decode c TCP_RECEIVE_DATA_LENGTH r of
                  None \<Rightarrow> None
                | Some ct \<Rightarrow> if length ct < ENC_FRAME_TAG_LEN then None else Some (nonce, ct))))"

definition enc_frame_unwrap :: "('n, 'h) env \<Rightarrow> bytes \<Rightarrow> int \<Rightarrow> ('n, 'h) dev \<Rightarrow> bytes option \<times> ('n, 'h) dev" where
  "enc_frame_unwrap E line sk d =
    (let is_enc = (length line > 4 \<and> memcmp_eq line ''ENC:''); slot = local_session_find sk (pool d) in
     if \<not> is_enc then
       (Some line, case slot of Some k \<Rightarrow> upd k (\<lambda>s. s \<lparr> rx_encrypted := False \<rparr>) d | None \<Rightarrow> d)
     else
       case slot of
         None \<Rightarrow> (None, send_plain_err sk ''ERR:ENC'' d)
       | Some k \<Rightarrow>
           let s = slot_at k d in
           if \<not> session_keyed s then (None, send_plain_err sk ''ERR:ENC'' d)
           else
             (case split_frame (cry E) (drop 4 line) of
                None \<Rightarrow> (None, send_plain_err sk ''ERR:ENC'' d)
              | Some (nonce, ct) \<Rightarrow>
                  let plain_len = length ct - ENC_FRAME_TAG_LEN; ctr = get_u64 (drop 4 nonce) in
                  if get_u32 nonce \<noteq> ENC_FRAME_DIR_TO_DEV \<or> ctr \<le> rx_ctr s
                  then (None, send_plain_err sk ''ERR:ENC'' d)
                  else if plain_len > ENC_FRAME_PLAIN_MAX then (None, send_plain_err sk ''ERR:ENC'' d)
                  else
                    (case aead_decrypt (cry E) (skey s) nonce ct ENC_FRAME_PLAIN_MAX of
                       None \<Rightarrow> (None, send_plain_err sk ''ERR:ENC'' d)
                     | Some plain \<Rightarrow>
                         if length plain \<noteq> plain_len then (None, send_plain_err sk ''ERR:ENC'' d)
                         else (Some plain, upd k (\<lambda>s. s \<lparr> rx_ctr := ctr, rx_encrypted := True \<rparr>) d))))"

section \<open>Send\<close>

definition strip_eol :: "bytes \<Rightarrow> bytes" where
  "strip_eol p = rev (dropWhile (\<lambda>c. c = LF \<or> c = CR) (rev p))"

text \<open>The text of a frame; the buffer of 1072 bytes holds the largest one.\<close>

definition enc_text :: "crypto_api \<Rightarrow> bytes \<Rightarrow> bytes \<Rightarrow> bytes" where
  "enc_text c nonce ct = ''ENC:'' @ b64_encode c nonce @ [COMMA] @ b64_encode c ct"

definition enc_frame_send :: "('n, 'h) env \<Rightarrow> int \<Rightarrow> bytes \<Rightarrow> ('n, 'h) dev \<Rightarrow> ('n, 'h) dev" where
  "enc_frame_send E sk payload d =
    (case local_session_find sk (pool d) of
       None \<Rightarrow> send sk payload d
     | Some k \<Rightarrow>
         if \<not> session_keyed (slot_at k d) then send sk payload d
         else
           let plain = strip_eol payload in
           if length plain > ENC_FRAME_PLAIN_MAX then d
           else if \<not> session_keyed (slot_at k d) \<or> sock (slot_at k d) \<noteq> sk then d
           else
             let d = upd k (\<lambda>s. s \<lparr> tx_ctr := tx_ctr s + 1 \<rparr>) d;
                 nonce = put_u32 ENC_FRAME_DIR_TO_APP @ put_u64 (tx_ctr (slot_at k d))
             in case aead_encrypt (cry E) (skey (slot_at k d)) nonce plain (ENC_FRAME_PLAIN_MAX + ENC_FRAME_TAG_LEN) of
                  None \<Rightarrow> d
                | Some ct \<Rightarrow> send sk (enc_text (cry E) nonce ct @ [LF]) d)"

section \<open>What they keep\<close>

lemma send_plain_err_simps [simp]:
  "pool (send_plain_err sk t d) = pool d" "plist (send_plain_err sk t d) = plist d" "pw (send_plain_err sk t d) = pw d"
  "events (send_plain_err sk t d) = events d" "flash (send_plain_err sk t d) = flash d"
  "dev_inv (send_plain_err sk t d) = dev_inv d"
  by (simp_all add: send_plain_err_def)

text \<open>A rejected line leaves everything but the wire as it was; an accepted one touches its session only.\<close>

lemma unwrap_cases:
  obtains (plain) "\<not> (length line > 4 \<and> memcmp_eq line ''ENC:'')" "fst (enc_frame_unwrap E line sk d) = Some line"
      "snd (enc_frame_unwrap E line sk d) = (case local_session_find sk (pool d) of
         Some k \<Rightarrow> upd k (\<lambda>s. s \<lparr> rx_encrypted := False \<rparr>) d | None \<Rightarrow> d)"
  | (dropped) "enc_frame_unwrap E line sk d = (None, send_plain_err sk ''ERR:ENC'' d)"
  | (opened) k nonce ct plain where "length line > 4 \<and> memcmp_eq line ''ENC:''" "local_session_find sk (pool d) = Some k"
      "session_keyed (slot_at k d)" "split_frame (cry E) (drop 4 line) = Some (nonce, ct)"
      "get_u32 nonce = ENC_FRAME_DIR_TO_DEV" "rx_ctr (slot_at k d) < get_u64 (drop 4 nonce)"
      "aead_decrypt (cry E) (skey (slot_at k d)) nonce ct ENC_FRAME_PLAIN_MAX = Some plain"
      "length plain \<le> ENC_FRAME_PLAIN_MAX"
      "enc_frame_unwrap E line sk d =
        (Some plain, upd k (\<lambda>s. s \<lparr> rx_ctr := get_u64 (drop 4 nonce), rx_encrypted := True \<rparr>) d)"
proof (cases "length line > 4 \<and> memcmp_eq line ''ENC:''")
  case False
  then show thesis by (intro plain) (auto simp: enc_frame_unwrap_def Let_def)
next
  case enc: True
  show thesis
  proof (cases "local_session_find sk (pool d)")
    case None
    with enc show thesis by (intro dropped) (simp add: enc_frame_unwrap_def Let_def)
  next
    case (Some k)
    show thesis
    proof (cases "session_keyed (slot_at k d) \<and> split_frame (cry E) (drop 4 line) \<noteq> None")
      case False
      then have "session_keyed (slot_at k d) \<Longrightarrow> split_frame (cry E) (drop 4 line) = None" by blast
      with enc Some show thesis
        by (intro dropped) (simp only: enc_frame_unwrap_def Let_def option.case not_not simp_thms if_True if_False split: if_split, simp)
    next
      case True
      then obtain nonce ct where f: "split_frame (cry E) (drop 4 line) = Some (nonce, ct)" "session_keyed (slot_at k d)" by auto
      show thesis
      proof (cases "get_u32 nonce \<noteq> ENC_FRAME_DIR_TO_DEV \<or> get_u64 (drop 4 nonce) \<le> rx_ctr (slot_at k d) \<or>
          length ct - ENC_FRAME_TAG_LEN > ENC_FRAME_PLAIN_MAX")
        case True
        with enc Some f show thesis by (intro dropped) (auto simp: enc_frame_unwrap_def Let_def)
      next
        case ok: False
        show thesis
        proof (cases "aead_decrypt (cry E) (skey (slot_at k d)) nonce ct ENC_FRAME_PLAIN_MAX")
          case None
          with enc Some f ok show thesis by (intro dropped) (auto simp: enc_frame_unwrap_def Let_def)
        next
          case (Some plain)
          show thesis
          proof (cases "length plain = length ct - ENC_FRAME_TAG_LEN")
            case True
            with enc \<open>local_session_find sk (pool d) = Some k\<close> f ok Some show thesis
              by (intro opened [of k nonce ct plain]) (auto simp: enc_frame_unwrap_def Let_def)
          next
            case False
            with enc \<open>local_session_find sk (pool d) = Some k\<close> f ok Some show thesis
              by (intro dropped) (auto simp: enc_frame_unwrap_def Let_def)
          qed
        qed
      qed
    qed
  qed
qed

lemma session_wf_rx:
  "session_wf s \<Longrightarrow> session_wf (s \<lparr> rx_encrypted := b \<rparr>)"
  "session_wf s \<Longrightarrow> session_keyed s \<Longrightarrow> session_wf (s \<lparr> rx_ctr := c, rx_encrypted := b \<rparr>)"
  "session_wf s \<Longrightarrow> session_keyed s \<Longrightarrow> session_wf (s \<lparr> tx_ctr := c \<rparr>)"
  by (simp_all add: session_wf_def session_keyed_def split: local_session_state.splits)

lemma session_agrees_cong:
  "paired_index s' = paired_index s \<Longrightarrow> ls_role s' = ls_role s \<Longrightarrow> session_agrees l s' = session_agrees l s"
  by (simp add: session_agrees_def split: option.split)

lemma session_agrees_rx [simp]:
  "session_agrees l (s \<lparr> rx_encrypted := b \<rparr>) = session_agrees l s"
  "session_agrees l (s \<lparr> rx_ctr := c \<rparr>) = session_agrees l s"
  "session_agrees l (s \<lparr> tx_ctr := c' \<rparr>) = session_agrees l s"
  by (rule session_agrees_cong; simp)+

lemma dev_inv_unwrap:
  assumes "dev_inv d"
  shows "dev_inv (snd (enc_frame_unwrap E line sk d))"
proof (cases rule: unwrap_cases [of line E sk d])
  case plain
  show ?thesis
  proof (cases "local_session_find sk (pool d)")
    case (Some k)
    then have k: "k < length (pool d)" using find_SomeD by blast
    have "dev_inv (upd k (\<lambda>s. s \<lparr> rx_encrypted := False \<rparr>) d)"
      using dev_inv_nth [OF assms k] by (intro dev_inv_upd [OF assms k]) (simp_all add: session_wf_rx)
    with plain Some show ?thesis by simp
  qed (use plain assms in simp)
next
  case (opened k nonce ct pl)
  then have k: "k < length (pool d)" using find_SomeD by blast
  have "dev_inv (upd k (\<lambda>s. s \<lparr> rx_ctr := get_u64 (drop 4 nonce), rx_encrypted := True \<rparr>) d)"
  proof (rule dev_inv_upd [OF assms k])
    show "session_wf ((slot_at k d) \<lparr> rx_ctr := get_u64 (drop 4 nonce), rx_encrypted := True \<rparr>)"
      using dev_inv_nth [OF assms k] opened(3) by (intro session_wf_rx) simp_all
    show "session_agrees (plist d) ((slot_at k d) \<lparr> rx_ctr := get_u64 (drop 4 nonce), rx_encrypted := True \<rparr>)"
      using dev_inv_nth [OF assms k] by (subst session_agrees_cong [of _ "slot_at k d"]) simp_all
  qed simp
  with opened show ?thesis by simp
qed (use assms in simp)

text \<open>What a send changes: the wire, and the transmit counter of a keyed session.\<close>

lemma enc_send_cases:
  obtains (clear) "\<not> (\<exists>k. local_session_find sk (pool d) = Some k \<and> session_keyed (slot_at k d))"
      "enc_frame_send E sk payload d = send sk payload d"
  | (too_long) "enc_frame_send E sk payload d = d"
  | (failed) k where "local_session_find sk (pool d) = Some k" "session_keyed (slot_at k d)"
      "enc_frame_send E sk payload d = upd k (\<lambda>s. s \<lparr> tx_ctr := tx_ctr s + 1 \<rparr>) d"
  | (sealed) k ct where "local_session_find sk (pool d) = Some k" "session_keyed (slot_at k d)"
      "aead_encrypt (cry E) (skey (slot_at k d)) (put_u32 ENC_FRAME_DIR_TO_APP @ put_u64 (tx_ctr (slot_at k d) + 1))
        (strip_eol payload) (ENC_FRAME_PLAIN_MAX + ENC_FRAME_TAG_LEN) = Some ct"
      "enc_frame_send E sk payload d = send sk (enc_text (cry E)
        (put_u32 ENC_FRAME_DIR_TO_APP @ put_u64 (tx_ctr (slot_at k d) + 1)) ct @ [LF])
        (upd k (\<lambda>s. s \<lparr> tx_ctr := tx_ctr s + 1 \<rparr>) d)"
proof (cases "local_session_find sk (pool d)")
  case None
  then show thesis by (intro clear) (simp_all add: enc_frame_send_def)
next
  case (Some k)
  have k: "k < length (pool d)" "sock (slot_at k d) = sk" using find_SomeD [OF Some] by auto
  show thesis
  proof (cases "session_keyed (slot_at k d)")
    case False
    with Some show thesis by (intro clear) (simp_all add: enc_frame_send_def)
  next
    case keyed: True
    show thesis
    proof (cases "length (strip_eol payload) > ENC_FRAME_PLAIN_MAX")
      case True
      with Some keyed show thesis by (intro too_long) (simp add: enc_frame_send_def Let_def)
    next
      case False
      show thesis
      proof (cases "aead_encrypt (cry E) (skey (slot_at k d)) (put_u32 ENC_FRAME_DIR_TO_APP @ put_u64 (tx_ctr (slot_at k d) + 1))
        (strip_eol payload) (ENC_FRAME_PLAIN_MAX + ENC_FRAME_TAG_LEN)")
        case None
        with Some keyed False k show thesis by (intro failed [of k]) (simp_all add: enc_frame_send_def Let_def)
      next
        case (Some ct)
        with \<open>local_session_find sk (pool d) = Some k\<close> keyed False k show thesis
          by (intro sealed [of k ct]) (simp_all add: enc_frame_send_def Let_def)
      qed
    qed
  qed
qed

lemma enc_send_simps [simp]:
  "plist (enc_frame_send E sk p d) = plist d" "pw (enc_frame_send E sk p d) = pw d" "flash (enc_frame_send E sk p d) = flash d"
  "events (enc_frame_send E sk p d) = events d" "disc (enc_frame_send E sk p d) = disc d" "prov (enc_frame_send E sk p d) = prov d"
  "bcn (enc_frame_send E sk p d) = bcn d" "mdns (enc_frame_send E sk p d) = mdns d"
  "now_us (enc_frame_send E sk p d) = now_us d" "wall (enc_frame_send E sk p d) = wall d" "draws (enc_frame_send E sk p d) = draws d"
  by (rule enc_send_cases [of sk d E p]; simp)+

text \<open>Sessions after a send: equal up to the counter of the addressee.\<close>

lemma enc_send_pool:
  "pool (enc_frame_send E sk p d) = pool d \<or>
   (\<exists>k. local_session_find sk (pool d) = Some k \<and> session_keyed (slot_at k d) \<and>
      pool (enc_frame_send E sk p d) = (pool d)[k := (pool d ! k) \<lparr> tx_ctr := tx_ctr (pool d ! k) + 1 \<rparr>])"
  by (cases rule: enc_send_cases [of sk d E p]) simp_all

text \<open>A session seen through a send: every field but the counter is the same.\<close>

definition tx_only :: "'h local_session \<Rightarrow> 'h local_session \<Rightarrow> bool" where
  "tx_only s s' \<longleftrightarrow> s' = s \<lparr> tx_ctr := tx_ctr s' \<rparr> \<and> (tx_ctr s' = tx_ctr s \<or> session_keyed s)"

definition pool_tx :: "'h pool \<Rightarrow> 'h pool \<Rightarrow> bool" where
  "pool_tx p q \<longleftrightarrow> list_all2 tx_only p q"

lemma tx_only_refl [simp]: "tx_only s s"
  by (simp add: tx_only_def)

lemma tx_onlyD:
  assumes "tx_only s s'"
  shows "sock s' = sock s" "peer_ip s' = peer_ip s" "rx_len s' = rx_len s" "ls_state s' = ls_state s" "ls_role s' = ls_role s"
    "paired_index s' = paired_index s" "srp_ctx s' = srp_ctx s" "skey s' = skey s" "nonce_dev s' = nonce_dev s"
    "nonce_phone s' = nonce_phone s" "rx_ctr s' = rx_ctr s" "rx_encrypted s' = rx_encrypted s"
    "tx_ctr s' = tx_ctr s \<or> session_keyed s" "session_keyed s' = session_keyed s"
proof -
  have e: "s' = s \<lparr> tx_ctr := tx_ctr s' \<rparr>" "tx_ctr s' = tx_ctr s \<or> session_keyed s" using assms by (auto simp: tx_only_def)
  show "tx_ctr s' = tx_ctr s \<or> session_keyed s" by (rule e)
  show "sock s' = sock s" "peer_ip s' = peer_ip s" "rx_len s' = rx_len s" "ls_state s' = ls_state s" "ls_role s' = ls_role s"
    "paired_index s' = paired_index s" "srp_ctx s' = srp_ctx s" "skey s' = skey s" "nonce_dev s' = nonce_dev s"
    "nonce_phone s' = nonce_phone s" "rx_ctr s' = rx_ctr s" "rx_encrypted s' = rx_encrypted s" "session_keyed s' = session_keyed s"
    by (subst e(1), simp add: session_keyed_def)+
qed

lemma tx_only_trans: "tx_only a b \<Longrightarrow> tx_only b c \<Longrightarrow> tx_only a c"
proof -
  assume a: "tx_only a b" and b: "tx_only b c"
  from a have e: "b = a \<lparr> tx_ctr := tx_ctr b \<rparr>" by (simp add: tx_only_def)
  from b have "c = b \<lparr> tx_ctr := tx_ctr c \<rparr>" by (simp add: tx_only_def)
  also have "b \<lparr> tx_ctr := tx_ctr c \<rparr> = a \<lparr> tx_ctr := tx_ctr c \<rparr>" by (subst e) simp
  finally show "tx_only a c" using tx_onlyD(13,14) [OF a] tx_onlyD(13) [OF b] by (auto simp: tx_only_def)
qed

lemma pool_tx_refl [simp]: "pool_tx p p"
  by (simp add: pool_tx_def list.rel_refl)

lemma pool_tx_trans: "pool_tx p q \<Longrightarrow> pool_tx q r \<Longrightarrow> pool_tx p r"
  unfolding pool_tx_def using list_all2_trans [of tx_only tx_only tx_only p q r] tx_only_trans by blast

lemma pool_txD:
  "pool_tx p q \<Longrightarrow> length q = length p" "pool_tx p q \<Longrightarrow> k < length p \<Longrightarrow> tx_only (p ! k) (q ! k)"
  by (auto simp: pool_tx_def list_all2_lengthD list_all2_nthD)

lemma pool_tx_update: "pool_tx p q \<Longrightarrow> tx_only x y \<Longrightarrow> pool_tx (p[k := x]) (q[k := y])"
  by (simp add: pool_tx_def list_all2_update_cong)

lemma tx_only_unkeyed: "tx_only s s' \<Longrightarrow> \<not> session_keyed s \<Longrightarrow> s' = s"
  unfolding tx_only_def by (metis local_session.surjective local_session.update_convs(11))

lemma pool_tx_socks: "pool_tx p q \<Longrightarrow> map sock q = map sock p"
  by (intro nth_equalityI) (simp_all add: pool_txD(1) tx_onlyD(1) [OF pool_txD(2)])

lemma pool_tx_find: "pool_tx p q \<Longrightarrow> local_session_find sk q = local_session_find sk p"
  by (simp only: local_session_find_def index_of_sock pool_tx_socks)

lemma enc_send_pool_tx: "pool_tx (pool d) (pool (enc_frame_send E sk p d))"
proof -
  have "tx_only (pool d ! j) ((pool d)[k := (pool d ! k) \<lparr> tx_ctr := c \<rparr>] ! j)"
    if "session_keyed (slot_at k d)" "j < length (pool d)" for j k c
    using that by (cases "j = k") (simp_all add: tx_only_def)
  with enc_send_pool [of E sk p d] show ?thesis unfolding pool_tx_def by (auto simp: list_all2_conv_all_nth)
qed

lemma dev_inv_pool_tx:
  fixes d d' :: "('n, 'h) dev"
  assumes "dev_inv d" "pool_tx (pool d) (pool d')" "plist d' = plist d" "events d' = events d"
  shows "dev_inv d'"
proof -
  have w: "session_wf s' \<and> session_agrees l s'" if "session_wf s \<and> session_agrees l s" "tx_only s s'" for l and s s' :: "'h local_session"
  proof -
    have e: "s' = s \<lparr> tx_ctr := tx_ctr s' \<rparr>" "tx_ctr s' = tx_ctr s \<or> session_keyed s" using that(2) by (auto simp: tx_only_def)
    have "session_wf (s \<lparr> tx_ctr := tx_ctr s' \<rparr>)"
      using e(2)
    proof
      assume "tx_ctr s' = tx_ctr s"
      then show ?thesis using that(1) by simp
    qed (use that(1) in \<open>simp add: session_wf_rx\<close>)
    then have "session_wf (s \<lparr> tx_ctr := tx_ctr s' \<rparr>) \<and> session_agrees l (s \<lparr> tx_ctr := tx_ctr s' \<rparr>)" using that(1) by simp
    then show ?thesis unfolding e(1) [symmetric] .
  qed
  have "live_socks (pool d') = live_socks (pool d)" by (simp only: live_socks_def pool_tx_socks [OF assms(2)])
  moreover have "session_wf (pool d' ! i) \<and> session_agrees (plist d) (pool d' ! i)" if "i < length (pool d)" for i
    using w [OF dev_inv_nth [OF assms(1) that]] pool_txD(2) [OF assms(2) that] by blast
  ultimately show ?thesis
    using assms(1,3,4) pool_txD(1) [OF assms(2)] by (simp add: dev_inv_def pool_inv_def list_all_length)
qed

lemma dev_inv_enc_send: "dev_inv d \<Longrightarrow> dev_inv (enc_frame_send E sk p d)"
  by (rule dev_inv_pool_tx [OF _ enc_send_pool_tx]) simp_all

lemma length_pool_enc_send [simp]: "length (pool (enc_frame_send E sk p d)) = length (pool d)"
  using pool_txD(1) [OF enc_send_pool_tx] .

section \<open>An honest peer\<close>

text \<open>What the peer sends for a plaintext: the frame without its newline.\<close>

definition peer_frame :: "crypto_api \<Rightarrow> 32 word \<Rightarrow> 64 word \<Rightarrow> bytes \<Rightarrow> bytes" where
  "peer_frame c dir ctr ct = enc_text c (put_u32 dir @ put_u64 ctr) ct"

text \<open>What the peer makes of a frame it receives: counter and plaintext.\<close>

definition peer_open :: "crypto_api \<Rightarrow> bytes \<Rightarrow> 32 word \<Rightarrow> bytes \<Rightarrow> (64 word \<times> bytes) option" where
  "peer_open c key dir frame =
    (if \<not> memcmp_eq frame ''ENC:'' then None else
     case split_frame c (drop 4 (strip_eol frame)) of
       None \<Rightarrow> None
     | Some (nonce, ct) \<Rightarrow>
         if get_u32 nonce \<noteq> dir then None
         else map_option (\<lambda>p. (get_u64 (drop 4 nonce), p)) (aead_decrypt c key nonce ct ENC_FRAME_PLAIN_MAX))"

lemma split_frame_text:
  assumes "base64_lawful c" "length nonce = ENC_FRAME_NONCE_LEN" "ENC_FRAME_TAG_LEN \<le> length ct" "length ct \<le> TCP_RECEIVE_DATA_LENGTH"
  shows "split_frame c (drop 4 (enc_text c nonce ct)) = Some (nonce, ct)"
proof -
  have "split_at COMMA (b64_encode c nonce @ COMMA # b64_encode c ct) = (b64_encode c nonce, Some (b64_encode c ct))"
    by (rule split_at_some) (use b64_no_sep(1) [OF assms(1)] in simp)
  then show ?thesis using assms by (simp add: split_frame_def enc_text_def base64_decode_encode)
qed

lemma enc_text_prefix [simp]: "memcmp_eq (enc_text c nonce ct) ''ENC:''" "memcmp_eq (enc_text c nonce ct @ r) ''ENC:''"
  "length (enc_text c nonce ct) > 4"
  by (simp_all add: enc_text_def memcmp_eq_def)

lemma strip_eol_id: "p = [] \<or> last p \<noteq> LF \<and> last p \<noteq> CR \<Longrightarrow> strip_eol p = p"
  by (cases p rule: rev_cases) (auto simp: strip_eol_def)

lemma strip_eol_LF [simp]: "strip_eol (p @ [LF]) = strip_eol p"
  by (simp add: strip_eol_def)

lemma length_strip_eol: "length (strip_eol p) \<le> length p"
  using length_dropWhile_le [of "\<lambda>c. c = LF \<or> c = CR" "rev p"] by (simp add: strip_eol_def)

lemma strip_eol_enc_text [simp]: "base64_lawful c \<Longrightarrow> strip_eol (enc_text c nonce ct) = enc_text c nonce ct"
proof (rule strip_eol_id, rule disjI2)
  assume c: "base64_lawful c"
  show "last (enc_text c nonce ct) \<noteq> LF \<and> last (enc_text c nonce ct) \<noteq> CR"
  proof (cases "b64_encode c ct = []")
    case False
    then have "last (enc_text c nonce ct) \<in> set (b64_encode c ct)" by (simp add: enc_text_def)
    then show ?thesis using b64_no_sep [OF c, of ct] by auto
  qed (simp add: enc_text_def)
qed

lemma aead_roundtrip:
  assumes "gcm_lawful c" "aead_encrypt c key nonce p cap = Some ct" "length p \<le> cap'"
  shows "aead_decrypt c key nonce ct cap' = Some p \<and> length ct = length p + ENC_FRAME_TAG_LEN"
proof -
  obtain x tag where s: "gcm_seal c key nonce p = Some (x, tag)" "ct = x @ tag"
    using assms(2) by (auto simp: aead_encrypt_def split: if_splits)
  with gcm_lawfulD [OF assms(1) s(1)] assms(3) show ?thesis by (simp add: aead_decrypt_def)
qed

text \<open>A frame of the peer under the session's key, with a counter not seen before, is dispatched as its plaintext.\<close>

lemma unwrap_peer_frame:
  assumes "base64_lawful (cry E)" "gcm_lawful (cry E)" "local_session_find sk (pool d) = Some k" "session_keyed (slot_at k d)"
    "aead_encrypt (cry E) (skey (slot_at k d)) (put_u32 ENC_FRAME_DIR_TO_DEV @ put_u64 ctr) p cap = Some ct"
    "length p \<le> ENC_FRAME_PLAIN_MAX" "rx_ctr (slot_at k d) < ctr"
  shows "enc_frame_unwrap E (peer_frame (cry E) ENC_FRAME_DIR_TO_DEV ctr ct) sk d =
    (Some p, upd k (\<lambda>s. s \<lparr> rx_ctr := ctr, rx_encrypted := True \<rparr>) d)"
proof -
  let ?n = "put_u32 ENC_FRAME_DIR_TO_DEV @ put_u64 ctr"
  have a: "aead_decrypt (cry E) (skey (slot_at k d)) ?n ct ENC_FRAME_PLAIN_MAX = Some p" "length ct = length p + ENC_FRAME_TAG_LEN"
    using aead_roundtrip [OF assms(2,5,6)] by simp_all
  have f: "split_frame (cry E) (drop 4 (enc_text (cry E) ?n ct)) = Some (?n, ct)"
    using a(2) assms(6) by (intro split_frame_text [OF assms(1)]) simp_all
  show ?thesis using assms(3,4,6,7) a f by (simp add: enc_frame_unwrap_def peer_frame_def Let_def)
qed

text \<open>What a keyed session puts on the wire, the peer opens.\<close>

lemma send_peer_opens:
  assumes "base64_lawful (cry E)" "gcm_lawful (cry E)" "local_session_find sk (pool d) = Some k" "session_keyed (slot_at k d)"
    "length (strip_eol p) \<le> ENC_FRAME_PLAIN_MAX"
    "gcm_seal (cry E) (skey (slot_at k d)) (put_u32 ENC_FRAME_DIR_TO_APP @ put_u64 (tx_ctr (slot_at k d) + 1)) (strip_eol p) \<noteq> None"
  shows "\<exists>frame. wire (enc_frame_send E sk p d) = wire d @ [(sk, frame)] \<and>
    peer_open (cry E) (skey (slot_at k d)) ENC_FRAME_DIR_TO_APP frame = Some (tx_ctr (slot_at k d) + 1, strip_eol p)"
proof -
  let ?n = "put_u32 ENC_FRAME_DIR_TO_APP @ put_u64 (tx_ctr (slot_at k d) + 1)"
  have k: "k < length (pool d)" "sock (slot_at k d) = sk" using find_SomeD [OF assms(3)] by auto
  obtain ct where ct: "aead_encrypt (cry E) (skey (slot_at k d)) ?n (strip_eol p) (ENC_FRAME_PLAIN_MAX + ENC_FRAME_TAG_LEN) = Some ct"
    using assms(5,6) by (auto simp: aead_encrypt_def)
  note a = aead_roundtrip [OF assms(2) ct assms(5)]
  have f: "split_frame (cry E) (drop 4 (enc_text (cry E) ?n ct)) = Some (?n, ct)"
    using a assms(5) by (intro split_frame_text [OF assms(1)]) simp_all
  have "enc_frame_send E sk p d = send sk (enc_text (cry E) ?n ct @ [LF]) (upd k (\<lambda>s. s \<lparr> tx_ctr := tx_ctr s + 1 \<rparr>) d)"
    using assms(3,4,5) k ct by (simp add: enc_frame_send_def Let_def)
  moreover have "peer_open (cry E) (skey (slot_at k d)) ENC_FRAME_DIR_TO_APP (enc_text (cry E) ?n ct @ [LF]) =
      Some (tx_ctr (slot_at k d) + 1, strip_eol p)"
    using a f assms(1) by (simp add: peer_open_def)
  ultimately show ?thesis by simp
qed

section \<open>Counters over a run\<close>

text \<open>
  Lines received and lines sent, in any order and on any sockets. \<open>accepted_ctrs\<close> are the counters of
  the encrypted lines accepted on a socket, \<open>nonces_on_wire\<close> the nonces of the frames written to it.
\<close>

datatype frame_op = Rx int bytes | Tx int bytes

primrec frame_step :: "('n, 'h) env \<Rightarrow> frame_op \<Rightarrow> ('n, 'h) dev \<Rightarrow> ('n, 'h) dev" where
  "frame_step E (Rx sk line) d = snd (enc_frame_unwrap E line sk d)"
| "frame_step E (Tx sk payload) d = enc_frame_send E sk payload d"

primrec accepted_ctr :: "('n, 'h) env \<Rightarrow> int \<Rightarrow> frame_op \<Rightarrow> ('n, 'h) dev \<Rightarrow> 64 word list" where
  "accepted_ctr E sk (Rx sk' line) d =
    (if sk' = sk \<and> memcmp_eq line ''ENC:'' \<and> length line > 4 \<and> fst (enc_frame_unwrap E line sk d) \<noteq> None
     then (case split_frame (cry E) (drop 4 line) of Some (nonce, ct) \<Rightarrow> [get_u64 (drop 4 nonce)] | None \<Rightarrow> []) else [])"
| "accepted_ctr E sk (Tx sk' p) d = []"

primrec accepted_ctrs :: "('n, 'h) env \<Rightarrow> int \<Rightarrow> frame_op list \<Rightarrow> ('n, 'h) dev \<Rightarrow> 64 word list" where
  "accepted_ctrs E sk [] d = []"
| "accepted_ctrs E sk (x # xs) d = accepted_ctr E sk x d @ accepted_ctrs E sk xs (frame_step E x d)"

primrec frame_run :: "('n, 'h) env \<Rightarrow> frame_op list \<Rightarrow> ('n, 'h) dev \<Rightarrow> ('n, 'h) dev" where
  "frame_run E [] d = d"
| "frame_run E (x # xs) d = frame_run E xs (frame_step E x d)"

definition wire_nonce :: "crypto_api \<Rightarrow> bytes \<Rightarrow> bytes option" where
  "wire_nonce c b = (if memcmp_eq b ''ENC:'' then map_option fst (split_frame c (drop 4 (strip_eol b))) else None)"

definition nonces_on_wire :: "crypto_api \<Rightarrow> int \<Rightarrow> (int \<times> bytes) list \<Rightarrow> bytes list" where
  "nonces_on_wire c sk w = List.map_filter (\<lambda>(s, b). if s = sk then wire_nonce c b else None) w"

lemma nonces_on_wire_simps [simp]:
  "nonces_on_wire c sk [] = []" "nonces_on_wire c sk (v @ w) = nonces_on_wire c sk v @ nonces_on_wire c sk w"
  "s \<noteq> sk \<Longrightarrow> nonces_on_wire c sk [(s, b)] = []"
  by (simp_all add: nonces_on_wire_def List.map_filter_def)

lemma nonces_on_wire_one: "nonces_on_wire c sk [(sk, b)] = (case wire_nonce c b of None \<Rightarrow> [] | Some n \<Rightarrow> [n])"
  by (simp add: nonces_on_wire_def List.map_filter_def split: option.split)

lemma wire_nonce_err [simp]: "wire_nonce c (''ERR:ENC'' @ r) = None"
  by (simp add: wire_nonce_def memcmp_eq_def)

text \<open>One operation, seen from a keyed session.\<close>

lemma upd_seen:
  assumes "local_session_find sk (pool d) = Some k" "j < length (pool d)" "sock (f (slot_at j d)) = sock (slot_at j d)"
  shows "local_session_find sk (pool (upd j f d)) = Some k" "slot_at k (upd j f d) = (if j = k then f (slot_at k d) else slot_at k d)"
  using assms find_SomeD [OF assms(1)] by (auto simp: find_update_same)

definition keyed_at :: "int \<Rightarrow> nat \<Rightarrow> ('n, 'h) dev \<Rightarrow> bool" where
  "keyed_at sk k d \<longleftrightarrow> local_session_find sk (pool d) = Some k \<and> session_keyed (slot_at k d)"

definition app_nonce :: "64 word \<Rightarrow> bytes" where
  "app_nonce c = put_u32 ENC_FRAME_DIR_TO_APP @ put_u64 c"

lemma rx_step_seen:
  assumes "keyed_at sk k d"
  shows "\<exists>w. wire (frame_step E (Rx s line) d) = wire d @ w \<and> nonces_on_wire c sk w = []"
    "keyed_at sk k (frame_step E (Rx s line) d)" "tx_ctr (slot_at k (frame_step E (Rx s line) d)) = tx_ctr (slot_at k d)"
    "accepted_ctr E sk (Rx s line) d = [] \<and> rx_ctr (slot_at k (frame_step E (Rx s line) d)) = rx_ctr (slot_at k d) \<or>
     (\<exists>c. accepted_ctr E sk (Rx s line) d = [c] \<and> rx_ctr (slot_at k d) < c \<and> rx_ctr (slot_at k (frame_step E (Rx s line) d)) = c)"
proof -
  have f: "local_session_find sk (pool d) = Some k" "session_keyed (slot_at k d)" using assms by (auto simp: keyed_at_def)
  have "(\<exists>w. wire (frame_step E (Rx s line) d) = wire d @ w \<and> nonces_on_wire c sk w = []) \<and>
    keyed_at sk k (frame_step E (Rx s line) d) \<and> tx_ctr (slot_at k (frame_step E (Rx s line) d)) = tx_ctr (slot_at k d) \<and>
    (accepted_ctr E sk (Rx s line) d = [] \<and> rx_ctr (slot_at k (frame_step E (Rx s line) d)) = rx_ctr (slot_at k d) \<or>
     (\<exists>c. accepted_ctr E sk (Rx s line) d = [c] \<and> rx_ctr (slot_at k d) < c \<and> rx_ctr (slot_at k (frame_step E (Rx s line) d)) = c))"
    (is "?P")
  proof (cases rule: unwrap_cases [of line E s d])
    case plain
    show ?P
    proof (cases "local_session_find s (pool d)")
      case None
      with plain f show ?P by (auto simp: keyed_at_def)
    next
      case (Some j)
      have j: "j < length (pool d)" using Some find_SomeD by blast
      show ?P
        using plain Some f j upd_seen(1) [OF f(1) j, of "\<lambda>s. s \<lparr> rx_encrypted := False \<rparr>"]
        by (cases "j = k") (auto simp: keyed_at_def session_keyed_def)
    qed
  next
    case dropped
    have "nonces_on_wire c sk [(s, ''ERR:ENC'' @ [LF])] = []"
      by (cases "s = sk") (simp_all add: nonces_on_wire_one del: append.simps)
    with dropped f show ?P by (auto simp: keyed_at_def send_plain_err_def)
  next
    case (opened j nonce ct pl)
    have j: "j < length (pool d)" using opened(2) find_SomeD by blast
    have "s = sk \<longleftrightarrow> j = k" using opened(2) f(1) find_SomeD by (metis option.inject)
    then show ?P
      using opened f j upd_seen(1) [OF f(1) j, of "\<lambda>s. s \<lparr> rx_ctr := get_u64 (drop 4 nonce), rx_encrypted := True \<rparr>"]
      by (cases "j = k") (auto simp: keyed_at_def session_keyed_def)
  qed
  then show "\<exists>w. wire (frame_step E (Rx s line) d) = wire d @ w \<and> nonces_on_wire c sk w = []"
    "keyed_at sk k (frame_step E (Rx s line) d)" "tx_ctr (slot_at k (frame_step E (Rx s line) d)) = tx_ctr (slot_at k d)"
    "accepted_ctr E sk (Rx s line) d = [] \<and> rx_ctr (slot_at k (frame_step E (Rx s line) d)) = rx_ctr (slot_at k d) \<or>
     (\<exists>c. accepted_ctr E sk (Rx s line) d = [c] \<and> rx_ctr (slot_at k d) < c \<and> rx_ctr (slot_at k (frame_step E (Rx s line) d)) = c)"
    by blast+
qed

lemma tx_step_seen:
  assumes "keyed_at sk k d" "base64_lawful (cry E)" "gcm_lawful (cry E)"
  shows "keyed_at sk k (enc_frame_send E s p d) \<and> rx_ctr (slot_at k (enc_frame_send E s p d)) = rx_ctr (slot_at k d) \<and>
    (\<exists>w. wire (enc_frame_send E s p d) = wire d @ w \<and>
      (nonces_on_wire (cry E) sk w = [] \<and>
         (tx_ctr (slot_at k (enc_frame_send E s p d)) = tx_ctr (slot_at k d) \<or> tx_ctr (slot_at k (enc_frame_send E s p d)) = tx_ctr (slot_at k d) + 1) \<or>
       nonces_on_wire (cry E) sk w = [app_nonce (tx_ctr (slot_at k d) + 1)] \<and>
         tx_ctr (slot_at k (enc_frame_send E s p d)) = tx_ctr (slot_at k d) + 1))"
    (is "?P (enc_frame_send E s p d)")
proof -
  have f: "local_session_find sk (pool d) = Some k" "session_keyed (slot_at k d)" using assms by (auto simp: keyed_at_def)
  show ?thesis
  proof (cases rule: enc_send_cases [of s d E p])
    case clear
    then have "s \<noteq> sk" using f by auto
    with clear(2) f show ?thesis by (auto simp: keyed_at_def)
  next
    case too_long
    with f show ?thesis by (auto simp: keyed_at_def)
  next
    case (failed j)
    have j: "j < length (pool d)" using failed(1) find_SomeD by blast
    show ?thesis
      unfolding failed(3) using f j upd_seen(1) [OF f(1) j, of "\<lambda>s. s \<lparr> tx_ctr := tx_ctr s + 1 \<rparr>"]
      by (cases "j = k") (auto simp: keyed_at_def session_keyed_def)
  next
    case (sealed j ct)
    have j: "j < length (pool d)" using sealed(1) find_SomeD by blast
    have e: "s = sk \<longleftrightarrow> j = k" using sealed(1) f(1) find_SomeD by (metis option.inject)
    have "length ct = length (strip_eol p) + ENC_FRAME_TAG_LEN" "length (strip_eol p) + ENC_FRAME_TAG_LEN \<le> ENC_FRAME_PLAIN_MAX + ENC_FRAME_TAG_LEN"
      using aead_roundtrip [OF assms(3) sealed(3) order_refl] sealed(3) by (auto simp: aead_encrypt_def split: if_splits)
    then have "wire_nonce (cry E) (enc_text (cry E) (app_nonce (tx_ctr (slot_at j d) + 1)) ct @ [LF]) = Some (app_nonce (tx_ctr (slot_at j d) + 1))"
      using assms(2) by (simp add: wire_nonce_def split_frame_text app_nonce_def)
    then have "nonces_on_wire (cry E) sk [(s, enc_text (cry E) (app_nonce (tx_ctr (slot_at j d) + 1)) ct @ [LF])] =
        (if s = sk then [app_nonce (tx_ctr (slot_at k d) + 1)] else [])"
      using e by (cases "j = k") (simp_all add: nonces_on_wire_one)
    then show ?thesis
      unfolding sealed(4) app_nonce_def [symmetric]
      using f j e upd_seen(1) [OF f(1) j, of "\<lambda>s. s \<lparr> tx_ctr := tx_ctr s + 1 \<rparr>"]
      by (cases "j = k") (auto simp: keyed_at_def session_keyed_def)
  qed
qed

lemma counters_run:
  assumes "keyed_at sk k d" "base64_lawful (cry E)" "gcm_lawful (cry E)" "unat (tx_ctr (slot_at k d)) + length ops < 2 ^ 64"
  shows "sorted_wrt (<) (rx_ctr (slot_at k d) # accepted_ctrs E sk ops d) \<and>
    (\<exists>w cs. wire (frame_run E ops d) = wire d @ w \<and> nonces_on_wire (cry E) sk w = map (\<lambda>c. app_nonce (of_nat c)) cs \<and>
      sorted_wrt (<) (unat (tx_ctr (slot_at k d)) # cs) \<and> (\<forall>c \<in> set cs. c < 2 ^ 64))"
  using assms(1,4)
proof (induction ops arbitrary: d)
  case Nil
  show ?case by (intro conjI exI [of _ "[]"]) simp_all
next
  case (Cons x ops)
  let ?d = "frame_step E x d"
  have "keyed_at sk k ?d \<and>
    (accepted_ctr E sk x d = [] \<and> rx_ctr (slot_at k ?d) = rx_ctr (slot_at k d) \<or>
     (\<exists>c. accepted_ctr E sk x d = [c] \<and> rx_ctr (slot_at k d) < c \<and> rx_ctr (slot_at k ?d) = c)) \<and>
    (\<exists>w. wire ?d = wire d @ w \<and>
      (nonces_on_wire (cry E) sk w = [] \<and> (tx_ctr (slot_at k ?d) = tx_ctr (slot_at k d) \<or> tx_ctr (slot_at k ?d) = tx_ctr (slot_at k d) + 1) \<or>
       nonces_on_wire (cry E) sk w = [app_nonce (tx_ctr (slot_at k d) + 1)] \<and> tx_ctr (slot_at k ?d) = tx_ctr (slot_at k d) + 1))"
  proof (cases x)
    case (Rx s line)
    show ?thesis unfolding Rx using rx_step_seen [OF Cons.prems(1), of E s line] by blast
  next
    case (Tx s p)
    show ?thesis unfolding Tx using tx_step_seen [OF Cons.prems(1) assms(2,3), of s p] by simp
  qed
  then obtain w where k: "keyed_at sk k ?d" and w: "wire ?d = wire d @ w"
    and rx: "accepted_ctr E sk x d = [] \<and> rx_ctr (slot_at k ?d) = rx_ctr (slot_at k d) \<or>
      (\<exists>c. accepted_ctr E sk x d = [c] \<and> rx_ctr (slot_at k d) < c \<and> rx_ctr (slot_at k ?d) = c)"
    and tx: "nonces_on_wire (cry E) sk w = [] \<and> (tx_ctr (slot_at k ?d) = tx_ctr (slot_at k d) \<or> tx_ctr (slot_at k ?d) = tx_ctr (slot_at k d) + 1) \<or>
       nonces_on_wire (cry E) sk w = [app_nonce (tx_ctr (slot_at k d) + 1)] \<and> tx_ctr (slot_at k ?d) = tx_ctr (slot_at k d) + 1"
    by blast
  have bump: "unat (tx_ctr (slot_at k d) + 1) = unat (tx_ctr (slot_at k d)) + 1" using Cons.prems(2) by (intro unat_add_lem [THEN iffD1, THEN trans]) simp_all
  have "unat (tx_ctr (slot_at k ?d)) + length ops < 2 ^ 64" using Cons.prems(2) tx bump by auto
  from Cons.IH [OF k this] obtain v cs where
    acc: "sorted_wrt (<) (rx_ctr (slot_at k ?d) # accepted_ctrs E sk ops ?d)" and
    v: "wire (frame_run E ops ?d) = wire ?d @ v" "nonces_on_wire (cry E) sk v = map (\<lambda>c. app_nonce (of_nat c)) cs"
      "sorted_wrt (<) (unat (tx_ctr (slot_at k ?d)) # cs)" "\<forall>c \<in> set cs. c < 2 ^ 64"
    by blast
  have "sorted_wrt (<) (rx_ctr (slot_at k d) # accepted_ctrs E sk (x # ops) d)" using acc rx by auto
  moreover have "\<exists>ds. nonces_on_wire (cry E) sk (w @ v) = map (\<lambda>c. app_nonce (of_nat c)) ds \<and>
      sorted_wrt (<) (unat (tx_ctr (slot_at k d)) # ds) \<and> (\<forall>c \<in> set ds. c < 2 ^ 64)"
    using tx
  proof
    assume "nonces_on_wire (cry E) sk w = [] \<and> (tx_ctr (slot_at k ?d) = tx_ctr (slot_at k d) \<or> tx_ctr (slot_at k ?d) = tx_ctr (slot_at k d) + 1)"
    then show ?thesis using v bump by (intro exI [of _ cs]) (auto simp: Suc_le_eq)
  next
    assume "nonces_on_wire (cry E) sk w = [app_nonce (tx_ctr (slot_at k d) + 1)] \<and> tx_ctr (slot_at k ?d) = tx_ctr (slot_at k d) + 1"
    then show ?thesis using v bump Cons.prems(2) by (intro exI [of _ "(unat (tx_ctr (slot_at k d)) + 1) # cs"]) (auto simp: add.commute)
  qed
  ultimately show ?case using w v(1) by auto
qed

lemma app_nonce_inj:
  assumes "a < 2 ^ 64" "b < 2 ^ 64"
  shows "app_nonce (of_nat a) = app_nonce (of_nat b) \<longleftrightarrow> a = b"
proof -
  have "unat (of_nat a :: 64 word) = a" "unat (of_nat b :: 64 word) = b" using assms by (simp_all add: unat_of_nat)
  then have "(of_nat a :: 64 word) = of_nat b \<longleftrightarrow> a = b" by metis
  then show ?thesis by (simp add: app_nonce_def put_u64_inj)
qed

section \<open>Properties\<close>

text \<open>
  C7. A keyed session carries lines in both directions: a frame the peer made under the session's key for
  a plaintext of at most 768 bytes, with a counter above the last one accepted, is dispatched as exactly
  that plaintext, and the peer opens what \<open>enc_frame_send\<close> writes for a line of that length, with the
  next transmit counter, to the line without its end-of-line characters.\<close>

theorem enc_frame_roundtrip:
  assumes "base64_lawful (cry E)" "gcm_lawful (cry E)" "local_session_find sk (pool d) = Some k" "session_keyed (slot_at k d)"
  shows "(aead_encrypt (cry E) (skey (slot_at k d)) (put_u32 ENC_FRAME_DIR_TO_DEV @ put_u64 ctr) p cap = Some ct \<and>
      length p \<le> ENC_FRAME_PLAIN_MAX \<and> rx_ctr (slot_at k d) < ctr \<longrightarrow>
      (let (r, d') = enc_frame_unwrap E (peer_frame (cry E) ENC_FRAME_DIR_TO_DEV ctr ct) sk d
       in r = Some p \<and> rx_ctr (slot_at k d') = ctr \<and> rx_encrypted (slot_at k d'))) \<and>
    (length (strip_eol p) \<le> ENC_FRAME_PLAIN_MAX \<and>
      gcm_seal (cry E) (skey (slot_at k d)) (put_u32 ENC_FRAME_DIR_TO_APP @ put_u64 (tx_ctr (slot_at k d) + 1)) (strip_eol p) \<noteq> None \<longrightarrow>
      (\<exists>frame. wire (enc_frame_send E sk p d) = wire d @ [(sk, frame)] \<and>
        peer_open (cry E) (skey (slot_at k d)) ENC_FRAME_DIR_TO_APP frame = Some (tx_ctr (slot_at k d) + 1, strip_eol p)))"
  using unwrap_peer_frame [OF assms, of ctr p cap ct] send_peer_opens [OF assms, of p] find_SomeD [OF assms(3)]
  by simp

definition bench_keyed :: "(flash, bench_srp) dev" where
  "bench_keyed = bench_dev \<lparr> pool := session_zero \<lparr> sock := 5, ls_state := LS_PAKE_OK, skey := replicate 32 CHR ''K'' \<rparr> # replicate 7 session_zero \<rparr>"

lemma bench_keyed_simps [simp]:
  "local_session_find 5 (pool bench_keyed) = Some 0" "session_keyed (slot_at 0 bench_keyed)" "keyed_at 5 0 bench_keyed"
  "rx_ctr (slot_at 0 bench_keyed) = 0" "tx_ctr (slot_at 0 bench_keyed) = 0" "wire bench_keyed = []"
  by (simp_all add: bench_keyed_def bench_dev_def local_session_find_def session_keyed_def keyed_at_def session_zero_def)

lemma bench_seal: "length p \<le> ENC_FRAME_PLAIN_MAX \<Longrightarrow>
    aead_encrypt bench_crypto key nonce p (ENC_FRAME_PLAIN_MAX + ENC_FRAME_TAG_LEN) = Some (p @ pad_to 16 (nonce @ key))"
  "gcm_seal bench_crypto key nonce p \<noteq> None"
  by (simp_all add: aead_encrypt_def bench_crypto_def)

theorem enc_frame_roundtrip_witness:
  "\<exists>ct. fst (enc_frame_unwrap (bench True) (peer_frame bench_crypto ENC_FRAME_DIR_TO_DEV 1 ct) 5 bench_keyed) = Some ''LIST''"
  using enc_frame_roundtrip [of "bench True" 5 bench_keyed 0 1 "''LIST''" "ENC_FRAME_PLAIN_MAX + ENC_FRAME_TAG_LEN"]
    bench_base64_lawful bench_gcm_lawful bench_seal(1) [of "''LIST''"]
  by (auto simp: case_prod_beta)

text \<open>
  C6. Under one session key no counter is accepted twice and no nonce is used twice: over any
  sequence of lines received and lines sent, on whatever sockets, the counters of the encrypted lines
  accepted on a keyed session strictly increase from the last one accepted before, and the nonces of the
  frames written to its socket are pairwise different, unless the 64-bit transmit counter runs over.\<close>

theorem frame_counters_fresh:
  assumes "keyed_at sk k d" "base64_lawful (cry E)" "gcm_lawful (cry E)" "unat (tx_ctr (slot_at k d)) + length ops < 2 ^ 64"
  shows "sorted_wrt (<) (rx_ctr (slot_at k d) # accepted_ctrs E sk ops d) \<and>
    distinct (nonces_on_wire (cry E) sk (drop (length (wire d)) (wire (frame_run E ops d))))"
proof -
  from counters_run [OF assms] obtain w cs where w: "wire (frame_run E ops d) = wire d @ w"
    "nonces_on_wire (cry E) sk w = map (\<lambda>c. app_nonce (of_nat c)) cs" "sorted_wrt (<) cs" "\<forall>c \<in> set cs. c < 2 ^ 64"
    by auto
  have "distinct cs" using w(3) by (simp add: strict_sorted_iff)
  then have "distinct (map (\<lambda>c. app_nonce (of_nat c)) cs)"
    using w(4) app_nonce_inj by (auto simp: distinct_map inj_on_def)
  with w counters_run [OF assms] show ?thesis by auto
qed

theorem frame_counters_fresh_witness:
  "distinct (nonces_on_wire bench_crypto 5 (wire (frame_run (bench True) [Tx 5 ''ACK'', Rx 5 ''PING'', Tx 5 ''ACK''] bench_keyed)))"
  using frame_counters_fresh [of 5 0 bench_keyed "bench True" "[Tx 5 ''ACK'', Rx 5 ''PING'', Tx 5 ''ACK'']"]
    bench_base64_lawful bench_gcm_lawful
  by simp

end
