(* ===== verification/Pake_Handler.thy ===== *)
theory Pake_Handler
  imports Enc_Frame
begin

text \<open>
  Password pairing, \<open>security/pake_handler.c\<close>: the lines \<open>PAKE1\<close> and \<open>PAKE3\<close> of the SRP exchange. A
  handler gets the slot of its session. The \<open>esp_srp\<close> calls are parameters; freeing a handle is
  dropping it.
\<close>

abbreviation (input) SRP_BYTES_MAX :: nat where "SRP_BYTES_MAX \<equiv> 384"
abbreviation (input) SRP_PROOF_LEN :: nat where "SRP_PROOF_LEN \<equiv> 64"

section \<open>Replies\<close>

text \<open>A line of at most 62 bytes goes through \<open>enc_frame_send\<close>, a longer one directly to the socket, in two writes.\<close>

definition security_send_line :: "('n, 'h) env \<Rightarrow> int \<Rightarrow> bytes \<Rightarrow> ('n, 'h) dev \<Rightarrow> ('n, 'h) dev" where
  "security_send_line E sk text d =
    (if length (text @ [LF]) < 64 then enc_frame_send E sk (text @ [LF]) d
     else send sk [LF] (send sk text d))"

text \<open>The same \<open>send_err\<close> is in \<open>pake_handler.c\<close>, \<open>local_auth.c\<close> and \<open>owner_commands.c\<close>.\<close>

definition send_err :: "('n, 'h) env \<Rightarrow> int \<Rightarrow> bytes \<Rightarrow> ('n, 'h) dev \<Rightarrow> ('n, 'h) dev" where
  "send_err E sk code d = security_send_line E sk (snprintf_buf 32 (''ERR:'' @ code)) d"

section \<open>The exchange\<close>

definition decode_payload :: "crypto_api \<Rightarrow> bytes \<Rightarrow> bytes \<Rightarrow> nat \<Rightarrow> bytes option" where
  "decode_payload c line prefix out_size =
    (if length line \<le> length prefix then None
     else case base64_decode c out_size (drop (length prefix) line) of
         None \<Rightarrow> None
       | Some b \<Rightarrow> if length b = 0 then None else Some b)"

definition abort_pake :: "'h local_session \<Rightarrow> 'h local_session" where
  "abort_pake s = s \<lparr> srp_ctx := None, skey := replicate 32 NUL, ls_state := LS_NEW \<rparr>"

text \<open>The calls of \<open>esp_srp\<close> between \<open>esp_srp_init\<close> and the reply, each made only if those before it succeeded.\<close>

definition srp_setup :: "'h srp_api \<Rightarrow> nat \<Rightarrow> 'h \<Rightarrow> bytes \<Rightarrow> bytes \<Rightarrow> bytes \<Rightarrow> esp_err \<times> bytes option \<times> bytes option \<times> 'h" where
  "srp_setup api i h salt ver A =
    (let (err, h) = srp_set_salt_verifier api h salt ver;
         (err, B, h) = (if err = ESP_OK then srp_srv_pubkey api i h else (err, None, h));
         (err, K, h) = (if err = ESP_OK then srp_get_session_key api h A else (err, None, h))
     in (err, B, K, h))"

definition handle_pake1 :: "('n, 'h) env \<Rightarrow> nat \<Rightarrow> bytes \<Rightarrow> ('n, 'h) dev \<Rightarrow> ('n, 'h) dev" where
  "handle_pake1 E k line d =
    (let d = upd k local_session_reset_handshake d; sk = sock (slot_at k d);
         lock = device_password_lock_remaining_s (now_us d) (peer_ip (slot_at k d)) (pw d) in
     if lock > 0 then send_err E sk (snprintf_buf 24 (''LOCKED,'' @ dec_nat (unat lock))) d
     else case decode_payload (cry E) line ''PAKE1:'' SRP_BYTES_MAX of
         None \<Rightarrow> send_err E sk ''BADFMT'' d
       | Some A \<Rightarrow>
           let (got, p) = device_password_get E (draws d) (pw d); d = d \<lparr> pw := p, draws := draws d + 1 \<rparr> in
           case got of
             None \<Rightarrow> send_err E sk ''NOPW'' d
           | Some (salt, ver) \<Rightarrow>
               (case srp_init (srp E) (draws d) of
                  None \<Rightarrow> send_err E sk ''NOMEM'' d
                | Some h \<Rightarrow>
                    let (err, ob, ok, h) = srp_setup (srp E) (draws d) h salt ver A; d = d \<lparr> draws := draws d + 1 \<rparr> in
                    case (ob, ok) of
                      (Some B, Some K) \<Rightarrow>
                        if err \<noteq> ESP_OK \<or> length K < 32 \<or> length B > SRP_BYTES_MAX then send_err E sk ''NOMEM'' d
                        else
                          let reply = ''PAKE2:'' @ b64_encode (cry E) salt @ [COMMA] @ b64_encode (cry E) B;
                              d = upd k (\<lambda>s. s \<lparr> skey := take 32 K, srp_ctx := Some h, ls_state := LS_PAKE_WAIT_PROOF \<rparr>) d
                          in security_send_line E sk reply d
                    | _ \<Rightarrow> send_err E sk ''NOMEM'' d))"

definition handle_pake3 :: "('n, 'h) env \<Rightarrow> nat \<Rightarrow> bytes \<Rightarrow> ('n, 'h) dev \<Rightarrow> ('n, 'h) dev" where
  "handle_pake3 E k line d =
    (let s = slot_at k d; sk = sock s in
     case srp_ctx s of
       None \<Rightarrow> send_err E sk ''SEQ'' d
     | Some h \<Rightarrow>
         if ls_state s \<noteq> LS_PAKE_WAIT_PROOF then send_err E sk ''SEQ'' d
         else
           case decode_payload (cry E) line ''PAKE3:'' SRP_PROOF_LEN of
             None \<Rightarrow> send_err E sk ''BADFMT'' (upd k abort_pake d)
           | Some M1 \<Rightarrow>
               if length M1 \<noteq> SRP_PROOF_LEN then send_err E sk ''BADFMT'' (upd k abort_pake d)
               else
                 let (err, M2) = srp_exchange_proofs (srp E) h DEVICE_PW_SRP_IDENTITY M1 in
                 if err \<noteq> ESP_OK then
                   let (p, n) = device_password_note_failure E (now_us d) (peer_ip s) (pw d) (flash d);
                       d = upd k abort_pake (d \<lparr> pw := p, flash := n \<rparr>)
                   in send_err E sk ''BADPW'' d
                 else
                   let d = upd k (\<lambda>s. s \<lparr> srp_ctx := None \<rparr>) d;
                       (p, n) = device_password_note_success E (now_us d) (peer_ip s) (pw d) (flash d);
                       d = d \<lparr> pw := p, flash := n \<rparr>;
                       d = security_send_line E sk (''PAKE4:'' @ b64_encode (cry E) M2) d
                   in upd k (\<lambda>s. s \<lparr> tx_ctr := 0, rx_ctr := 0, ls_state := LS_PAKE_OK \<rparr>) d)"

text \<open>A handler of lines returns whether the line was one of its own.\<close>

definition pake_handle_line :: "('n, 'h) env \<Rightarrow> bytes \<Rightarrow> int \<Rightarrow> ('n, 'h) dev \<Rightarrow> bool \<times> ('n, 'h) dev" where
  "pake_handle_line E line sk d =
    (let is1 = memcmp_eq line ''PAKE1:''; is3 = memcmp_eq line ''PAKE3:'' in
     if \<not> is1 \<and> \<not> is3 then (False, d)
     else case local_session_find sk (pool d) of
         None \<Rightarrow> (True, send_err E sk ''NOSESSION'' d)
       | Some k \<Rightarrow> (True, if is1 then handle_pake1 E k line d else handle_pake3 E k line d))"

section \<open>What replies keep\<close>

lemma security_send_simps [simp]:
  "plist (security_send_line E sk t d) = plist d" "pw (security_send_line E sk t d) = pw d" "flash (security_send_line E sk t d) = flash d"
  "events (security_send_line E sk t d) = events d" "disc (security_send_line E sk t d) = disc d" "prov (security_send_line E sk t d) = prov d"
  "bcn (security_send_line E sk t d) = bcn d" "mdns (security_send_line E sk t d) = mdns d"
  "now_us (security_send_line E sk t d) = now_us d" "wall (security_send_line E sk t d) = wall d" "draws (security_send_line E sk t d) = draws d"
  "length (pool (security_send_line E sk t d)) = length (pool d)"
  by (simp_all add: security_send_line_def)

lemma security_send_pool: "pool_tx (pool d) (pool (security_send_line E sk t d))"
  by (simp add: security_send_line_def enc_send_pool_tx)

lemma security_send_find [simp]: "local_session_find s (pool (security_send_line E sk t d)) = local_session_find s (pool d)"
  by (rule pool_tx_find [OF security_send_pool])

lemma security_send_nth: "k < length (pool d) \<Longrightarrow> tx_only (slot_at k d) (slot_at k (security_send_line E sk t d))"
  by (rule pool_txD(2) [OF security_send_pool])

lemma dev_inv_security_send: "dev_inv d \<Longrightarrow> dev_inv (security_send_line E sk t d)"
  by (rule dev_inv_pool_tx [OF _ security_send_pool]) simp_all

lemma send_err_simps [simp]:
  "plist (send_err E sk t d) = plist d" "pw (send_err E sk t d) = pw d" "flash (send_err E sk t d) = flash d"
  "events (send_err E sk t d) = events d" "disc (send_err E sk t d) = disc d" "prov (send_err E sk t d) = prov d"
  "bcn (send_err E sk t d) = bcn d" "mdns (send_err E sk t d) = mdns d"
  "now_us (send_err E sk t d) = now_us d" "wall (send_err E sk t d) = wall d" "draws (send_err E sk t d) = draws d"
  "length (pool (send_err E sk t d)) = length (pool d)"
  "local_session_find s (pool (send_err E sk t d)) = local_session_find s (pool d)"
  by (simp_all add: send_err_def)

lemma send_err_pool: "pool_tx (pool d) (pool (send_err E sk t d))"
  by (simp add: send_err_def security_send_pool)

lemma send_err_nth: "k < length (pool d) \<Longrightarrow> tx_only (slot_at k d) (slot_at k (send_err E sk t d))"
  by (rule pool_txD(2) [OF send_err_pool])

lemma dev_inv_send_err: "dev_inv d \<Longrightarrow> dev_inv (send_err E sk t d)"
  by (simp add: send_err_def dev_inv_security_send)

section \<open>What the handlers do to the sessions\<close>

lemma pw_simps_get [simp]:
  "s_salt (snd (device_password_get E i p)) = s_salt p" "s_verifier (snd (device_password_get E i p)) = s_verifier p"
  by (simp_all add: device_password_get_def derive_initial_locked_def Let_def split: prod.split)

lemma pake1_simps [simp]:
  "plist (handle_pake1 E k line d) = plist d" "flash (handle_pake1 E k line d) = flash d" "events (handle_pake1 E k line d) = events d"
  "disc (handle_pake1 E k line d) = disc d" "prov (handle_pake1 E k line d) = prov d" "bcn (handle_pake1 E k line d) = bcn d"
  "mdns (handle_pake1 E k line d) = mdns d" "now_us (handle_pake1 E k line d) = now_us d" "wall (handle_pake1 E k line d) = wall d"
  by (simp_all add: handle_pake1_def Let_def split: option.split prod.split)

lemma pake1_verifier [simp]:
  "s_salt (pw (handle_pake1 E k line d)) = s_salt (pw d)" "s_verifier (pw (handle_pake1 E k line d)) = s_verifier (pw d)"
proof -
  obtain g p where g: "device_password_get E (draws d) (pw d) = (g, p)" by (cases "device_password_get E (draws d) (pw d)")
  then have "s_salt p = s_salt (pw d)" "s_verifier p = s_verifier (pw d)" using pw_simps_get [of E "draws d" "pw d"] by simp_all
  then show "s_salt (pw (handle_pake1 E k line d)) = s_salt (pw d)" "s_verifier (pw (handle_pake1 E k line d)) = s_verifier (pw d)"
    by (simp_all add: handle_pake1_def Let_def g split: option.split prod.split)
qed

lemma pool_tx_err: "pool d = p \<Longrightarrow> pool_tx p (pool (send_err E sk t d))"
  using send_err_pool by blast

lemma pool_tx_line: "pool d = p \<Longrightarrow> pool_tx p (pool (security_send_line E sk t d))"
  using security_send_pool by blast

lemma pake1_cases:
  assumes "k < length (pool d)"
  obtains (refused) "pool_tx ((pool d)[k := local_session_reset_handshake (slot_at k d)]) (pool (handle_pake1 E k line d))"
  | (waiting) K h where "32 \<le> length K" "pool_tx ((pool d)[k := (local_session_reset_handshake (slot_at k d))
       \<lparr> skey := take 32 K, srp_ctx := Some h, ls_state := LS_PAKE_WAIT_PROOF \<rparr>]) (pool (handle_pake1 E k line d))"
proof -
  let ?p = "pool (handle_pake1 E k line d)"
  have "pool_tx ((pool d)[k := local_session_reset_handshake (slot_at k d)]) ?p \<or> (\<exists>K h. 32 \<le> length K \<and>
      pool_tx ((pool d)[k := (local_session_reset_handshake (slot_at k d))
       \<lparr> skey := take 32 K, srp_ctx := Some h, ls_state := LS_PAKE_WAIT_PROOF \<rparr>]) ?p)"
  proof (cases "srp_init (srp E) (Suc (draws d))")
    case None
    then show ?thesis
      by (intro disjI1) (auto simp: handle_pake1_def Let_def intro!: pool_tx_err split: option.split prod.split)
  next
    case (Some h0)
    show ?thesis
      unfolding handle_pake1_def Let_def
      using assms Some
      by (force intro!: pool_tx_err pool_tx_line split: option.split prod.split)
  qed
  then show thesis using that by blast
qed

lemma note_failure_verifier [simp]:
  "s_salt (fst (device_password_note_failure E now ip p n)) = s_salt p"
  "s_verifier (fst (device_password_note_failure E now ip p n)) = s_verifier p"
  by (simp_all add: device_password_note_failure_def Let_def split: prod.split)

lemma note_success_verifier [simp]:
  "s_salt (fst (device_password_note_success E now ip p n)) = s_salt p"
  "s_verifier (fst (device_password_note_success E now ip p n)) = s_verifier p"
  by (simp_all add: device_password_note_success_def Let_def)

lemma pake3_simps [simp]:
  "plist (handle_pake3 E k line d) = plist d" "events (handle_pake3 E k line d) = events d"
  "disc (handle_pake3 E k line d) = disc d" "prov (handle_pake3 E k line d) = prov d" "bcn (handle_pake3 E k line d) = bcn d"
  "mdns (handle_pake3 E k line d) = mdns d" "now_us (handle_pake3 E k line d) = now_us d" "wall (handle_pake3 E k line d) = wall d"
  "s_salt (pw (handle_pake3 E k line d)) = s_salt (pw d)" "s_verifier (pw (handle_pake3 E k line d)) = s_verifier (pw d)"
  by (simp_all add: handle_pake3_def Let_def case_prod_beta split: option.split)

lemma pake3_cases:
  assumes "k < length (pool d)"
  obtains (refused) "pool_tx (pool d) (pool (handle_pake3 E k line d))"
  | (aborted) "ls_state (slot_at k d) = LS_PAKE_WAIT_PROOF" "pool_tx ((pool d)[k := abort_pake (slot_at k d)]) (pool (handle_pake3 E k line d))"
  | (proved) h M1 M2 where "ls_state (slot_at k d) = LS_PAKE_WAIT_PROOF" "srp_ctx (slot_at k d) = Some h"
      "decode_payload (cry E) line ''PAKE3:'' SRP_PROOF_LEN = Some M1" "length M1 = SRP_PROOF_LEN"
      "srp_exchange_proofs (srp E) h DEVICE_PW_SRP_IDENTITY M1 = (ESP_OK, M2)"
      "pool_tx ((pool d)[k := (slot_at k d) \<lparr> srp_ctx := None, tx_ctr := 0, rx_ctr := 0, ls_state := LS_PAKE_OK \<rparr>])
        (pool (handle_pake3 E k line d))"
proof (cases "srp_ctx (slot_at k d)")
  case None
  then show thesis by (intro refused) (simp add: handle_pake3_def Let_def pool_tx_err)
next
  case (Some h)
  show thesis
  proof (cases "ls_state (slot_at k d) = LS_PAKE_WAIT_PROOF")
    case False
    with Some show thesis by (intro refused) (simp add: handle_pake3_def Let_def pool_tx_err)
  next
    case wait: True
    show thesis
    proof (cases "\<exists>M1 M2. decode_payload (cry E) line ''PAKE3:'' SRP_PROOF_LEN = Some M1 \<and> length M1 = SRP_PROOF_LEN \<and>
        srp_exchange_proofs (srp E) h DEVICE_PW_SRP_IDENTITY M1 = (ESP_OK, M2)")
      case False
      then show thesis
        using Some wait by (intro aborted) (auto simp: handle_pake3_def Let_def intro!: pool_tx_err split: option.split prod.split)
    next
      case True
      then obtain M1 M2 where m: "decode_payload (cry E) line ''PAKE3:'' SRP_PROOF_LEN = Some M1" "length M1 = SRP_PROOF_LEN"
        "srp_exchange_proofs (srp E) h DEVICE_PW_SRP_IDENTITY M1 = (ESP_OK, M2)" by blast
      let ?p = "(pool d)[k := (slot_at k d) \<lparr> srp_ctx := None \<rparr>]"
      let ?n = "device_password_note_success E (now_us d) (peer_ip (slot_at k d)) (pw d) (flash d)"
      define d1 t where "d1 = (upd k (\<lambda>s. s \<lparr> srp_ctx := None \<rparr>) d) \<lparr> pw := fst ?n, flash := snd ?n \<rparr>"
        and "t = ''PAKE4:'' @ b64_encode (cry E) M2"
      then have d1: "pool d1 = ?p" "handle_pake3 E k line d =
          upd k (\<lambda>s. s \<lparr> tx_ctr := 0, rx_ctr := 0, ls_state := LS_PAKE_OK \<rparr>) (security_send_line E (sock (slot_at k d)) t d1)"
        using m Some wait by (simp_all add: handle_pake3_def Let_def case_prod_beta)
      have "slot_at k (security_send_line E (sock (slot_at k d)) t d1) = slot_at k d1"
        using assms wait d1(1) by (intro tx_only_unkeyed security_send_nth) (simp_all add: session_keyed_def)
      then have "pool (handle_pake3 E k line d) = (pool (security_send_line E (sock (slot_at k d)) t d1))
          [k := (slot_at k d) \<lparr> srp_ctx := None, tx_ctr := 0, rx_ctr := 0, ls_state := LS_PAKE_OK \<rparr>]"
        using assms by (simp add: d1)
      moreover have "pool_tx (?p[k := (slot_at k d) \<lparr> srp_ctx := None, tx_ctr := 0, rx_ctr := 0, ls_state := LS_PAKE_OK \<rparr>]) \<dots>"
        unfolding d1(1) [symmetric] by (rule pool_tx_update [OF security_send_pool tx_only_refl])
      ultimately show thesis using m Some wait by (intro proved [of h M1 M2]) simp_all
    qed
  qed
qed

lemma session_wf_wait:
  "session_wf s \<Longrightarrow> 0 \<le> sock s \<Longrightarrow> 32 \<le> length K \<Longrightarrow>
    session_wf ((local_session_reset_handshake s) \<lparr> skey := take 32 K, srp_ctx := Some h, ls_state := LS_PAKE_WAIT_PROOF \<rparr>)"
  by (simp add: session_wf_def local_session_reset_handshake_def)

lemma session_wf_abort: "session_wf s \<Longrightarrow> ls_state s = LS_PAKE_WAIT_PROOF \<Longrightarrow> session_wf (abort_pake s) \<and> paired_index (abort_pake s) = - 1"
  by (simp add: session_wf_def abort_pake_def) linarith

lemma session_wf_proved:
  "session_wf s \<Longrightarrow> ls_state s = LS_PAKE_WAIT_PROOF \<Longrightarrow>
    session_wf (s \<lparr> srp_ctx := None, tx_ctr := 0, rx_ctr := 0, ls_state := LS_PAKE_OK \<rparr>) \<and> paired_index s = - 1"
  by (simp add: session_wf_def) auto

text \<open>A handler that replaces its session by another one, and replies, keeps the invariant.\<close>

lemma dev_inv_replace:
  fixes d d' :: "('n, 'h) dev"
  assumes "dev_inv d" "k < length (pool d)" "pool_tx ((pool d)[k := s']) (pool d')" "plist d' = plist d" "events d' = events d"
    "sock s' = sock (slot_at k d)" "session_wf s'" "session_agrees (plist d) s'"
  shows "dev_inv d'"
proof -
  have "dev_inv (upd k (\<lambda>s. s') d)" using assms by (intro dev_inv_upd) simp_all
  then show ?thesis by (rule dev_inv_pool_tx) (use assms in simp_all)
qed

lemma dev_inv_pake1:
  assumes "dev_inv d" "k < length (pool d)" "0 \<le> sock (slot_at k d)"
  shows "dev_inv (handle_pake1 E k line d)"
proof -
  note w = dev_inv_nth [OF assms(1,2)]
  show ?thesis
  proof (cases rule: pake1_cases [OF assms(2), of E line, case_names refused waiting])
    case refused
    then show ?thesis by (rule dev_inv_replace [OF assms(1,2)]) (use w in simp_all)
  next
    case (waiting K h)
    show ?thesis by (rule dev_inv_replace [OF assms(1,2) waiting(2)]) (use w assms waiting(1) in \<open>simp_all add: session_wf_wait\<close>)
  qed
qed

lemma dev_inv_pake3:
  assumes "dev_inv d" "k < length (pool d)"
  shows "dev_inv (handle_pake3 E k line d)"
proof -
  note w = dev_inv_nth [OF assms(1,2)]
  show ?thesis
  proof (cases rule: pake3_cases [OF assms(2), of E line, case_names refused aborted proved])
    case refused
    then show ?thesis by (rule dev_inv_pool_tx [OF assms(1)]) simp_all
  next
    case aborted
    show ?thesis by (rule dev_inv_replace [OF assms aborted(2)]) (use w aborted(1) in \<open>simp_all add: session_wf_abort\<close>, simp add: abort_pake_def)
  next
    case (proved h M1 M2)
    show ?thesis by (rule dev_inv_replace [OF assms proved(6)]) (use w proved(1) in \<open>simp_all add: session_wf_proved\<close>)
  qed
qed

lemma dev_inv_pake: "dev_inv d \<Longrightarrow> dev_inv (snd (pake_handle_line E line sk d))"
  using find_SomeD [of sk "pool d"]
  by (auto simp: pake_handle_line_def Let_def dev_inv_send_err dev_inv_pake1 dev_inv_pake3 split: option.split)

end
