(* ===== verification/Local_Auth.thy ===== *)
theory Local_Auth
  imports Pake_Handler
begin

text \<open>
  Enrollment and reconnect authentication, \<open>security/local_auth.c\<close>: the lines \<open>ENROLL\<close>, \<open>AUTH1\<close> and
  \<open>AUTH3\<close>. \<open>hmac_sha256\<close> of the environment is \<open>mbedtls_md_hmac\<close> with SHA-256.

  Shown here: what \<open>AUTH1\<close> and \<open>AUTH3\<close> establish with a phone that holds the account's key, and what
  each handler does to the sessions and to the device's invariant.
\<close>

abbreviation (input) LOCAL_AUTH_NONCE_LEN :: nat where "LOCAL_AUTH_NONCE_LEN \<equiv> 16"
abbreviation (input) LOCAL_AUTH_MAC_LEN :: nat where "LOCAL_AUTH_MAC_LEN \<equiv> 32"
abbreviation (input) LOCAL_AUTH_HKDF_INFO :: bytes where "LOCAL_AUTH_HKDF_INFO \<equiv> ''cy-local-v1''"

section \<open>Cryptographic helpers\<close>

definition local_auth_hmac :: "crypto_api \<Rightarrow> bytes \<Rightarrow> bytes \<Rightarrow> bytes" where
  "local_auth_hmac c key msg = hmac_sha256 c key msg"

definition local_auth_hkdf32 :: "crypto_api \<Rightarrow> bytes \<Rightarrow> bytes \<Rightarrow> bytes \<Rightarrow> bytes" where
  "local_auth_hkdf32 c ikm salt info =
    (let prk = local_auth_hmac c salt ikm; block = take 63 info @ [CHR 0x01] in local_auth_hmac c prk block)"

definition local_auth_ct_equal :: "bytes \<Rightarrow> bytes \<Rightarrow> nat \<Rightarrow> bool" where
  "local_auth_ct_equal a b n =
    (fold (\<lambda>i d. or d (xor (word_of_byte (a ! i)) (word_of_byte (b ! i)))) [0..<n] (0 :: 8 word) = 0)"

definition auth_proof :: "crypto_api \<Rightarrow> bytes \<Rightarrow> bytes \<Rightarrow> bytes \<Rightarrow> bytes \<Rightarrow> bytes" where
  "auth_proof c key label f g =
    local_auth_hmac c key (take 3 label @ take LOCAL_AUTH_NONCE_LEN f @ take LOCAL_AUTH_NONCE_LEN g)"

section \<open>Line helpers\<close>

text \<open>The loop of \<open>decode_fields\<close>, one capacity per field; the results are the decoded fields.\<close>

fun decode_fields_loop :: "crypto_api \<Rightarrow> bytes \<Rightarrow> nat list \<Rightarrow> bytes list option" where
  "decode_fields_loop c p [] = Some []"
| "decode_fields_loop c p (cap # caps) =
    (let (f, rest) = split_at COMMA p in
     if caps \<noteq> [] \<and> rest = None then None
     else if caps = [] \<and> rest \<noteq> None then None
     else case base64_decode c cap f of
         None \<Rightarrow> None
       | Some b \<Rightarrow> map_option (Cons b) (decode_fields_loop c (case rest of Some r \<Rightarrow> r | None \<Rightarrow> []) caps))"

definition decode_fields :: "crypto_api \<Rightarrow> bytes \<Rightarrow> bytes \<Rightarrow> nat list \<Rightarrow> bytes list option" where
  "decode_fields c line prefix caps =
    (if length line \<le> length prefix then None else decode_fields_loop c (drop (length prefix) line) caps)"

definition count_fields :: "bytes \<Rightarrow> bytes \<Rightarrow> nat" where
  "count_fields line prefix =
    (if length line \<le> length prefix then 0
     else 1 + length (filter (\<lambda>x. x = COMMA) (drop (length prefix) line)))"

text \<open>The C string of a decoded field, if it is one without control characters.\<close>

definition to_cstr :: "bytes \<Rightarrow> nat \<Rightarrow> bytes option" where
  "to_cstr b out_size =
    (if length b = 0 \<or> length b \<ge> out_size then None
     else if list_ex (\<lambda>x. (of_char x :: nat) < 0x20 \<or> (of_char x :: nat) = 0x7f) b then None
     else Some b)"

definition now_unix :: "int \<Rightarrow> 32 word" where
  "now_unix t = (if t > 1600000000 then of_int t else 0)"

section \<open>ENROLL\<close>

definition strip_replace :: "bytes \<Rightarrow> bytes" where
  "strip_replace line =
    (if length line > 8 \<and> drop (length line - 8) line = '',replace'' then take (length line - 8) line else line)"

text \<open>The two texts of an \<open>ENROLL\<close> line, the account's sub and its label.\<close>

definition enroll_fields :: "crypto_api \<Rightarrow> bytes \<Rightarrow> (bytes \<times> bytes) option" where
  "enroll_fields c line =
    (let line = strip_replace line; nfields = count_fields line ''ENROLL:'' in
     if nfields \<noteq> 2 \<and> nfields \<noteq> 3 then None
     else case decode_fields c line ''ENROLL:'' (take nfields [41, 65, 41]) of
         None \<Rightarrow> None
       | Some fs \<Rightarrow>
           (case (to_cstr (fs ! 0) 41, to_cstr (fs ! 1) 65) of
              (Some sub, Some email) \<Rightarrow> Some (sub, email)
            | _ \<Rightarrow> None))"

definition role_text :: "nat \<Rightarrow> bytes" where
  "role_text role = (if role = PAIRED_ROLE_OWNER then ''owner'' else ''user'')"

definition handle_enroll :: "('n, 'h) env \<Rightarrow> nat \<Rightarrow> bytes \<Rightarrow> ('n, 'h) dev \<Rightarrow> ('n, 'h) dev" where
  "handle_enroll E k line d =
    (let s = slot_at k d; sk = sock s in
     if ls_state s \<noteq> LS_PAKE_OK \<or> \<not> rx_encrypted s then send_err E sk ''SEQ'' d
     else case enroll_fields (cry E) line of
         None \<Rightarrow> send_err E sk ''BADFMT'' d
       | Some (sub, email) \<Rightarrow>
           let key = fill_random (cry E) (draws d) PAIRED_KEY_LEN; d = d \<lparr> draws := draws d + 1 \<rparr>;
               (index, role, key, d) = paired_list_add E sub email key (now_unix (wall d)) d
           in if index < 0 then send_err E sk ''FULL'' d
              else
                let d = upd k (\<lambda>s. s \<lparr> paired_index := index,
                          ls_role := (if role = PAIRED_ROLE_OWNER then LS_ROLE_OWNER else LS_ROLE_USER) \<rparr>) d;
                    d = security_send_line E sk (''ENROLLED:'' @ b64_encode (cry E) key @ [COMMA] @ role_text role) d
                in push_event E ''paired'' sub (role_text role) d)"

section \<open>AUTH1 and AUTH3\<close>

text \<open>The sub and the phone's nonce of an \<open>AUTH1\<close> line.\<close>

definition auth1_fields :: "crypto_api \<Rightarrow> bytes \<Rightarrow> (bytes \<times> bytes) option" where
  "auth1_fields c line =
    (let nfields = count_fields line ''AUTH1:'' in
     if nfields \<noteq> 2 \<and> nfields \<noteq> 3 then None
     else case decode_fields c line ''AUTH1:'' (if nfields = 3 then [41, 41, 17] else [41, 17]) of
         None \<Rightarrow> None
       | Some fs \<Rightarrow>
           (case to_cstr (fs ! 0) 41 of
              None \<Rightarrow> None
            | Some sub \<Rightarrow> if length (fs ! (nfields - 1)) \<noteq> LOCAL_AUTH_NONCE_LEN then None else Some (sub, fs ! (nfields - 1))))"

definition handle_auth1 :: "('n, 'h) env \<Rightarrow> nat \<Rightarrow> bytes \<Rightarrow> ('n, 'h) dev \<Rightarrow> ('n, 'h) dev" where
  "handle_auth1 E k line d =
    (let d = upd k local_session_reset_handshake d; sk = sock (slot_at k d) in
     case auth1_fields (cry E) line of
       None \<Rightarrow> send_err E sk ''BADFMT'' d
     | Some (sub, np) \<Rightarrow>
         let index = paired_list_find (plist d) sub in
         case (if index < 0 then None else paired_list_get (plist d) index) of
           None \<Rightarrow> send_err E sk ''UNKNOWN'' d
         | Some entry \<Rightarrow>
             let nd = fill_random (cry E) (draws d) LOCAL_AUTH_NONCE_LEN; d = d \<lparr> draws := draws d + 1 \<rparr>;
                 d = upd k (\<lambda>s. s \<lparr> nonce_phone := np, nonce_dev := nd, skey := pkey entry, paired_index := index,
                                     ls_state := LS_AUTH_WAIT_PROOF \<rparr>) d;
                 mac = auth_proof (cry E) (pkey entry) ''dev'' np nd
             in security_send_line E sk (''AUTH2:'' @ b64_encode (cry E) nd @ [COMMA] @ b64_encode (cry E) mac) d)"

definition handle_auth3 :: "('n, 'h) env \<Rightarrow> nat \<Rightarrow> bytes \<Rightarrow> ('n, 'h) dev \<Rightarrow> ('n, 'h) dev" where
  "handle_auth3 E k line d =
    (let s = slot_at k d; sk = sock s in
     if ls_state s \<noteq> LS_AUTH_WAIT_PROOF then send_err E sk ''SEQ'' d
     else case decode_fields (cry E) line ''AUTH3:'' [33] of
         None \<Rightarrow> send_err E sk ''BADFMT'' d
       | Some fs \<Rightarrow>
           if length (fs ! 0) \<noteq> LOCAL_AUTH_MAC_LEN then send_err E sk ''BADFMT'' d
           else if \<not> local_auth_ct_equal (fs ! 0) (auth_proof (cry E) (skey s) ''phn'' (nonce_dev s) (nonce_phone s)) LOCAL_AUTH_MAC_LEN
           then send_err E sk ''BADAUTH''
                  (upd k (\<lambda>s. s \<lparr> skey := replicate 32 NUL, paired_index := - 1, ls_state := LS_NEW \<rparr>) d)
           else
             let k_session = local_auth_hkdf32 (cry E) (skey s) (nonce_phone s @ nonce_dev s) LOCAL_AUTH_HKDF_INFO;
                 role = (case paired_list_get (plist d) (paired_index s) of
                           Some e \<Rightarrow> if prole e = PAIRED_ROLE_OWNER then LS_ROLE_OWNER else LS_ROLE_USER
                         | None \<Rightarrow> LS_ROLE_USER);
                 d = upd k (\<lambda>s. s \<lparr> skey := k_session, ls_role := role \<rparr>) d;
                 d = security_send_line E sk (if role = LS_ROLE_OWNER then ''AUTHOK:owner'' else ''AUTHOK:user'') d
             in upd k (\<lambda>s. s \<lparr> tx_ctr := 0, rx_ctr := 0, ls_state := LS_AUTH_OK \<rparr>) d)"

definition local_auth_handle_line :: "('n, 'h) env \<Rightarrow> bytes \<Rightarrow> int \<Rightarrow> ('n, 'h) dev \<Rightarrow> bool \<times> ('n, 'h) dev" where
  "local_auth_handle_line E line sk d =
    (let is_enroll = memcmp_eq line ''ENROLL:''; is_auth1 = memcmp_eq line ''AUTH1:''; is_auth3 = memcmp_eq line ''AUTH3:'' in
     if \<not> is_enroll \<and> \<not> is_auth1 \<and> \<not> is_auth3 then (False, d)
     else case local_session_find sk (pool d) of
         None \<Rightarrow> (True, send_err E sk ''NOSESSION'' d)
       | Some k \<Rightarrow> (True, if is_enroll then handle_enroll E k line d
                        else if is_auth1 then handle_auth1 E k line d else handle_auth3 E k line d))"

section \<open>The helpers\<close>

lemma word_of_byte_inj: "(word_of_byte a :: 8 word) = word_of_byte b \<longleftrightarrow> a = b"
proof
  assume "(word_of_byte a :: 8 word) = word_of_byte b"
  then have "unat (word_of_byte a :: 8 word) = unat (word_of_byte b :: 8 word)" by simp
  moreover have "unat (word_of_byte x :: 8 word) = of_char x" for x
    using of_char_lt [of x] by (simp add: word_of_byte_def unat_of_nat)
  ultimately show "a = b" by simp
qed simp

lemma fold_or_zero: "fold (\<lambda>i d. or d (f i)) xs (a :: 8 word) = 0 \<longleftrightarrow> a = 0 \<and> (\<forall>i \<in> set xs. f i = 0)"
proof (induction xs arbitrary: a)
  case (Cons x xs)
  have "or a (f x) = 0 \<longleftrightarrow> a = 0 \<and> f x = 0" by (auto simp: or_eq_0_iff)
  with Cons show ?case by auto
qed simp

lemma xor_eq_0: "xor a b = 0 \<longleftrightarrow> a = (b :: 8 word)"
  by (auto simp: bit_eq_iff bit_xor_iff)

text \<open>The comparison without early exit decides equality of the first \<open>n\<close> bytes.\<close>

lemma ct_equal_iff:
  "n \<le> length a \<Longrightarrow> n \<le> length b \<Longrightarrow> local_auth_ct_equal a b n \<longleftrightarrow> take n a = take n b"
  by (auto simp: local_auth_ct_equal_def fold_or_zero xor_eq_0 word_of_byte_inj list_eq_iff_nth_eq)

lemma auth1_fields_nonce: "auth1_fields c line = Some (sub, np) \<Longrightarrow> length np = 16"
  by (auto simp: auth1_fields_def Let_def split: option.splits if_splits)

section \<open>What the handlers do\<close>

lemma add_dev:
  assumes "paired_list_add E sub email key at d = (idx, role, key', d')"
  shows "paired_list_add_locked E sub email key at (plist d) (flash d) = (idx, role, key', plist d', flash d')"
    "pool d' = pool d" "pw d' = pw d" "events d' = events d" "disc d' = disc d" "prov d' = prov d" "bcn d' = bcn d"
    "wire d' = wire d" "now_us d' = now_us d" "wall d' = wall d" "draws d' = draws d"
  using assms by (auto simp: paired_list_add_def Let_def split: prod.splits if_splits)

lemma auth1_simps [simp]:
  "plist (handle_auth1 E k line d) = plist d" "pw (handle_auth1 E k line d) = pw d" "flash (handle_auth1 E k line d) = flash d"
  "events (handle_auth1 E k line d) = events d" "disc (handle_auth1 E k line d) = disc d" "prov (handle_auth1 E k line d) = prov d"
  "bcn (handle_auth1 E k line d) = bcn d" "mdns (handle_auth1 E k line d) = mdns d"
  "now_us (handle_auth1 E k line d) = now_us d" "wall (handle_auth1 E k line d) = wall d"
  by (simp_all add: handle_auth1_def Let_def split: option.split)

lemma auth3_simps [simp]:
  "plist (handle_auth3 E k line d) = plist d" "pw (handle_auth3 E k line d) = pw d" "flash (handle_auth3 E k line d) = flash d"
  "events (handle_auth3 E k line d) = events d" "disc (handle_auth3 E k line d) = disc d" "prov (handle_auth3 E k line d) = prov d"
  "bcn (handle_auth3 E k line d) = bcn d" "mdns (handle_auth3 E k line d) = mdns d"
  "now_us (handle_auth3 E k line d) = now_us d" "wall (handle_auth3 E k line d) = wall d"
  by (simp_all add: handle_auth3_def Let_def split: option.split)

lemma enroll_simps [simp]:
  "pw (handle_enroll E k line d) = pw d" "disc (handle_enroll E k line d) = disc d" "prov (handle_enroll E k line d) = prov d"
  "bcn (handle_enroll E k line d) = bcn d" "now_us (handle_enroll E k line d) = now_us d" "wall (handle_enroll E k line d) = wall d"
  by (auto simp: handle_enroll_def Let_def split: option.split prod.split dest: add_dev)

text \<open>The session after a challenge, and after a proof that was accepted.\<close>

definition challenged :: "bytes \<Rightarrow> bytes \<Rightarrow> paired_entry \<Rightarrow> int \<Rightarrow> 'h local_session \<Rightarrow> 'h local_session" where
  "challenged np nd e i s = (local_session_reset_handshake s)
     \<lparr> nonce_phone := np, nonce_dev := nd, skey := pkey e, paired_index := i, ls_state := LS_AUTH_WAIT_PROOF \<rparr>"

definition row_role :: "paired_list \<Rightarrow> int \<Rightarrow> local_session_role" where
  "row_role l i = (case paired_list_get l i of
     Some e \<Rightarrow> if prole e = PAIRED_ROLE_OWNER then LS_ROLE_OWNER else LS_ROLE_USER | None \<Rightarrow> LS_ROLE_USER)"

definition authenticated_session :: "crypto_api \<Rightarrow> paired_list \<Rightarrow> 'h local_session \<Rightarrow> 'h local_session" where
  "authenticated_session c l s = s \<lparr> skey := local_auth_hkdf32 c (skey s) (nonce_phone s @ nonce_dev s) LOCAL_AUTH_HKDF_INFO,
     ls_role := row_role l (paired_index s), tx_ctr := 0, rx_ctr := 0, ls_state := LS_AUTH_OK \<rparr>"

lemma authenticated_session_simps:
  "ls_state (authenticated_session c l s) = LS_AUTH_OK" "ls_role (authenticated_session c l s) = row_role l (paired_index s)"
  "sock (authenticated_session c l s) = sock s" "paired_index (authenticated_session c l s) = paired_index s"
  by (simp_all add: authenticated_session_def)

lemma auth1_cases:
  obtains (refused) "pool_tx ((pool d)[k := local_session_reset_handshake (slot_at k d)]) (pool (handle_auth1 E k line d))"
  | (challenge) sub np i e where "auth1_fields (cry E) line = Some (sub, np)" "paired_list_find (plist d) sub = i"
      "paired_list_get (plist d) i = Some e"
      "pool_tx ((pool d)[k := challenged np (fill_random (cry E) (draws d) 16) e i (slot_at k d)]) (pool (handle_auth1 E k line d))"
proof (cases "auth1_fields (cry E) line")
  case None
  then show thesis by (intro refused) (simp add: handle_auth1_def Let_def pool_tx_err)
next
  case (Some sn)
  obtain sub np where sn: "sn = (sub, np)" by fastforce
  define i where "i = paired_list_find (plist d) sub"
  show thesis
  proof (cases "i < 0 \<or> paired_list_get (plist d) i = None")
    case True
    then show thesis using Some sn by (intro refused) (auto simp: handle_auth1_def Let_def i_def [symmetric] pool_tx_err)
  next
    case False
    then obtain e where e: "paired_list_get (plist d) i = Some e" by blast
    show thesis
    proof (rule challenge [of sub np i e])
      show "pool_tx ((pool d)[k := challenged np (fill_random (cry E) (draws d) 16) e i (slot_at k d)]) (pool (handle_auth1 E k line d))"
        using Some sn e False
        by (cases "k < length (pool d)") (auto simp: handle_auth1_def Let_def i_def [symmetric] challenged_def list_update_beyond intro!: pool_tx_line)
    qed (use Some sn e i_def in simp_all)
  qed
qed

lemma auth3_cases:
  obtains (refused) "pool_tx (pool d) (pool (handle_auth3 E k line d))"
  | (rejected) "ls_state (slot_at k d) = LS_AUTH_WAIT_PROOF" "pool_tx ((pool d)[k := (slot_at k d) \<lparr> skey := replicate 32 NUL,
      paired_index := - 1, ls_state := LS_NEW \<rparr>]) (pool (handle_auth3 E k line d))"
  | (accepted) mac where "ls_state (slot_at k d) = LS_AUTH_WAIT_PROOF" "decode_fields (cry E) line ''AUTH3:'' [33] = Some [mac]"
      "length mac = LOCAL_AUTH_MAC_LEN"
      "local_auth_ct_equal mac (auth_proof (cry E) (skey (slot_at k d)) ''phn'' (nonce_dev (slot_at k d)) (nonce_phone (slot_at k d))) LOCAL_AUTH_MAC_LEN"
      "pool_tx ((pool d)[k := authenticated_session (cry E) (plist d) (slot_at k d)]) (pool (handle_auth3 E k line d))"
proof (cases "ls_state (slot_at k d) = LS_AUTH_WAIT_PROOF")
  case False
  then show thesis by (intro refused) (simp add: handle_auth3_def Let_def pool_tx_err)
next
  case wait: True
  let ?s = "slot_at k d"
  show thesis
  proof (cases "decode_fields (cry E) line ''AUTH3:'' [33]")
    case None
    then show thesis using wait by (intro refused) (simp add: handle_auth3_def Let_def pool_tx_err)
  next
    case (Some fs)
    then obtain mac where fs: "fs = [mac]"
      by (auto simp: decode_fields_def split: if_splits prod.splits option.splits)
    show thesis
    proof (cases "length mac = 32")
      case False
      then show thesis using wait Some fs by (intro refused) (simp add: handle_auth3_def Let_def pool_tx_err)
    next
      case len: True
      show thesis
      proof (cases "local_auth_ct_equal mac (auth_proof (cry E) (skey ?s) ''phn'' (nonce_dev ?s) (nonce_phone ?s)) 32")
        case False
        then show thesis using wait Some fs len
          by (intro rejected) (simp_all add: handle_auth3_def Let_def pool_tx_err)
      next
        case True
        define d1 t where "d1 = upd k (\<lambda>s. s \<lparr> skey := local_auth_hkdf32 (cry E) (skey s) (nonce_phone s @ nonce_dev s) LOCAL_AUTH_HKDF_INFO,
            ls_role := row_role (plist d) (paired_index s) \<rparr>) d"
          and "t = (if row_role (plist d) (paired_index ?s) = LS_ROLE_OWNER then ''AUTHOK:owner'' else ''AUTHOK:user'')"
        then have d1: "handle_auth3 E k line d =
            upd k (\<lambda>s. s \<lparr> tx_ctr := 0, rx_ctr := 0, ls_state := LS_AUTH_OK \<rparr>) (security_send_line E (sock ?s) t d1)"
          using wait Some fs len True by (simp add: handle_auth3_def Let_def row_role_def upd_def)
        have "pool_tx ((pool d)[k := authenticated_session (cry E) (plist d) ?s]) (pool (handle_auth3 E k line d))"
          if k: "k < length (pool d)"
        proof -
          have "slot_at k (security_send_line E (sock ?s) t d1) = slot_at k d1"
            using k wait by (intro tx_only_unkeyed security_send_nth) (simp_all add: session_keyed_def d1_def)
          then have p: "pool (handle_auth3 E k line d) = (pool (security_send_line E (sock ?s) t d1))[k := authenticated_session (cry E) (plist d) ?s]"
            using k by (simp add: d1 authenticated_session_def) (simp add: d1_def)
          have "pool_tx ((pool d1)[k := authenticated_session (cry E) (plist d) ?s]) (pool (handle_auth3 E k line d))"
            unfolding p by (rule pool_tx_update [OF security_send_pool tx_only_refl])
          then show ?thesis by (simp add: d1_def)
        qed
        moreover have "pool_tx ((pool d)[k := authenticated_session (cry E) (plist d) ?s]) (pool (handle_auth3 E k line d))"
          if "\<not> k < length (pool d)"
          using that by (simp add: d1 list_update_beyond) (simp add: d1_def list_update_beyond pool_tx_line)
        ultimately show thesis using wait Some fs len True by (intro accepted [of mac]) blast+
      qed
    qed
  qed
qed

text \<open>Enrollment: either nothing but a reply, or the session now names the account's row.\<close>

definition enrolled :: "int \<Rightarrow> nat \<Rightarrow> 'h local_session \<Rightarrow> 'h local_session" where
  "enrolled i role s = s \<lparr> paired_index := i, ls_role := (if role = PAIRED_ROLE_OWNER then LS_ROLE_OWNER else LS_ROLE_USER) \<rparr>"

lemma enrolled_sock: "sock (enrolled i role s) = sock s"
  by (simp add: enrolled_def)

lemma enroll_cases:
  obtains (refused) "pool_tx (pool d) (pool (handle_enroll E k line d))" "plist (handle_enroll E k line d) = plist d"
      "events (handle_enroll E k line d) = events d"
  | (full) sub email i role key l n where "ls_state (slot_at k d) = LS_PAKE_OK" "rx_encrypted (slot_at k d)" "i < 0"
      "paired_list_add_locked E sub email (fill_random (cry E) (draws d) 32) (now_unix (wall d)) (plist d) (flash d) = (i, role, key, l, n)"
      "pool_tx (pool d) (pool (handle_enroll E k line d))" "plist (handle_enroll E k line d) = l"
      "events (handle_enroll E k line d) = events d"
  | (enrolled) sub email i role key l n where "ls_state (slot_at k d) = LS_PAKE_OK" "rx_encrypted (slot_at k d)"
      "enroll_fields (cry E) line = Some (sub, email)" "\<not> i < 0"
      "paired_list_add_locked E sub email (fill_random (cry E) (draws d) 32) (now_unix (wall d)) (plist d) (flash d) = (i, role, key, l, n)"
      "pool_tx ((pool d)[k := enrolled i role (slot_at k d)]) (pool (handle_enroll E k line d))" "plist (handle_enroll E k line d) = l"
      "events (handle_enroll E k line d) = fst (pairing_events_push E (wall d) ''paired'' sub (role_text role) (events d) n)"
proof (cases "ls_state (slot_at k d) = LS_PAKE_OK \<and> rx_encrypted (slot_at k d)")
  case False
  then show thesis by (intro refused) (auto simp: handle_enroll_def Let_def intro!: pool_tx_err)
next
  case ok: True
  show thesis
  proof (cases "enroll_fields (cry E) line")
    case None
    with ok show thesis by (intro refused) (auto simp: handle_enroll_def Let_def intro!: pool_tx_err)
  next
    case (Some se)
    obtain sub email where se: "se = (sub, email)" by fastforce
    obtain i role key d1 where a: "paired_list_add E sub email (fill_random (cry E) (draws d) 32) (now_unix (wall d)) (d \<lparr> draws := draws d + 1 \<rparr>)
        = (i, role, key, d1)" by (metis prod_cases4)
    note ad = add_dev [OF a]
    show thesis
    proof (cases "i < 0")
      case True
      show thesis
        by (rule full [of i sub email role key "plist d1" "flash d1"])
          (use ok Some se a ad True in \<open>auto simp: handle_enroll_def Let_def intro!: pool_tx_err\<close>)
    next
      case False
      show thesis
        by (rule enrolled [of sub email i role key "plist d1" "flash d1"])
          (use ok Some se a ad False in \<open>auto simp: handle_enroll_def enrolled_def push_event_def Let_def case_prod_beta intro!: pool_tx_line\<close>)
    qed
  qed
qed

section \<open>The invariant\<close>

lemma cry_sizedD [simp]: "cry_sized c \<Longrightarrow> length (fill_random c i n) = n" "cry_sized c \<Longrightarrow> length (hmac_sha256 c k m) = 32"
  by (simp_all add: cry_sized_def)

lemma list_ok_key: "list_ok l \<Longrightarrow> paired_list_get l i = Some e \<Longrightarrow> length (pkey e) = 32"
  using entry_wf_nth [of l "nat i"] by (auto simp: list_ok_def paired_list_get_Some entry_wf_def paired_inv_def)

text \<open>The invariant after a change of the list that keeps the sessions in agreement.\<close>

lemma dev_inv_relist:
  fixes d d' :: "('n, 'h) dev"
  assumes "dev_inv d" "pool_tx (pool d) (pool d')" "list_ok (plist d')" "queue_inv (events d')"
    "\<And>s :: 'h local_session. session_agrees (plist d) s \<Longrightarrow> session_agrees (plist d') s"
  shows "dev_inv d'"
proof -
  have "dev_inv (d \<lparr> plist := plist d', events := events d' \<rparr>)"
    using assms(1,3,4,5) by (auto simp: dev_inv_def list_all_iff)
  then show ?thesis by (rule dev_inv_pool_tx) (use assms(2) in simp_all)
qed

lemma dev_inv_auth1:
  assumes "dev_inv d" "k < length (pool d)" "0 \<le> sock (slot_at k d)" "cry_sized (cry E)"
  shows "dev_inv (handle_auth1 E k line d)"
proof -
  note w = dev_inv_nth [OF assms(1,2)]
  show ?thesis
  proof (cases rule: auth1_cases [of d k E line])
    case refused
    then show ?thesis by (rule dev_inv_replace [OF assms(1,2)]) (use w in simp_all)
  next
    case (challenge sub np i e)
    have i: "0 \<le> i" using challenge(3) by (simp add: paired_list_get_Some)
    have "length (pkey e) = 32" using list_ok_key [OF dev_invD(2) [OF assms(1)] challenge(3)] .
    then have "session_wf (challenged np (fill_random (cry E) (draws d) 16) e i (slot_at k d))"
      using w i assms(3,4) auth1_fields_nonce [OF challenge(1)]
      by (simp add: session_wf_def challenged_def local_session_reset_handshake_def)
    moreover have "session_agrees (plist d) (challenged np (fill_random (cry E) (draws d) 16) e i (slot_at k d))"
      using challenge(3) by (simp add: session_agrees_def challenged_def)
    ultimately show ?thesis
      by (intro dev_inv_replace [OF assms(1,2) challenge(4)]) (simp_all add: challenged_def)
  qed
qed

lemma row_role_not_none [simp]: "row_role l i \<noteq> LS_ROLE_NONE"
  by (simp add: row_role_def split: option.split)

lemma dev_inv_auth3:
  assumes "dev_inv d" "k < length (pool d)" "cry_sized (cry E)"
  shows "dev_inv (handle_auth3 E k line d)"
proof -
  note w = dev_inv_nth [OF assms(1,2)]
  show ?thesis
  proof (cases rule: auth3_cases [of d E k line])
    case refused
    then show ?thesis by (rule dev_inv_pool_tx [OF assms(1)]) simp_all
  next
    case rejected
    have "session_wf ((slot_at k d) \<lparr> skey := replicate 32 NUL, paired_index := - 1, ls_state := LS_NEW \<rparr>)"
      using w rejected(1) by (auto simp: session_wf_def)
    then show ?thesis by (intro dev_inv_replace [OF assms(1,2) rejected(2)]) simp_all
  next
    case (accepted mac)
    let ?s = "authenticated_session (cry E) (plist d) (slot_at k d)"
    have "session_wf ?s"
      using w accepted(1) assms(3) by (auto simp: session_wf_def authenticated_session_def local_auth_hkdf32_def local_auth_hmac_def Let_def)
    moreover have "session_agrees (plist d) ?s"
      using w by (auto simp: session_agrees_def authenticated_session_def row_role_def split: option.splits)
    ultimately show ?thesis
      by (intro dev_inv_replace [OF assms(1,2) accepted(5)]) (simp_all add: authenticated_session_def)
  qed
qed

lemma add_agrees:
  assumes "list_ok l" "length key = 32" "paired_list_add_locked E sub email key at l n = (i, role, key', l', n')" "session_agrees l s"
  shows "session_agrees l' s"
proof (rule session_agrees_mono [OF assms(4)])
  fix j e assume "paired_list_get l j = Some e"
  from add_rows [OF assms(1-3) this] show "\<exists>e'. paired_list_get l' j = Some e' \<and> (prole e = PAIRED_ROLE_OWNER \<longrightarrow> prole e' = PAIRED_ROLE_OWNER)"
    by blast
qed

lemma add_row_here:
  assumes "list_ok l" "length key = 32" "paired_list_add_locked E sub email key at l n = (i, role, key', l', n')" "\<not> i < 0"
  shows "\<exists>e. paired_list_get l' i = Some e \<and> prole e = role \<and> pkey e = key'"
proof -
  note sp = add_row_spec [OF assms(1,2), where E = E and sub = sub and email = email and at = at and n = n, unfolded assms(3) prod.case]
  have "paired_list_get l' i \<noteq> None" using sp assms(4) by presburger
  moreover have "pkey (the (paired_list_get l' i)) = key'" "prole (the (paired_list_get l' i)) = role" using sp assms(4) by presburger+
  ultimately show ?thesis by (intro exI [of _ "the (paired_list_get l' i)"]) simp
qed

lemma dev_inv_enroll:
  assumes "dev_inv d" "k < length (pool d)" "cry_sized (cry E)"
  shows "dev_inv (handle_enroll E k line d)"
proof -
  note w = dev_inv_nth [OF assms(1,2)]
  have len: "length (fill_random (cry E) (draws d) 32) = 32" using assms(3) by simp
  note ok = dev_invD(2) [OF assms(1)]
  show ?thesis
  proof (cases rule: enroll_cases [of d E k line])
    case refused
    then show ?thesis by (intro dev_inv_pool_tx [OF assms(1)]) simp_all
  next
    case (full sub email i role key l n)
    show ?thesis
      by (rule dev_inv_relist [OF assms(1) full(5)])
        (use dev_invD(3) [OF assms(1)] add_list_ok [OF ok len full(4)] add_agrees [OF ok len full(4)] full in simp_all)
  next
    case (enrolled sub email i role key l n)
    have lok: "list_ok l" by (rule add_list_ok [OF ok len enrolled(5)])
    have q: "queue_inv (fst (pairing_events_push E (wall d) ''paired'' sub (role_text role) (events d) n))"
      by (rule push_spec(1) [OF dev_invD(3) [OF assms(1)]])
    have "dev_inv (d \<lparr> plist := l, events := fst (pairing_events_push E (wall d) ''paired'' sub (role_text role) (events d) n) \<rparr>)" (is "dev_inv ?d")
      by (rule dev_inv_relist [OF assms(1)]) (use lok q add_agrees [OF ok len enrolled(5)] in simp_all)
    moreover have "session_wf (enrolled i role (slot_at k d))" using w enrolled(1,4) by (auto simp: session_wf_def enrolled_def)
    moreover have "session_agrees l (enrolled i role (slot_at k d))"
      using add_row_here [OF ok len enrolled(5,4)] by (auto simp: session_agrees_def enrolled_def)
    ultimately show ?thesis
      using assms(2) enrolled(6,7,8) dev_inv_replace [of ?d k "enrolled i role (slot_at k d)" "handle_enroll E k line d"]
      by (simp add: enrolled_sock)
  qed
qed

lemma dev_inv_local_auth:
  "dev_inv d \<Longrightarrow> cry_sized (cry E) \<Longrightarrow> dev_inv (snd (local_auth_handle_line E line sk d))"
  using find_SomeD [of sk "pool d"]
  by (auto simp: local_auth_handle_line_def Let_def dev_inv_send_err dev_inv_auth1 dev_inv_auth3 dev_inv_enroll split: option.split)

section \<open>A phone that holds an account's key\<close>

definition phone_auth1 :: "crypto_api \<Rightarrow> bytes \<Rightarrow> bytes \<Rightarrow> bytes" where
  "phone_auth1 c sub np = ''AUTH1:'' @ b64_encode c sub @ [COMMA] @ b64_encode c np"

definition phone_auth3 :: "crypto_api \<Rightarrow> bytes \<Rightarrow> bytes" where
  "phone_auth3 c mac = ''AUTH3:'' @ b64_encode c mac"

definition auth2_line :: "crypto_api \<Rightarrow> bytes \<Rightarrow> bytes \<Rightarrow> bytes" where
  "auth2_line c nd mac = ''AUTH2:'' @ b64_encode c nd @ [COMMA] @ b64_encode c mac"

lemma filter_comma_b64: "base64_lawful c \<Longrightarrow> filter (\<lambda>x. x = COMMA) (b64_encode c x) = []"
  using b64_no_sep(1) [of c x] by (auto simp: filter_empty_conv)

lemma to_cstr_SomeD: "to_cstr b n = Some t \<Longrightarrow> t = b \<and> b \<noteq> [] \<and> length b < n"
  by (auto simp: to_cstr_def split: if_splits)

lemma auth1_fields_phone:
  assumes "base64_lawful c" "to_cstr sub 41 = Some sub" "length np = 16"
  shows "auth1_fields c (phone_auth1 c sub np) = Some (sub, np)"
proof -
  have n: "count_fields (phone_auth1 c sub np) ''AUTH1:'' = 2"
    by (simp add: count_fields_def phone_auth1_def filter_comma_b64 [OF assms(1)])
  have s: "split_at COMMA (b64_encode c sub @ COMMA # b64_encode c np) = (b64_encode c sub, Some (b64_encode c np))"
    "split_at COMMA (b64_encode c np) = (b64_encode c np, None)"
    using b64_no_sep(1) [OF assms(1)] by (simp_all add: split_at_some split_at_none)
  have "decode_fields c (phone_auth1 c sub np) ''AUTH1:'' [41, 17] = Some [sub, np]"
    using to_cstr_SomeD [OF assms(2)] assms(3) by (simp add: decode_fields_def phone_auth1_def s base64_decode_encode [OF assms(1)])
  then show ?thesis using n assms by (simp add: auth1_fields_def)
qed

lemma decode_auth3_phone:
  assumes "base64_lawful c" "length mac = 32"
  shows "decode_fields c (phone_auth3 c mac) ''AUTH3:'' [33] = Some [mac]"
proof -
  have s: "split_at COMMA (b64_encode c mac) = (b64_encode c mac, None)"
    using b64_no_sep(1) [OF assms(1)] by (simp add: split_at_none)
  have "b64_encode c mac \<noteq> []" using length_b64_encode [OF assms(1), of mac] assms(2) by auto
  then show ?thesis using assms(2) by (simp add: decode_fields_def phone_auth3_def s base64_decode_encode [OF assms(1)])
qed

lemma phone_prefixes [simp]:
  "memcmp_eq (phone_auth1 c sub np) ''AUTH1:''" "\<not> memcmp_eq (phone_auth1 c sub np) ''ENROLL:''"
  "memcmp_eq (phone_auth3 c mac) ''AUTH3:''" "\<not> memcmp_eq (phone_auth3 c mac) ''ENROLL:''" "\<not> memcmp_eq (phone_auth3 c mac) ''AUTH1:''"
  by (simp_all add: phone_auth1_def phone_auth3_def memcmp_eq_def)

text \<open>\<open>AUTH1\<close> for a paired account: the challenge goes out, and the session waits for the proof.\<close>

lemma auth1_run:
  fixes E :: "('n, 'h) env" and d :: "('n, 'h) dev"
  defines "nd \<equiv> fill_random (cry E) (draws d) 16"
  assumes "base64_lawful (cry E)" "cry_sized (cry E)" "local_session_find sk (pool d) = Some k"
    "to_cstr sub 41 = Some sub" "length np = 16" "paired_list_find (plist d) sub = i" "paired_list_get (plist d) i = Some e"
  defines "d1 \<equiv> snd (local_auth_handle_line E (phone_auth1 (cry E) sub np) sk d)"
  shows "wire d1 = wire d @ [(sk, auth2_line (cry E) nd (auth_proof (cry E) (pkey e) ''dev'' np nd)), (sk, [LF])]"
    "pool d1 = (pool d)[k := challenged np nd e i (slot_at k d)]" "plist d1 = plist d"
proof -
  have k: "k < length (pool d)" "sock (slot_at k d) = sk" using find_SomeD [OF assms(4)] by auto
  have f: "auth1_fields (cry E) (phone_auth1 (cry E) sub np) = Some (sub, np)" by (rule auth1_fields_phone [OF assms(2,5,6)])
  have i: "\<not> i < 0" using assms(8) by (simp add: paired_list_get_Some)
  let ?t = "auth2_line (cry E) nd (auth_proof (cry E) (pkey e) ''dev'' np nd)"
  have len: "length ?t = 75"
    using assms(3) by (simp add: auth2_line_def length_b64_encode [OF assms(2)] nd_def auth_proof_def local_auth_hmac_def)
  have "d1 = security_send_line E sk ?t (upd k (\<lambda>s. s \<lparr> nonce_phone := np, nonce_dev := nd, skey := pkey e, paired_index := i,
      ls_state := LS_AUTH_WAIT_PROOF \<rparr>) ((upd k local_session_reset_handshake d) \<lparr> draws := draws d + 1 \<rparr>))"
    unfolding d1_def using k f i assms(4,7,8) by (simp add: local_auth_handle_line_def handle_auth1_def Let_def auth2_line_def nd_def)
  then have "d1 = send sk [LF] (send sk ?t (upd k (\<lambda>s. s \<lparr> nonce_phone := np, nonce_dev := nd, skey := pkey e, paired_index := i,
      ls_state := LS_AUTH_WAIT_PROOF \<rparr>) ((upd k local_session_reset_handshake d) \<lparr> draws := draws d + 1 \<rparr>)))"
    using len by (simp add: security_send_line_def)
  then show "wire d1 = wire d @ [(sk, ?t), (sk, [LF])]"
    "pool d1 = (pool d)[k := challenged np nd e i (slot_at k d)]" "plist d1 = plist d"
    using k by (simp_all add: challenged_def)
qed

text \<open>\<open>AUTH3\<close> on a waiting session: accepted with the right proof only.\<close>

lemma auth3_run:
  fixes E :: "('n, 'h) env" and d :: "('n, 'h) dev"
  assumes "base64_lawful (cry E)" "cry_sized (cry E)" "local_session_find sk (pool d) = Some k" "ls_state (slot_at k d) = LS_AUTH_WAIT_PROOF"
    "length mac = 32"
  defines "d1 \<equiv> snd (local_auth_handle_line E (phone_auth3 (cry E) mac) sk d)" and "s \<equiv> slot_at k d"
  shows "mac = auth_proof (cry E) (skey s) ''phn'' (nonce_dev s) (nonce_phone s) \<Longrightarrow>
      slot_at k d1 = authenticated_session (cry E) (plist d) s \<and>
      wire d1 = wire d @ [(sk, (if row_role (plist d) (paired_index s) = LS_ROLE_OWNER then ''AUTHOK:owner'' else ''AUTHOK:user'') @ [LF])]"
    "mac \<noteq> auth_proof (cry E) (skey s) ''phn'' (nonce_dev s) (nonce_phone s) \<Longrightarrow>
      slot_at k d1 = s \<lparr> skey := replicate 32 NUL, paired_index := - 1, ls_state := LS_NEW \<rparr> \<and> wire d1 = wire d @ [(sk, ''ERR:BADAUTH'' @ [LF])]"
proof -
  have k: "k < length (pool d)" "sock (slot_at k d) = sk" using find_SomeD [OF assms(3)] by auto
  have dec: "decode_fields (cry E) (phone_auth3 (cry E) mac) ''AUTH3:'' [33] = Some [mac]" by (rule decode_auth3_phone [OF assms(1,5)])
  have eq: "local_auth_ct_equal mac (auth_proof (cry E) (skey s) ''phn'' (nonce_dev s) (nonce_phone s)) 32 \<longleftrightarrow>
      mac = auth_proof (cry E) (skey s) ''phn'' (nonce_dev s) (nonce_phone s)"
    using assms(2,5) by (subst ct_equal_iff) (simp_all add: auth_proof_def local_auth_hmac_def)
  have h: "d1 = handle_auth3 E k (phone_auth3 (cry E) mac) d" using assms(3) by (simp add: d1_def local_auth_handle_line_def)
  have plain: "enc_frame_send E sk p d' = send sk p d'" if "local_session_find sk (pool d') = Some k" "\<not> session_keyed (slot_at k d')" for p d'
    using that by (simp add: enc_frame_send_def)
  have find: "local_session_find sk (pool (upd k f d)) = Some k" if "sock (f (slot_at k d)) = sock (slot_at k d)" for f
    using that by (intro upd_seen(1) [OF assms(3) k(1)])
  show "slot_at k d1 = authenticated_session (cry E) (plist d) s \<and>
      wire d1 = wire d @ [(sk, (if row_role (plist d) (paired_index s) = LS_ROLE_OWNER then ''AUTHOK:owner'' else ''AUTHOK:user'') @ [LF])]"
    if "mac = auth_proof (cry E) (skey s) ''phn'' (nonce_dev s) (nonce_phone s)"
  proof -
    let ?d = "upd k (\<lambda>s. s \<lparr> skey := local_auth_hkdf32 (cry E) (skey (slot_at k d)) (nonce_phone (slot_at k d) @ nonce_dev (slot_at k d)) LOCAL_AUTH_HKDF_INFO,
        ls_role := row_role (plist d) (paired_index (slot_at k d)) \<rparr>) d"
    let ?t = "if row_role (plist d) (paired_index (slot_at k d)) = LS_ROLE_OWNER then ''AUTHOK:owner'' else ''AUTHOK:user''"
    have "d1 = upd k (\<lambda>s. s \<lparr> tx_ctr := 0, rx_ctr := 0, ls_state := LS_AUTH_OK \<rparr>) (security_send_line E sk ?t ?d)"
      using that eq dec assms(4,5) k by (simp add: h handle_auth3_def Let_def row_role_def s_def)
    moreover have "security_send_line E sk ?t ?d = send sk (?t @ [LF]) ?d"
      using k assms(4) by (simp add: security_send_line_def plain [OF find] session_keyed_def)
    ultimately show ?thesis using k by (simp add: s_def authenticated_session_def)
  qed
  show "slot_at k d1 = s \<lparr> skey := replicate 32 NUL, paired_index := - 1, ls_state := LS_NEW \<rparr> \<and> wire d1 = wire d @ [(sk, ''ERR:BADAUTH'' @ [LF])]"
    if "mac \<noteq> auth_proof (cry E) (skey s) ''phn'' (nonce_dev s) (nonce_phone s)"
  proof -
    let ?d = "upd k (\<lambda>s. s \<lparr> skey := replicate 32 NUL, paired_index := - 1, ls_state := LS_NEW \<rparr>) d"
    have "d1 = send_err E sk ''BADAUTH'' ?d"
      using that eq dec assms(4,5) k by (simp add: h handle_auth3_def Let_def s_def)
    moreover have "send_err E sk ''BADAUTH'' ?d = send sk (''ERR:BADAUTH'' @ [LF]) ?d"
      using k by (simp add: send_err_def snprintf_buf_def security_send_line_def plain [OF find] session_keyed_def)
    ultimately show ?thesis using k by (simp add: s_def)
  qed
qed

section \<open>Properties\<close>

text \<open>
  C5. Reconnect. A phone that knows an account's sub and key and sends \<open>AUTH1\<close> gets the device's fresh
  nonce with a proof, made with that key, over both nonces. To an \<open>AUTH3\<close> with the phone's proof the device
  answers by authenticating the session on the account's row with the row's role, counters at zero, under
  the key both sides derive from the account's key and the two nonces. An \<open>AUTH3\<close> with any other 32 bytes
  sends the session back to the start with no account and no role.\<close>

theorem auth_agreement:
  assumes "base64_lawful (cry E)" "cry_sized (cry E)" "local_session_find sk (pool d) = Some k"
    "to_cstr sub 41 = Some sub" "length np = 16" "paired_list_find (plist d) sub = i" "paired_list_get (plist d) i = Some e"
  shows "let nd = fill_random (cry E) (draws d) 16;
      d1 = snd (local_auth_handle_line E (phone_auth1 (cry E) sub np) sk d);
      d2 = snd (local_auth_handle_line E (phone_auth3 (cry E) mac) sk d1); s = slot_at k d2
    in wire d1 = wire d @ [(sk, auth2_line (cry E) nd (auth_proof (cry E) (pkey e) ''dev'' np nd)), (sk, [LF])] \<and>
      (length mac = 32 \<longrightarrow>
        (if mac = auth_proof (cry E) (pkey e) ''phn'' nd np
         then ls_state s = LS_AUTH_OK \<and> skey s = local_auth_hkdf32 (cry E) (pkey e) (np @ nd) LOCAL_AUTH_HKDF_INFO \<and>
           paired_index s = i \<and> ls_role s = (if prole e = PAIRED_ROLE_OWNER then LS_ROLE_OWNER else LS_ROLE_USER) \<and>
           tx_ctr s = 0 \<and> rx_ctr s = 0
         else ls_state s = LS_NEW \<and> ls_role s = LS_ROLE_NONE \<and> paired_index s = - 1 \<and> skey s = replicate 32 NUL))"
proof -
  note r = auth1_run [OF assms]
  let ?d1 = "snd (local_auth_handle_line E (phone_auth1 (cry E) sub np) sk d)"
  let ?s1 = "challenged np (fill_random (cry E) (draws d) 16) e i (slot_at k d)"
  have k: "k < length (pool d)" using find_SomeD [OF assms(3)] by simp
  have f1: "local_session_find sk (pool ?d1) = Some k"
    unfolding r(2) using assms(3) k by (subst find_update_same) (simp_all add: challenged_def)
  have s1: "slot_at k ?d1 = ?s1" using k by (simp add: r(2))
  have st: "ls_state (slot_at k ?d1) = LS_AUTH_WAIT_PROOF" by (simp add: s1 challenged_def)
  have rr: "row_role (plist ?d1) (paired_index ?s1) = (if prole e = PAIRED_ROLE_OWNER then LS_ROLE_OWNER else LS_ROLE_USER)"
    using assms(7) by (simp add: r(3) row_role_def challenged_def)
  have f: "skey ?s1 = pkey e" "nonce_dev ?s1 = fill_random (cry E) (draws d) 16" "nonce_phone ?s1 = np" "paired_index ?s1 = i" "ls_role ?s1 = LS_ROLE_NONE"
    by (simp_all add: challenged_def)
  show ?thesis
    using auth3_run [OF assms(1,2) f1 st, of mac, unfolded s1 f] r(1) rr
    by (simp add: Let_def authenticated_session_def f)
qed

definition bench_ann :: "(flash, bench_srp) dev" where
  "bench_ann = bench_dev \<lparr> plist := ann_list, pool := session_zero \<lparr> sock := 5 \<rparr> # replicate 7 session_zero \<rparr>"

lemma ann_row: "find_locked ann_list ''ann'' = 0" "\<exists>e. paired_list_get ann_list 0 = Some e \<and> prole e = PAIRED_ROLE_OWNER"
proof -
  have "length (replicate 32 (CHR ''k'')) = PAIRED_KEY_LEN" by simp
  note sp = add_row_spec [OF list_ok_zero this, where E = "bench True" and sub = "''ann''" and email = "''ann@x.org''" and at = 7
      and n = blank, unfolded add_ann prod.case]
  show "find_locked ann_list ''ann'' = 0" using sp by simp
  show "\<exists>e. paired_list_get ann_list 0 = Some e \<and> prole e = PAIRED_ROLE_OWNER"
    using add_row_here [OF list_ok_zero _ add_ann] by auto
qed

lemma bench_ann_simps:
  "local_session_find 5 (pool bench_ann) = Some 0" "paired_list_find (plist bench_ann) ''ann'' = 0"
  "\<exists>e. paired_list_get (plist bench_ann) 0 = Some e" "to_cstr ''ann'' 41 = Some ''ann''"
  using ann_row
  by (auto simp: bench_ann_def bench_dev_def local_session_find_def session_zero_def paired_list_find_def to_cstr_def)

theorem auth_agreement_witness:
  "\<exists>mac. ls_state (slot_at 0 (snd (local_auth_handle_line (bench True) (phone_auth3 bench_crypto mac) 5
     (snd (local_auth_handle_line (bench True) (phone_auth1 bench_crypto ''ann'' (replicate 16 CHR ''p'')) 5 bench_ann))))) = LS_AUTH_OK"
proof -
  obtain e where e: "paired_list_get (plist bench_ann) 0 = Some e" using bench_ann_simps(3) by blast
  let ?mac = "auth_proof bench_crypto (pkey e) ''phn'' (fill_random bench_crypto (draws bench_ann) 16) (replicate 16 CHR ''p'')"
  have "length ?mac = 32" using bench_cry_sized by (simp add: auth_proof_def local_auth_hmac_def)
  then show ?thesis
    using auth_agreement [of "bench True" 5 bench_ann 0 "''ann''" "replicate 16 CHR ''p''" 0 e ?mac] e
      bench_base64_lawful bench_cry_sized bench_ann_simps(1,2,4)
    by (intro exI [of _ ?mac]) (simp add: Let_def)
qed

end
