(* ===== verification/Access_Policy.thy ===== *)
theory Access_Policy
  imports Local_Auth
begin

text \<open>
  Which lines need a paired phone behind them, \<open>security/access_policy.c\<close>, as built with
  \<open>LOCAL_AUTH_ENFORCE\<close> 1 (\<open>device_config/device_config.h\<close>). \<open>app_public\<close> of the environment is the
  application's \<open>app_command_is_public\<close>.
\<close>

text \<open>\<open>has_prefix\<close>, the same in \<open>access_policy.c\<close> and \<open>owner_commands.c\<close>.\<close>

definition has_prefix :: "bytes \<Rightarrow> bytes \<Rightarrow> bool" where
  "has_prefix line prefix \<longleftrightarrow> length line \<ge> length prefix \<and> memcmp_eq line prefix"

definition is_handshake :: "bytes \<Rightarrow> bool" where
  "is_handshake line \<longleftrightarrow> has_prefix line ''PAKE1:'' \<or> has_prefix line ''PAKE3:'' \<or>
     has_prefix line ''AUTH1:'' \<or> has_prefix line ''AUTH3:'' \<or> has_prefix line ''ENROLL:''"

definition is_public :: "('n, 'h) env \<Rightarrow> pw_state \<Rightarrow> bytes \<Rightarrow> bool" where
  "is_public E p line =
    (if has_prefix line (cy_scan_command (cfg E)) then True
     else if \<not> device_password_is_set p then True
     else app_public E line)"

definition access_policy_sock_authenticated :: "int \<Rightarrow> 'h pool \<Rightarrow> bool" where
  "access_policy_sock_authenticated sk p =
    (case local_session_find sk p of
       None \<Rightarrow> False
     | Some k \<Rightarrow> ls_state (p ! k) = LS_AUTH_OK \<or> ls_state (p ! k) = LS_PAKE_OK \<and> paired_index (p ! k) \<ge> 0)"

definition send_plain :: "int \<Rightarrow> bytes \<Rightarrow> ('n, 'h) dev \<Rightarrow> ('n, 'h) dev" where
  "send_plain sk text d = send sk (snprintf_buf 24 (text @ [LF])) d"

definition access_policy_allow :: "('n, 'h) env \<Rightarrow> bytes \<Rightarrow> int \<Rightarrow> ('n, 'h) dev \<Rightarrow> bool \<times> ('n, 'h) dev" where
  "access_policy_allow E line sk d =
    (if is_handshake line \<or> is_public E (pw d) line then (True, d)
     else
       let authenticated = access_policy_sock_authenticated sk (pool d);
           encrypted = (case local_session_find sk (pool d) of Some k \<Rightarrow> rx_encrypted (slot_at k d) | None \<Rightarrow> False)
       in if authenticated \<and> encrypted then (True, d)
          else (False, send_plain sk (if \<not> authenticated then ''ERR:AUTH'' else ''ERR:ENC'') d))"

lemma allow_simps [simp]:
  "pool (snd (access_policy_allow E line sk d)) = pool d" "plist (snd (access_policy_allow E line sk d)) = plist d"
  "events (snd (access_policy_allow E line sk d)) = events d"
  by (simp_all add: access_policy_allow_def send_plain_def Let_def)

lemma allow_True: "fst (access_policy_allow E line sk d) \<Longrightarrow> snd (access_policy_allow E line sk d) = d"
  by (auto simp: access_policy_allow_def Let_def split: if_splits)

lemma dev_inv_allow: "dev_inv (snd (access_policy_allow E line sk d)) = dev_inv d"
  by (rule dev_inv_cong) simp_all

end
