(* ===== verification/Owner_Commands.thy ===== *)
theory Owner_Commands
  imports Access_Policy
begin

text \<open>
  The management lines, \<open>security/owner_commands.c\<close>: \<open>LIST\<close>, \<open>REVOKE\<close>, \<open>PWSET\<close>, \<open>PWCLEAR\<close>, \<open>RESET\<close>,
  \<open>DISCOVERYMODE\<close> for the owner, \<open>UNPAIR\<close> for any authenticated session. \<open>has_prefix\<close>, \<open>send_err\<close> and
  \<open>to_cstr\<close> of that file are the ones of theories \<open>Access_Policy\<close>, \<open>Pake_Handler\<close> and \<open>Local_Auth\<close>.
\<close>

definition is_exact :: "bytes \<Rightarrow> bytes \<Rightarrow> bool" where
  "is_exact line cmd \<longleftrightarrow> length line = length cmd \<and> memcmp_eq line cmd"

definition is_owner_session :: "'h local_session \<Rightarrow> bool" where
  "is_owner_session s =
    (if \<not> rx_encrypted s \<or> ls_role s \<noteq> LS_ROLE_OWNER then False
     else ls_state s = LS_AUTH_OK \<or> ls_state s = LS_PAKE_OK \<and> paired_index s \<ge> 0)"

definition is_authed_session :: "'h local_session \<Rightarrow> bool" where
  "is_authed_session s =
    (if \<not> rx_encrypted s \<or> paired_index s < 0 then False
     else ls_state s = LS_AUTH_OK \<or> ls_state s = LS_PAKE_OK)"

text \<open>One Base64 field and what follows the comma behind it.\<close>

definition next_b64_field :: "crypto_api \<Rightarrow> bytes \<Rightarrow> nat \<Rightarrow> bool \<Rightarrow> (bytes \<times> bytes) option" where
  "next_b64_field c p out_size final =
    (let (f, rest) = split_at COMMA p in
     if final \<and> rest \<noteq> None then None
     else if \<not> final \<and> rest = None then None
     else case base64_decode c out_size f of
         None \<Rightarrow> None
       | Some b \<Rightarrow> Some (b, case rest of Some r \<Rightarrow> r | None \<Rightarrow> []))"

section \<open>LIST\<close>

definition paired_line :: "crypto_api \<Rightarrow> paired_entry \<Rightarrow> bytes" where
  "paired_line c e = ''PAIRED:'' @ b64_encode c (cstr (user_sub e)) @ [COMMA] @ b64_encode c (cstr (user_email e)) @ [COMMA] @
     dec_nat (unat (paired_at e)) @ [COMMA] @ role_text (prole e)"

function list_loop :: "('n, 'h) env \<Rightarrow> int \<Rightarrow> nat \<Rightarrow> nat \<Rightarrow> ('n, 'h) dev \<Rightarrow> ('n, 'h) dev" where
  "list_loop E sk i count d =
    (if i < count then
       case paired_list_get (plist d) (int i) of
         None \<Rightarrow> d
       | Some e \<Rightarrow> list_loop E sk (i + 1) count (security_send_line E sk (paired_line (cry E) e) d)
     else d)"
  by pat_completeness auto
termination
  by (relation "measure (\<lambda>(E, sk, i, count, d). count - i)") auto

declare list_loop.simps [simp del]

definition handle_list :: "('n, 'h) env \<Rightarrow> nat \<Rightarrow> ('n, 'h) dev \<Rightarrow> ('n, 'h) dev" where
  "handle_list E k d =
    (let sk = sock (slot_at k d); count = paired_list_count (plist d);
         d = list_loop E sk 0 count d
     in security_send_line E sk (snprintf_buf 24 (''PAIREND:'' @ dec_nat count)) d)"

section \<open>REVOKE\<close>

definition on_paired_removed :: "int \<Rightarrow> ('n, 'h) dev \<Rightarrow> ('n, 'h) dev" where
  "on_paired_removed i d = d \<lparr> pool := local_session_on_paired_removed i (pool d) \<rparr>"

text \<open>The sub of a \<open>REVOKE\<close> line.\<close>

definition revoke_sub :: "crypto_api \<Rightarrow> bytes \<Rightarrow> bytes option" where
  "revoke_sub c line =
    (let p = drop 7 line; has_install = (snd (split_at COMMA p) \<noteq> None) in
     case next_b64_field c p 41 (\<not> has_install) of
       None \<Rightarrow> None
     | Some (f_sub, p) \<Rightarrow>
         (case to_cstr f_sub 41 of
            None \<Rightarrow> None
          | Some sub \<Rightarrow>
              if has_install then
                (case next_b64_field c p 41 True of
                   None \<Rightarrow> None
                 | Some (f_inst, p) \<Rightarrow> (case to_cstr f_inst 41 of None \<Rightarrow> None | Some i \<Rightarrow> Some sub))
              else Some sub))"

definition handle_revoke :: "('n, 'h) env \<Rightarrow> nat \<Rightarrow> bytes \<Rightarrow> ('n, 'h) dev \<Rightarrow> ('n, 'h) dev" where
  "handle_revoke E k line d =
    (let s = slot_at k d; sk = sock s in
     case revoke_sub (cry E) line of
       None \<Rightarrow> send_err E sk ''BADFMT'' d
     | Some sub \<Rightarrow>
         let index = paired_list_find (plist d) sub in
         case (if index < 0 then None else paired_list_get (plist d) index) of
           None \<Rightarrow> send_err E sk ''UNKNOWN'' d
         | Some e \<Rightarrow>
             if index = paired_index s then send_err E sk ''OWNER'' d
             else
               let (err, d) = paired_list_remove E index d in
               if err \<noteq> ESP_OK then send_err E sk ''STORE'' d
               else security_send_line E sk ''ACK''
                      (push_event E ''unpaired'' sub (role_text (prole e)) (on_paired_removed index d)))"

section \<open>PWSET and PWCLEAR\<close>

lemma remove_count:
  "i < pcount (plist d) \<Longrightarrow> pcount (plist (snd (paired_list_remove E (int i) d))) = pcount (plist d) - 1"
  by (simp add: paired_list_remove_def paired_list_remove_locked_def Let_def split: prod.split)

function revoke_all_non_owner :: "('n, 'h) env \<Rightarrow> nat \<Rightarrow> ('n, 'h) dev \<Rightarrow> ('n, 'h) dev" where
  "revoke_all_non_owner E i d =
    (if i < paired_list_count (plist d) then
       case paired_list_get (plist d) (int i) of
         None \<Rightarrow> d
       | Some e \<Rightarrow>
           if prole e \<noteq> PAIRED_ROLE_OWNER then
             let r = paired_list_remove E (int i) d in
             if fst r = ESP_OK
             then revoke_all_non_owner E i
                    (push_event E ''unpaired'' (snprintf_buf 41 (cstr (user_sub e))) ''user'' (on_paired_removed (int i) (snd r)))
             else revoke_all_non_owner E (i + 1) (snd r)
           else revoke_all_non_owner E (i + 1) d
     else d)"
  by pat_completeness auto
termination
  by (relation "measure (\<lambda>(E, i, d). pcount (plist d) - i)")
    (auto simp: paired_list_count_def remove_count on_paired_removed_def)

declare revoke_all_non_owner.simps [simp del]

definition handle_pwset :: "('n, 'h) env \<Rightarrow> nat \<Rightarrow> bytes \<Rightarrow> ('n, 'h) dev \<Rightarrow> ('n, 'h) dev" where
  "handle_pwset E k line d =
    (let sk = sock (slot_at k d) in
     case next_b64_field (cry E) (drop 6 line) (DEVICE_PW_MAX_LEN + 1) True of
       None \<Rightarrow> send_err E sk ''BADFMT'' d
     | Some (p, rest) \<Rightarrow>
         if length p < DEVICE_PW_MIN_LEN \<or> length p > DEVICE_PW_MAX_LEN then send_err E sk ''BADFMT'' d
         else
           let (err, d) = device_password_set E p d in
           if err \<noteq> ESP_OK then send_err E sk ''STORE'' d
           else
             let d = revoke_all_non_owner E 0 d; (err, d) = paired_list_rotate_owner_key E d
             in security_send_line E sk ''ACK'' d)"

definition handle_pwclear :: "('n, 'h) env \<Rightarrow> nat \<Rightarrow> ('n, 'h) dev \<Rightarrow> ('n, 'h) dev" where
  "handle_pwclear E k d =
    (let sk = sock (slot_at k d); (err, d) = device_password_clear E d in
     if err \<noteq> ESP_OK then send_err E sk ''STORE'' d else security_send_line E sk ''ACK'' d)"

section \<open>RESET\<close>

definition drop_all_auth :: "('n, 'h) dev \<Rightarrow> ('n, 'h) dev" where
  "drop_all_auth d = d \<lparr> pool := local_session_drop_all_auth (pool d) \<rparr>"

definition handle_reset :: "('n, 'h) env \<Rightarrow> nat \<Rightarrow> ('n, 'h) dev \<Rightarrow> ('n, 'h) dev" where
  "handle_reset E k d =
    (let d = security_send_line E (sock (slot_at k d)) ''ACK'' d;
         d = snd (paired_list_clear E d);
         d = snd (device_password_clear E d)
     in push_event E ''reset'' [] [] (drop_all_auth d))"

section \<open>DISCOVERYMODE\<close>

definition handle_discoverymode :: "('n, 'h) env \<Rightarrow> nat \<Rightarrow> bytes \<Rightarrow> ('n, 'h) dev \<Rightarrow> ('n, 'h) dev" where
  "handle_discoverymode E k line d =
    (let sk = sock (slot_at k d); p = drop 14 line in
     if length p \<noteq> 1 \<or> \<not> (CHR ''1'' = hd p \<or> CHR ''2'' = hd p \<or> CHR ''3'' = hd p) then send_err E sk ''BADFMT'' d
     else
       let (err, m, n) = discovery_mode_set E (of_char (hd p) - 48) (disc d) (flash d); d = d \<lparr> disc := m, flash := n \<rparr> in
       if err \<noteq> ESP_OK then send_err E sk ''STORE'' d
       else security_send_line E sk ''ACK'' (d \<lparr> bcn := ble_beacon_apply_discovery_mode E (disc d) (bcn d) \<rparr>))"

definition handle_discoverymode_get :: "('n, 'h) env \<Rightarrow> nat \<Rightarrow> ('n, 'h) dev \<Rightarrow> ('n, 'h) dev" where
  "handle_discoverymode_get E k d =
    security_send_line E (sock (slot_at k d)) (snprintf_buf 24 (''DISCOVERYMODE:'' @ dec_nat (discovery_mode_get (disc d)))) d"

section \<open>UNPAIR\<close>

definition handle_unpair :: "('n, 'h) env \<Rightarrow> nat \<Rightarrow> ('n, 'h) dev \<Rightarrow> ('n, 'h) dev" where
  "handle_unpair E k d =
    (let sk = sock (slot_at k d); index = paired_index (slot_at k d) in
     case paired_list_get (plist d) index of
       None \<Rightarrow> send_err E sk ''UNKNOWN'' d
     | Some e \<Rightarrow>
         if prole e = PAIRED_ROLE_OWNER then send_err E sk ''OWNER'' d
         else
           let d = security_send_line E sk ''ACK'' d; (err, d) = paired_list_remove E index d in
           if err = ESP_OK
           then push_event E ''unpaired'' (cstr (user_sub e)) ''user'' (on_paired_removed index d)
           else d)"

section \<open>Dispatch\<close>

definition is_owner_line :: "bytes \<Rightarrow> bool" where
  "is_owner_line line \<longleftrightarrow> is_exact line ''LIST'' \<or> has_prefix line ''REVOKE:'' \<or> has_prefix line ''PWSET:'' \<or>
     is_exact line ''PWCLEAR'' \<or> is_exact line ''RESET'' \<or> has_prefix line ''DISCOVERYMODE:'' \<or> is_exact line ''DISCOVERYMODE?''"

definition owner_commands_handle_line :: "('n, 'h) env \<Rightarrow> bytes \<Rightarrow> int \<Rightarrow> ('n, 'h) dev \<Rightarrow> bool \<times> ('n, 'h) dev" where
  "owner_commands_handle_line E line sk d =
    (if \<not> is_owner_line line \<and> \<not> is_exact line ''UNPAIR'' then (False, d)
     else case local_session_find sk (pool d) of
         None \<Rightarrow> (True, send_err E sk ''NOSESSION'' d)
       | Some k \<Rightarrow>
           if is_exact line ''UNPAIR'' then
             (True, if \<not> is_authed_session (slot_at k d) then send_err E sk ''AUTH'' d else handle_unpair E k d)
           else if \<not> is_owner_session (slot_at k d) then (True, send_err E sk ''AUTH'' d)
           else
             (True,
              if is_exact line ''LIST'' then handle_list E k d
              else if has_prefix line ''REVOKE:'' then handle_revoke E k line d
              else if has_prefix line ''PWSET:'' then handle_pwset E k line d
              else if is_exact line ''PWCLEAR'' then handle_pwclear E k d
              else if has_prefix line ''DISCOVERYMODE:'' then handle_discoverymode E k line d
              else if is_exact line ''DISCOVERYMODE?'' then handle_discoverymode_get E k d
              else handle_reset E k d))"

section \<open>Removing a row\<close>

lemma paired_remove_simps [simp]:
  "pool (snd (paired_list_remove E i d)) = pool d" "pw (snd (paired_list_remove E i d)) = pw d"
  "events (snd (paired_list_remove E i d)) = events d" "disc (snd (paired_list_remove E i d)) = disc d"
  "prov (snd (paired_list_remove E i d)) = prov d" "bcn (snd (paired_list_remove E i d)) = bcn d"
  "wire (snd (paired_list_remove E i d)) = wire d" "now_us (snd (paired_list_remove E i d)) = now_us d"
  "wall (snd (paired_list_remove E i d)) = wall d" "draws (snd (paired_list_remove E i d)) = draws d"
  by (simp_all add: paired_list_remove_def Let_def split: prod.split)

lemma paired_remove_list:
  "0 \<le> i \<Longrightarrow> i < int (pcount (plist d)) \<Longrightarrow> plist (snd (paired_list_remove E i d)) = remove_entry (nat i) (plist d)"
  by (simp add: paired_list_remove_def paired_list_remove_locked_def Let_def split: prod.split)

lemma paired_remove_ok:
  assumes "nvs_reliable (nvs E)"
  shows "fst (paired_list_remove E i d) = ESP_OK \<longleftrightarrow> 0 \<le> i \<and> i < int (pcount (plist d))"
  using paired_nvs_store_reliable [OF assms, of "remove_entry (nat i) (plist d)" "flash d"]
  by (auto simp: paired_list_remove_def paired_list_remove_locked_def Let_def split: prod.split)

lemma removed_simps [simp]:
  "plist (on_paired_removed i d) = plist d" "pw (on_paired_removed i d) = pw d" "events (on_paired_removed i d) = events d"
  "disc (on_paired_removed i d) = disc d" "prov (on_paired_removed i d) = prov d" "bcn (on_paired_removed i d) = bcn d"
  "wire (on_paired_removed i d) = wire d" "now_us (on_paired_removed i d) = now_us d" "wall (on_paired_removed i d) = wall d"
  "draws (on_paired_removed i d) = draws d" "pool (on_paired_removed i d) = local_session_on_paired_removed i (pool d)"
  "flash (on_paired_removed i d) = flash d"
  by (simp_all add: on_paired_removed_def)

lemma free_slot_index: "session_wf s \<Longrightarrow> sock s = - 1 \<Longrightarrow> paired_index s = - 1"
  by (auto simp: session_wf_def split: local_session_state.splits)

text \<open>What the removal does to each slot.\<close>

lemma nth_on_removed:
  "pool_inv p \<Longrightarrow> 0 \<le> i \<Longrightarrow> j < length p \<Longrightarrow> local_session_on_paired_removed i p ! j = session_follow i (p ! j)"
  using pool_inv_nth [of p j] free_slot_index [of "p ! j"]
  by (auto simp: local_session_on_paired_removed_def session_follow_def)

lemma length_on_removed [simp]: "length (local_session_on_paired_removed i p) = length p"
  by (simp add: local_session_on_paired_removed_def)

lemma remove_entry_ok: "list_ok l \<Longrightarrow> k < pcount l \<Longrightarrow> list_ok (remove_entry k l)"
  using remove_entry_inv [of l k] one_per_account_del [OF _ remove_entry_accounts, of l k] roles_ok_del [OF _ remove_entry_accounts, of l k]
  by (simp add: list_ok_def)

lemma dev_inv_removed:
  assumes "dev_inv d" "0 \<le> i" "i < int (pcount (plist d))"
  shows "dev_inv (on_paired_removed i (snd (paired_list_remove E i d)))"
proof -
  have ok: "list_ok (plist d)" "paired_inv (plist d)" using dev_invD(2) [OF assms(1)] by (auto simp: list_ok_def)
  have p: "pool_inv (pool d)" by (rule dev_invD(1) [OF assms(1)])
  have "list_ok (remove_entry (nat i) (plist d))" using assms(2,3) by (intro remove_entry_ok [OF ok(1)]) simp
  moreover have "session_agrees (remove_entry (nat i) (plist d)) (local_session_on_paired_removed i (pool d) ! j)" if "j < length (pool d)" for j
    unfolding nth_on_removed [OF p assms(2) that] using dev_inv_nth [OF assms(1) that] by (intro session_follow_agrees [OF ok(2) assms(2,3)]) simp_all
  ultimately show ?thesis
    using assms on_paired_removed_spec(1) [OF p assms(2)] dev_invD(3) [OF assms(1)]
    by (simp add: dev_inv_def paired_remove_list list_all_length)
qed

section \<open>Revoking every account but the owner's\<close>

text \<open>
  What happens to a session while the rows of all other accounts go: one without an account is left
  alone, one on a row that goes loses its authentication, one on the owner's row follows it.
\<close>

definition revoked :: "paired_list \<Rightarrow> paired_list \<Rightarrow> 'h local_session \<Rightarrow> 'h local_session \<Rightarrow> bool" where
  "revoked l l' s s' \<longleftrightarrow> paired_index s < 0 \<and> s' = s \<or>
    (\<exists>e. paired_list_get l (paired_index s) = Some e \<and>
      (if prole e \<noteq> PAIRED_ROLE_OWNER then s' = drop_auth s
       else \<exists>n. s' = s \<lparr> paired_index := n \<rparr> \<and> paired_list_get l' n = Some e))"

lemma drop_auth_index [simp]: "drop_auth (s \<lparr> paired_index := n \<rparr>) = drop_auth s"
  by (simp add: drop_auth_def)

lemma revoked_step:
  assumes "paired_inv l" "paired_list_get l i = Some e" "prole e \<noteq> PAIRED_ROLE_OWNER" "session_wf s" "session_agrees l s"
    "revoked (remove_entry (nat i) l) l' (session_follow i s) s'"
  shows "revoked l l' s s'"
proof (cases "paired_index s < 0 \<or> paired_index s = i")
  case True
  have "0 \<le> i" using assms(2) by (simp add: paired_list_get_Some)
  with True show ?thesis
    using assms(2,3,6) by (auto simp: revoked_def session_follow_def paired_list_get_Some)
next
  case False
  then obtain e' where e': "paired_list_get l (paired_index s) = Some e'" using session_agreesD [OF assms(5)] by auto
  have "paired_list_get (remove_entry (nat i) l) (follow i (paired_index s)) = Some e'"
    using pl.follow_row [OF assms(1), of i "paired_index s"] e' assms(2) False by simp
  moreover have "session_follow i s = s \<lparr> paired_index := follow i (paired_index s) \<rparr>"
    using False by (simp add: session_follow_def follow_def)
  moreover have "\<not> follow i (paired_index s) < 0"
    using calculation(1) by (simp add: paired_list_get_Some)
  ultimately show ?thesis using assms(6) e' by (auto simp: revoked_def)
qed

lemma revoked_none:
  assumes "session_agrees l s" "\<And>i e. paired_list_get l i = Some e \<Longrightarrow> prole e = PAIRED_ROLE_OWNER"
  shows "revoked l l s s"
proof (cases "paired_index s < 0")
  case False
  then obtain e where e: "paired_list_get l (paired_index s) = Some e" using session_agreesD [OF assms(1)] by auto
  with assms(2) [OF e] show ?thesis by (auto simp: revoked_def intro!: exI [of _ "paired_index s"])
qed (simp add: revoked_def)

lemma filter_del_at: "k < length xs \<Longrightarrow> \<not> P (xs ! k) \<Longrightarrow> filter P (del_at k xs) = filter P xs"
  using id_take_nth_drop [of k xs] by (metis append_Cons append_Nil del_at_def filter.simps filter_append)

lemma revoke_all_spec:
  assumes "nvs_reliable (nvs E)" "dev_inv d" "\<And>j e. paired_list_get (plist d) j = Some e \<Longrightarrow> j < int i \<Longrightarrow> prole e = PAIRED_ROLE_OWNER"
  shows "dev_inv (revoke_all_non_owner E i d) \<and>
    accounts (plist (revoke_all_non_owner E i d)) = filter (\<lambda>e. prole e = PAIRED_ROLE_OWNER) (accounts (plist d)) \<and>
    length (pool (revoke_all_non_owner E i d)) = length (pool d) \<and>
    (\<forall>j < length (pool d). revoked (plist d) (plist (revoke_all_non_owner E i d)) (slot_at j d) (slot_at j (revoke_all_non_owner E i d)))"
  using assms
proof (induction E i d rule: revoke_all_non_owner.induct)
  case (1 E i d)
  note inv = dev_invD(2) [OF "1.prems"(2)]
  then have pinv: "paired_inv (plist d)" by (simp add: list_ok_def)
  show ?case
  proof (cases "i < pcount (plist d)")
    case False
    have all: "prole e = PAIRED_ROLE_OWNER" if "paired_list_get (plist d) j = Some e" for j e
      using "1.prems"(3) [OF that] that False by (simp add: paired_list_get_Some)
    have "prole e = PAIRED_ROLE_OWNER" if "e \<in> set (accounts (plist d))" for e
      using that all accounts_nth_row [OF pinv] by (metis in_set_conv_nth length_accounts [OF pinv])
    then have "filter (\<lambda>e. prole e = PAIRED_ROLE_OWNER) (accounts (plist d)) = accounts (plist d)" by (simp add: filter_id_conv)
    moreover have "revoked (plist d) (plist d) (slot_at j d) (slot_at j d)" if "j < length (pool d)" for j
      by (rule revoked_none) (use all dev_inv_nth [OF "1.prems"(2) that] in auto)
    moreover have "revoke_all_non_owner E i d = d" using False by (subst revoke_all_non_owner.simps) (simp add: paired_list_count_def)
    ultimately show ?thesis using "1.prems"(2) by simp
  next
    case lt: True
    define e where "e = accounts (plist d) ! i"
    have e: "paired_list_get (plist d) (int i) = Some e" using accounts_nth_row [OF pinv lt] by (simp add: e_def)
    show ?thesis
    proof (cases "prole e = PAIRED_ROLE_OWNER")
      case True
      then have step: "revoke_all_non_owner E i d = revoke_all_non_owner E (i + 1) d"
        using lt e by (subst revoke_all_non_owner.simps) (simp add: paired_list_count_def)
      have "prole e' = PAIRED_ROLE_OWNER" if "paired_list_get (plist d) j = Some e'" "j < int (i + 1)" for j e'
        using "1.prems"(3) that e True by (cases "j = int i") auto
      then show ?thesis
        unfolding step using "1.IH"(3) [OF _ e] lt True "1.prems" by (simp add: paired_list_count_def)
    next
      case False
      define d1 where "d1 = push_event E ''unpaired'' (snprintf_buf 41 (cstr (user_sub e))) ''user''
        (on_paired_removed (int i) (snd (paired_list_remove E (int i) d)))"
      have ok: "fst (paired_list_remove E (int i) d) = ESP_OK" using paired_remove_ok [OF "1.prems"(1)] lt by simp
      have step: "revoke_all_non_owner E i d = revoke_all_non_owner E i d1"
        using lt e False ok by (subst revoke_all_non_owner.simps) (simp add: paired_list_count_def d1_def)
      have l1: "plist d1 = remove_entry i (plist d)" using lt by (simp add: d1_def paired_remove_list)
      have i1: "dev_inv d1" unfolding d1_def by (rule dev_inv_push) (use dev_inv_removed [OF "1.prems"(2)] lt in simp)
      have p1: "pool d1 = local_session_on_paired_removed (int i) (pool d)" by (simp add: d1_def)
      have before: "prole e' = PAIRED_ROLE_OWNER" if "paired_list_get (plist d1) j = Some e'" "j < int i" for j e'
      proof -
        have "paired_list_get (plist d1) j = paired_list_get (plist d) j"
          using pl.remove_row [OF pinv, of "int i" j] that lt by (simp add: l1 paired_list_get_Some)
        with "1.prems"(3) that show ?thesis by simp
      qed
      have IH: "dev_inv (revoke_all_non_owner E i d1) \<and>
        accounts (plist (revoke_all_non_owner E i d1)) = filter (\<lambda>e. prole e = PAIRED_ROLE_OWNER) (accounts (plist d1)) \<and>
        length (pool (revoke_all_non_owner E i d1)) = length (pool d1) \<and>
        (\<forall>j < length (pool d1). revoked (plist d1) (plist (revoke_all_non_owner E i d1)) (slot_at j d1) (slot_at j (revoke_all_non_owner E i d1)))"
        unfolding d1_def by (rule "1.IH"(1) [OF _ e]) (use lt False ok "1.prems"(1) i1 before in \<open>simp_all add: paired_list_count_def d1_def\<close>)
      have acc: "filter (\<lambda>e. prole e = PAIRED_ROLE_OWNER) (accounts (plist d1)) = filter (\<lambda>e. prole e = PAIRED_ROLE_OWNER) (accounts (plist d))"
        using remove_entry_accounts [OF pinv lt] lt False pinv by (simp add: l1 filter_del_at e_def)
      have "revoked (plist d) (plist (revoke_all_non_owner E i d1)) (slot_at j d) (slot_at j (revoke_all_non_owner E i d1))"
        if j: "j < length (pool d)" for j
      proof (rule revoked_step [OF pinv e False])
        show "session_wf (slot_at j d)" "session_agrees (plist d) (slot_at j d)" using dev_inv_nth [OF "1.prems"(2) j] by simp_all
        have "slot_at j d1 = session_follow (int i) (slot_at j d)"
          unfolding p1 by (rule nth_on_removed [OF dev_invD(1) [OF "1.prems"(2)] _ j]) simp
        moreover have "j < length (pool d1)" using j by (simp add: p1)
        with IH have "revoked (plist d1) (plist (revoke_all_non_owner E i d1)) (slot_at j d1) (slot_at j (revoke_all_non_owner E i d1))" by blast
        ultimately show "revoked (remove_entry (nat (int i)) (plist d)) (plist (revoke_all_non_owner E i d1)) (session_follow (int i) (slot_at j d))
            (slot_at j (revoke_all_non_owner E i d1))"
          by (simp only: l1 nat_int)
      qed
      then show ?thesis unfolding step using IH acc by (simp add: p1)
    qed
  qed
qed

lemma revoke_all_simps [simp]:
  "pw (revoke_all_non_owner E i d) = pw d" "disc (revoke_all_non_owner E i d) = disc d" "prov (revoke_all_non_owner E i d) = prov d"
  "bcn (revoke_all_non_owner E i d) = bcn d" "wire (revoke_all_non_owner E i d) = wire d" "now_us (revoke_all_non_owner E i d) = now_us d"
  "wall (revoke_all_non_owner E i d) = wall d" "draws (revoke_all_non_owner E i d) = draws d"
  by (induction E i d rule: revoke_all_non_owner.induct; subst revoke_all_non_owner.simps; simp add: Let_def split: option.split)+

section \<open>The handlers keep the invariant\<close>

lemma list_loop_keeps:
  "pool_tx (pool d) (pool (list_loop E sk i count d)) \<and> plist (list_loop E sk i count d) = plist d \<and> events (list_loop E sk i count d) = events d \<and>
   pw (list_loop E sk i count d) = pw d \<and> disc (list_loop E sk i count d) = disc d \<and> prov (list_loop E sk i count d) = prov d"
proof (induction E sk i count d rule: list_loop.induct)
  case (1 E sk i count d)
  show ?case
  proof (cases "i < count \<and> paired_list_get (plist d) (int i) \<noteq> None")
    case True
    then obtain e where e: "paired_list_get (plist d) (int i) = Some e" by auto
    let ?d = "security_send_line E sk (paired_line (cry E) e) d"
    have "list_loop E sk i count d = list_loop E sk (i + 1) count ?d" using True e by (subst list_loop.simps) simp
    with "1.IH" [OF _ e] True pool_tx_trans [OF security_send_pool] show ?thesis by auto
  next
    case False
    then have "list_loop E sk i count d = d" by (subst list_loop.simps) (auto split: option.split)
    then show ?thesis by simp
  qed
qed

lemma dev_inv_list: "dev_inv d \<Longrightarrow> dev_inv (handle_list E k d)"
  using list_loop_keeps [where E = E and d = d]
  by (auto simp: handle_list_def Let_def intro!: dev_inv_security_send elim!: dev_inv_pool_tx)

lemma dev_inv_revoke:
  assumes "dev_inv d" "nvs_reliable (nvs E)"
  shows "dev_inv (handle_revoke E k line d)"
proof -
  have "dev_inv (security_send_line E sk t (push_event E ev sub r (on_paired_removed i (snd (paired_list_remove E i d)))))"
    if "paired_list_get (plist d) i = Some e" for sk t ev sub r i e
    using that by (intro dev_inv_security_send dev_inv_push dev_inv_removed [OF assms(1)]) (simp_all add: paired_list_get_Some)
  moreover have "fst (paired_list_remove E i d) = ESP_OK" if "paired_list_get (plist d) i = Some e" for i e
    using that by (simp add: paired_remove_ok [OF assms(2)] paired_list_get_Some)
  ultimately show ?thesis
    using assms(1) by (auto simp: handle_revoke_def Let_def case_prod_beta dev_inv_send_err split: option.split)
qed

lemma device_password_set_simps [simp]:
  "pool (snd (device_password_set E p d)) = pool d" "plist (snd (device_password_set E p d)) = plist d"
  "events (snd (device_password_set E p d)) = events d" "disc (snd (device_password_set E p d)) = disc d"
  "prov (snd (device_password_set E p d)) = prov d" "wire (snd (device_password_set E p d)) = wire d"
  "draws (snd (device_password_set E p d)) = draws d + 1"
  by (simp_all add: device_password_set_def Let_def split: prod.split)

lemma device_password_clear_simps [simp]:
  "pool (snd (device_password_clear E d)) = pool d" "plist (snd (device_password_clear E d)) = plist d"
  "events (snd (device_password_clear E d)) = events d" "disc (snd (device_password_clear E d)) = disc d"
  "prov (snd (device_password_clear E d)) = prov d" "wire (snd (device_password_clear E d)) = wire d"
  by (simp_all add: device_password_clear_def Let_def split: prod.split)

lemma rotate_dev_simps [simp]:
  "pool (snd (paired_list_rotate_owner_key E d)) = pool d" "pw (snd (paired_list_rotate_owner_key E d)) = pw d"
  "events (snd (paired_list_rotate_owner_key E d)) = events d" "disc (snd (paired_list_rotate_owner_key E d)) = disc d"
  "prov (snd (paired_list_rotate_owner_key E d)) = prov d" "wire (snd (paired_list_rotate_owner_key E d)) = wire d"
  by (simp_all add: paired_list_rotate_owner_key_def Let_def split: prod.split)

lemma rotate_dev_list:
  "plist (snd (paired_list_rotate_owner_key E d)) = fst (snd (rotate_owner_key_locked E (fill_random (cry E) (draws d) 32) (plist d) (flash d)))"
  by (simp add: paired_list_rotate_owner_key_def Let_def split: prod.split)

lemma rotate_agrees:
  assumes "list_ok l" "length fresh = 32" "session_agrees l s"
  shows "session_agrees (fst (snd (rotate_owner_key_locked E fresh l n))) s"
proof -
  obtain err l' n' where r: "rotate_owner_key_locked E fresh l n = (err, l', n')" by (metis prod_cases3)
  from rotate_list_ok [OF assms(1) _ r] assms(2)
  have l': "list_ok l'" "pcount l' = pcount l" "map (\<lambda>e. (user_sub e, prole e)) (accounts l') = map (\<lambda>e. (user_sub e, prole e)) (accounts l)"
    by simp_all
  have inv: "paired_inv l" "paired_inv l'" using assms(1) l'(1) by (auto simp: list_ok_def)
  show ?thesis
    unfolding r fst_conv snd_conv
  proof (rule session_agrees_mono [OF assms(3)])
    fix i e assume e: "paired_list_get l i = Some e"
    then have i: "nat i < pcount l" "0 \<le> i" "e = accounts l ! nat i" by (auto simp: paired_list_get_Some nth_accounts)
    have "map (\<lambda>e. (user_sub e, prole e)) (accounts l') ! nat i = map (\<lambda>e. (user_sub e, prole e)) (accounts l) ! nat i" by (simp only: l'(3))
    then have "prole (accounts l' ! nat i) = prole e" using i inv l'(2) by simp
    moreover have "paired_list_get l' i = Some (accounts l' ! nat i)" using accounts_nth_row [OF inv(2), of "nat i"] i l'(2) by simp
    ultimately show "\<exists>e'. paired_list_get l' i = Some e' \<and> (prole e = PAIRED_ROLE_OWNER \<longrightarrow> prole e' = PAIRED_ROLE_OWNER)" by simp
  qed
qed

lemma dev_inv_rotate:
  assumes "dev_inv d" "cry_sized (cry E)"
  shows "dev_inv (snd (paired_list_rotate_owner_key E d))"
proof -
  obtain err l' n' where r: "rotate_owner_key_locked E (fill_random (cry E) (draws d) 32) (plist d) (flash d) = (err, l', n')" by (metis prod_cases3)
  have ok: "list_ok l'" using rotate_list_ok [OF dev_invD(2) [OF assms(1)] _ r] assms(2) by simp
  show ?thesis
  proof (rule dev_inv_relist [OF assms(1)])
    fix s :: "'b local_session" assume "session_agrees (plist d) s"
    then show "session_agrees (plist (snd (paired_list_rotate_owner_key E d))) s"
      unfolding rotate_dev_list using assms(2) by (intro rotate_agrees [OF dev_invD(2) [OF assms(1)]]) simp_all
  qed (use ok dev_invD(3) [OF assms(1)] in \<open>simp_all add: rotate_dev_list r\<close>)
qed

lemma dev_inv_same: "dev_inv d \<Longrightarrow> pool d' = pool d \<Longrightarrow> plist d' = plist d \<Longrightarrow> events d' = events d \<Longrightarrow> dev_inv d'"
  by (simp add: dev_inv_def)

lemma dev_inv_pwset:
  assumes "dev_inv d" "nvs_reliable (nvs E)" "cry_sized (cry E)"
  shows "dev_inv (handle_pwset E k line d)"
proof -
  have s: "dev_inv (snd (device_password_set E p d))" for p by (rule dev_inv_same [OF assms(1)]) simp_all
  have "dev_inv (revoke_all_non_owner E 0 (snd (device_password_set E p d)))" for p
    using revoke_all_spec [OF assms(2) s, where i = 0] by (simp add: paired_list_get_Some)
  then show ?thesis
    using s assms by (auto simp: handle_pwset_def Let_def case_prod_beta dev_inv_send_err dev_inv_security_send dev_inv_rotate split: option.split)
qed

lemma dev_inv_pwclear: "dev_inv d \<Longrightarrow> dev_inv (handle_pwclear E k d)"
  using dev_inv_same [of d "snd (device_password_clear E d)"]
  by (auto simp: handle_pwclear_def Let_def case_prod_beta dev_inv_send_err dev_inv_security_send)

lemma dev_inv_reset:
  assumes "dev_inv d"
  shows "dev_inv (handle_reset E k d)"
proof -
  let ?d = "security_send_line E (sock (slot_at k d)) ''ACK'' d"
  let ?e = "snd (device_password_clear E (snd (paired_list_clear E ?d)))"
  have p: "pool ?e = pool ?d" "plist ?e = list_zero" "events ?e = events d"
    by (simp_all add: paired_list_clear_def paired_list_clear_locked_def Let_def split: prod.split)
  have inv: "pool_inv (pool ?d)" using dev_invD(1) [OF dev_inv_security_send [OF assms]] .
  have "paired_index s < 0" if "s \<in> set (local_session_drop_all_auth (pool ?d))" for s
    using that inv free_slot_index by (fastforce simp: local_session_drop_all_auth_def pool_inv_def list_all_iff)
  then have "dev_inv (drop_all_auth ?e)"
    using p drop_all_spec(1) [OF inv] dev_invD(3) [OF assms] by (simp add: dev_inv_def drop_all_auth_def list_all_iff)
  then show ?thesis by (simp add: handle_reset_def dev_inv_push)
qed

lemma dev_inv_discoverymode: "dev_inv d \<Longrightarrow> dev_inv (handle_discoverymode E k line d)"
  by (auto simp: handle_discoverymode_def Let_def dev_inv_send_err split: prod.split
    intro!: dev_inv_security_send dev_inv_send_err elim!: dev_inv_same)

lemma dev_inv_unpair:
  assumes "dev_inv d" "nvs_reliable (nvs E)"
  shows "dev_inv (handle_unpair E k d)"
proof -
  let ?d = "security_send_line E (sock (slot_at k d)) ''ACK'' d" and ?i = "paired_index (slot_at k d)"
  have d: "dev_inv ?d" by (rule dev_inv_security_send [OF assms(1)])
  have "dev_inv (push_event E ev sub r (on_paired_removed ?i (snd (paired_list_remove E ?i ?d))))"
    if "paired_list_get (plist d) ?i = Some e" for ev sub r e
    using that by (intro dev_inv_push dev_inv_removed [OF d]) (simp_all add: paired_list_get_Some)
  moreover have "fst (paired_list_remove E ?i ?d) = ESP_OK" if "paired_list_get (plist d) ?i = Some e" for e
    using that by (simp add: paired_remove_ok [OF assms(2)] paired_list_get_Some)
  ultimately show ?thesis
    using assms(1) by (auto simp: handle_unpair_def Let_def case_prod_beta dev_inv_send_err split: option.split)
qed

lemma dev_inv_owner:
  assumes "dev_inv d" "nvs_reliable (nvs E)" "cry_sized (cry E)"
  shows "dev_inv (snd (owner_commands_handle_line E line sk d))"
  using assms
  by (auto simp: owner_commands_handle_line_def handle_discoverymode_get_def dev_inv_send_err dev_inv_security_send dev_inv_list
    dev_inv_revoke dev_inv_pwset dev_inv_pwclear dev_inv_reset dev_inv_discoverymode dev_inv_unpair split: option.split)

section \<open>Setting the password\<close>

definition pwset_line :: "crypto_api \<Rightarrow> bytes \<Rightarrow> bytes" where
  "pwset_line c p = ''PWSET:'' @ b64_encode c p"

lemma pwset_line_is [simp]:
  "has_prefix (pwset_line c p) ''PWSET:''" "is_owner_line (pwset_line c p)" "\<not> is_exact (pwset_line c p) ''LIST''"
  "\<not> has_prefix (pwset_line c p) ''REVOKE:''" "\<not> is_exact (pwset_line c p) ''UNPAIR''"
  by (auto simp: is_owner_line_def has_prefix_def is_exact_def pwset_line_def memcmp_eq_def)

lemma owner_rows_le_1:
  assumes "list_ok l" "\<And>e. e \<in> set (accounts l) \<Longrightarrow> prole e = PAIRED_ROLE_OWNER"
  shows "length (accounts l) \<le> 1"
proof (rule ccontr)
  assume "\<not> length (accounts l) \<le> 1"
  then have n: "0 < length (accounts l)" "1 < length (accounts l)" by linarith+
  have inv: "paired_inv l" "distinct (map sub_key (accounts l))" "roles_ok l" using assms(1) by (auto simp: list_ok_def one_per_account_def)
  have o: "owner_sub l \<noteq> []" using paired_invD(3) [OF inv(1)] by auto
  have "sub_key e = take PAIRED_SUB_MAX (cstr (owner_sub l))" if "e \<in> set (accounts l)" for e
    using assms(2) [OF that] inv(3) that by (auto simp: roles_ok_def list_all_iff role_for_locked_alt [OF o] sub_key_def split: if_splits)
  then have "map sub_key (accounts l) ! 0 = map sub_key (accounts l) ! 1" using n nth_mem by simp
  then show False using inv(2) n nth_eq_iff_index_eq [of "map sub_key (accounts l)" 0 1] by simp
qed

text \<open>Rotation on a list that holds nothing but owners.\<close>

lemma rotate_all:
  assumes "list_ok l" "\<And>e. e \<in> set (accounts l) \<Longrightarrow> prole e = PAIRED_ROLE_OWNER" "nvs_reliable (nvs E)" "length fresh = 32"
  shows "accounts (fst (snd (rotate_owner_key_locked E fresh l n))) = map (\<lambda>e. e \<lparr> pkey := fresh \<rparr>) (accounts l)"
proof -
  have inv: "paired_inv l" using assms(1) by (simp add: list_ok_def)
  have one: "length (accounts l) \<le> 1" by (rule owner_rows_le_1 [OF assms(1,2)])
  from inv show ?thesis
  proof (cases rule: rotate_cases [where E = E and fresh = fresh and n = n])
    case none
    have "accounts l = []" using none(1) assms(2) by (cases "accounts l") auto
    then show ?thesis by (simp add: none(2))
  next
    case (failed err n')
    obtain e es where e: "accounts l = e # es" "prole e = PAIRED_ROLE_OWNER"
      using failed assms(2) by (cases "accounts l") (auto simp: rotate_owner_key_locked_def accounts_def)
    then have i: "index_of (\<lambda>e. prole e = PAIRED_ROLE_OWNER) (take (pcount l) (entries l)) = Some 0" by (simp add: accounts_def)
    obtain m where "paired_nvs_store E (l \<lparr> entries := (entries l)[0 := (entries l ! 0) \<lparr> pkey := fresh \<rparr>] \<rparr>) n = (ESP_OK, m)"
      using paired_nvs_store_reliable [OF assms(3)] by (metis prod.collapse)
    with i failed show ?thesis by (simp add: rotate_owner_key_locked_def Let_def)
  next
    case (rotated r l' n')
    have w: "entry_wf ((entries l ! r) \<lparr> pkey := fresh \<rparr>)"
      using entry_wf_nth [OF inv, of r] rotated(1) paired_invD(2) [OF inv] assms(4) by (simp add: entry_wf_def)
    have r: "r = 0" "length (accounts l) = 1" using rotated(1) one inv by simp_all
    have "accounts l' = (accounts l)[0 := (entries l ! 0) \<lparr> pkey := fresh \<rparr>]"
      using update_entry(2) [OF inv rotated(1) w inv refl refl] r(1) by (simp add: rotated(3))
    also have "\<dots> = map (\<lambda>e. e \<lparr> pkey := fresh \<rparr>) (accounts l)"
      using r(2) nth_accounts [of 0 l] rotated(1) r(1) by (cases "accounts l") auto
    finally show ?thesis by (simp add: rotated(5))
  qed
qed

text \<open>The states a successful \<open>PWSET\<close> goes through.\<close>

lemma pwset_run:
  assumes "base64_lawful (cry E)" "local_session_find sk (pool d) = Some k" "is_owner_session (slot_at k d)"
    "DEVICE_PW_MIN_LEN \<le> length p" "length p \<le> DEVICE_PW_MAX_LEN" "fst (device_password_set E p d) = ESP_OK"
  shows "snd (owner_commands_handle_line E (pwset_line (cry E) p) sk d) =
    security_send_line E sk ''ACK'' (snd (paired_list_rotate_owner_key E (revoke_all_non_owner E 0 (snd (device_password_set E p d)))))"
proof -
  have "next_b64_field (cry E) (drop 6 (pwset_line (cry E) p)) 65 True = Some (p, [])"
    using assms(1,5) b64_no_sep(1) [OF assms(1)]
    by (simp add: next_b64_field_def pwset_line_def split_at_none base64_decode_encode)
  moreover have "sock (slot_at k d) = sk" using find_SomeD [OF assms(2)] by simp
  ultimately show ?thesis
    using assms(2-6) by (simp add: owner_commands_handle_line_def handle_pwset_def Let_def case_prod_beta)
qed

text \<open>A session after a successful \<open>PWSET\<close>: as \<open>revoked\<close> says, but for its transmit counter.\<close>

lemma pwset_sessions:
  fixes E :: "('n, 'h) env" and d :: "('n, 'h) dev"
  assumes "dev_inv d" "nvs_reliable (nvs E)" "base64_lawful (cry E)" "local_session_find sk (pool d) = Some k" "is_owner_session (slot_at k d)"
    "DEVICE_PW_MIN_LEN \<le> length p" "length p \<le> DEVICE_PW_MAX_LEN" "fst (device_password_set E p d) = ESP_OK"
  defines "d1 \<equiv> revoke_all_non_owner E 0 (snd (device_password_set E p d))"
    and "d' \<equiv> snd (owner_commands_handle_line E (pwset_line (cry E) p) sk d)"
  shows "dev_inv d1" "accounts (plist d1) = filter (\<lambda>e. prole e = PAIRED_ROLE_OWNER) (accounts (plist d))" "length (pool d1) = length (pool d)"
    "j < length (pool d) \<Longrightarrow> revoked (plist d) (plist d1) (slot_at j d) (slot_at j d1) \<and> tx_only (slot_at j d1) (slot_at j d')"
proof -
  have i0: "dev_inv (snd (device_password_set E p d))" by (rule dev_inv_same [OF assms(1)]) simp_all
  note r = revoke_all_spec [OF assms(2) i0, where i = 0, folded d1_def]
  show "dev_inv d1" "accounts (plist d1) = filter (\<lambda>e. prole e = PAIRED_ROLE_OWNER) (accounts (plist d))" "length (pool d1) = length (pool d)"
    using r by (simp_all add: paired_list_get_Some)
  show "revoked (plist d) (plist d1) (slot_at j d) (slot_at j d1) \<and> tx_only (slot_at j d1) (slot_at j d')" if "j < length (pool d)"
  proof
    show "revoked (plist d) (plist d1) (slot_at j d) (slot_at j d1)" using r that by (simp add: paired_list_get_Some)
    have "j < length (pool (snd (paired_list_rotate_owner_key E d1)))" using r that by (simp add: paired_list_get_Some)
    from security_send_nth [OF this, of E sk "''ACK''"] show "tx_only (slot_at j d1) (slot_at j d')"
      unfolding d'_def pwset_run [OF assms(3-8)] d1_def [symmetric] by simp
  qed
qed

section \<open>Properties\<close>

text \<open>
  C4. Changing the password locks the other accounts out. After a \<open>PWSET\<close> by the owner that was stored,
  on a flash that works, the new password is in force, the owner's account is the only one left and has
  a fresh random key, and every session that was on another account has lost its account, its role and its
  key and has to start over. The loop over the accounts ends for every list.\<close>

theorem pwset_revokes:
  assumes "dev_inv d" "nvs_reliable (nvs E)" "cry_sized (cry E)" "base64_lawful (cry E)"
    "local_session_find sk (pool d) = Some k" "is_owner_session (slot_at k d)"
    "DEVICE_PW_MIN_LEN \<le> length p" "length p \<le> DEVICE_PW_MAX_LEN" "fst (device_password_set E p d) = ESP_OK"
  shows "let d' = snd (owner_commands_handle_line E (pwset_line (cry E) p) sk d) in
    pw d' = pw (snd (device_password_set E p d)) \<and>
    accounts (plist d') = map (\<lambda>e. e \<lparr> pkey := fill_random (cry E) (draws d + 1) 32 \<rparr>)
      (filter (\<lambda>e. prole e = PAIRED_ROLE_OWNER) (accounts (plist d))) \<and> length (accounts (plist d')) \<le> 1 \<and>
    (\<forall>j < length (pool d). \<forall>e. paired_list_get (plist d) (paired_index (slot_at j d)) = Some e \<and> prole e \<noteq> PAIRED_ROLE_OWNER \<longrightarrow>
      ls_state (slot_at j d') = LS_NEW \<and> ls_role (slot_at j d') = LS_ROLE_NONE \<and> paired_index (slot_at j d') = - 1 \<and>
      skey (slot_at j d') = replicate 32 NUL)"
proof -
  let ?d1 = "revoke_all_non_owner E 0 (snd (device_password_set E p d))"
  let ?d' = "snd (owner_commands_handle_line E (pwset_line (cry E) p) sk d)"
  note s = pwset_sessions [OF assms(1,2,4-9)]
  have own: "prole e = PAIRED_ROLE_OWNER" if "e \<in> set (accounts (plist ?d1))" for e using that s(2) by simp
  have r: "accounts (plist ?d') = map (\<lambda>e. e \<lparr> pkey := fill_random (cry E) (draws d + 1) 32 \<rparr>) (accounts (plist ?d1))"
    using rotate_all [OF dev_invD(2) [OF s(1)] own assms(2), of "fill_random (cry E) (draws d + 1) 32"] assms(3)
    by (simp add: pwset_run [OF assms(4-9)] rotate_dev_list)
  have "ls_state (slot_at j ?d') = LS_NEW \<and> ls_role (slot_at j ?d') = LS_ROLE_NONE \<and> paired_index (slot_at j ?d') = - 1 \<and>
      skey (slot_at j ?d') = replicate 32 NUL"
    if j: "j < length (pool d)" "paired_list_get (plist d) (paired_index (slot_at j d)) = Some e" "prole e \<noteq> PAIRED_ROLE_OWNER" for j e
  proof -
    have "slot_at j ?d1 = drop_auth (slot_at j d)" using s(4) [OF j(1)] j(2,3) by (auto simp: revoked_def paired_list_get_Some)
    then show ?thesis using tx_onlyD [of "slot_at j ?d1" "slot_at j ?d'"] s(4) [OF j(1)] by simp
  qed
  moreover have "pw ?d' = pw (snd (device_password_set E p d))" by (simp add: pwset_run [OF assms(4-9)])
  moreover have "length (accounts (plist ?d')) \<le> 1" using r owner_rows_le_1 [OF dev_invD(2) [OF s(1)] own] by simp
  ultimately show ?thesis unfolding Let_def s(2) [symmetric] using r by blast
qed

definition bench_owner :: "(flash, bench_srp) dev" where
  "bench_owner = bench_dev \<lparr> plist := ann_list, pool := session_zero \<lparr> sock := 5, ls_state := LS_AUTH_OK, ls_role := LS_ROLE_OWNER,
     paired_index := 0, rx_encrypted := True \<rparr> # replicate 7 session_zero \<rparr>"

lemma bench_owner_simps:
  "local_session_find 5 (pool bench_owner) = Some 0" "is_owner_session (slot_at 0 bench_owner)"
  "fst (device_password_set (bench True) ''new password'' bench_owner) = ESP_OK"
proof -
  show "local_session_find 5 (pool bench_owner) = Some 0" "is_owner_session (slot_at 0 bench_owner)"
    by (simp_all add: bench_owner_def local_session_find_def is_owner_session_def)
  show "fst (device_password_set (bench True) ''new password'' bench_owner) = ESP_OK"
    by (simp add: device_password_set_def device_password_set_locked_def nvs_store_pair_def bench_srp_api_def flash_nvs_def Let_def)
qed

lemma replicate_zero:
  "list_all session_wf (replicate n session_zero)" "live_socks (replicate n session_zero) = []"
  "list_all (session_agrees l) (replicate n session_zero)"
  by (simp_all add: list_all_length live_socks_def session_agrees_def) (simp_all add: session_zero_def)

lemma bench_owner_inv: "dev_inv bench_owner"
proof -
  let ?s = "session_zero \<lparr> sock := 5, ls_state := LS_AUTH_OK, ls_role := LS_ROLE_OWNER, paired_index := 0, rx_encrypted := True \<rparr> :: bench_srp local_session"
  obtain e where "paired_list_get ann_list 0 = Some e" "prole e = PAIRED_ROLE_OWNER" using ann_row(2) by blast
  then have "session_agrees ann_list ?s" by (simp add: session_agrees_def)
  moreover have "session_wf ?s" by (simp add: session_wf_def session_zero_def)
  ultimately show ?thesis
    using ann_list_ok by (simp add: bench_owner_def dev_inv_def pool_inv_def bench_dev_def replicate_zero)
qed

theorem pwset_revokes_witness:
  "pw (snd (owner_commands_handle_line (bench True) (pwset_line bench_crypto ''new password'') 5 bench_owner)) =
    pw (snd (device_password_set (bench True) ''new password'' bench_owner))"
proof -
  have "DEVICE_PW_MIN_LEN \<le> length ''new password''" "length ''new password'' \<le> DEVICE_PW_MAX_LEN" by simp_all
  from pwset_revokes [of bench_owner "bench True" 5 0 "''new password''", unfolded bench_simps Let_def, OF bench_owner_inv flash_nvs_reliable
      bench_cry_sized bench_base64_lawful bench_owner_simps(1,2) this bench_owner_simps(3)]
  show ?thesis by blast
qed

section \<open>Two flaws\<close>

text \<open>Nothing already written is taken back.\<close>

lemma enc_send_wire: "\<exists>w. wire (enc_frame_send E sk p d) = wire d @ w"
  by (cases rule: enc_send_cases [of sk d E p]) auto

lemma security_send_wire: "\<exists>w. wire (security_send_line E sk t d) = wire d @ w"
  using enc_send_wire [of E sk "t @ [LF]" d] by (auto simp: security_send_line_def)

lemma list_loop_wire: "set (wire d) \<subseteq> set (wire (list_loop E sk i count d))"
proof (induction E sk i count d rule: list_loop.induct)
  case (1 E sk i count d)
  show ?case
  proof (cases "i < count \<and> paired_list_get (plist d) (int i) \<noteq> None")
    case True
    then obtain e where e: "paired_list_get (plist d) (int i) = Some e" by auto
    have "set (wire d) \<subseteq> set (wire (security_send_line E sk (paired_line (cry E) e) d))"
      using security_send_wire [of E sk "paired_line (cry E) e" d] by auto
    also have "\<dots> \<subseteq> set (wire (list_loop E sk (i + 1) count (security_send_line E sk (paired_line (cry E) e) d)))"
      using "1.IH" [OF _ e] True by simp
    finally show ?thesis using True e by (subst list_loop.simps) simp
  next
    case False
    then have "list_loop E sk i count d = d" by (subst list_loop.simps) (auto split: option.split)
    then show ?thesis by simp
  qed
qed

lemma list_loop_clear:
  "i \<le> j \<Longrightarrow> j < count \<Longrightarrow> count \<le> pcount (plist d) \<Longrightarrow> paired_list_get (plist d) (int j) = Some e \<Longrightarrow>
    63 \<le> length (paired_line (cry E) e) \<Longrightarrow> (sk, paired_line (cry E) e) \<in> set (wire (list_loop E sk i count d))"
proof (induction E sk i count d rule: list_loop.induct)
  case (1 E sk i count d)
  have "int i < int (pcount (plist d))" using "1.prems"(1-3) by linarith
  then obtain e0 where e0: "paired_list_get (plist d) (int i) = Some e0" by (auto simp: paired_list_get_def)
  let ?d = "security_send_line E sk (paired_line (cry E) e0) d"
  have lt: "i < count" using "1.prems"(1,2) by simp
  have step: "list_loop E sk i count d = list_loop E sk (i + 1) count ?d" using lt e0 by (subst list_loop.simps) simp
  show ?case
  proof (cases "i = j")
    case True
    then have "(sk, paired_line (cry E) e) \<in> set (wire ?d)" using "1.prems"(4,5) e0 by (simp add: security_send_line_def)
    then show ?thesis unfolding step using list_loop_wire by blast
  next
    case False
    then show ?thesis unfolding step using "1.IH" [OF lt e0] "1.prems" by simp
  qed
qed

text \<open>
  C27. The list of paired accounts leaves the device in the clear. \<open>security_send_line\<close> takes a line of 63
  bytes or more for one from before the key exchange and writes it to the socket as it is; the answer to
  \<open>LIST\<close>, which is only given on an encrypted session, has such lines: each shows the sub and the address
  of an account, and a 36 character sub alone makes a line that long.\<close>

theorem list_in_the_clear:
  assumes "local_session_find sk (pool d) = Some k" "is_owner_session (slot_at k d)" "paired_list_get (plist d) i = Some e"
    "63 \<le> length (paired_line (cry E) e)"
  shows "session_keyed (slot_at k d) \<and>
    (sk, paired_line (cry E) e) \<in> set (wire (snd (owner_commands_handle_line E ''LIST'' sk d)))"
proof
  show "session_keyed (slot_at k d)" using assms(2) by (auto simp: is_owner_session_def session_keyed_def split: if_splits)
  have sk: "sock (slot_at k d) = sk" using find_SomeD [OF assms(1)] by simp
  have i: "paired_list_get (plist d) (int (nat i)) = Some e" "nat i < pcount (plist d)" using assms(3) by (auto simp: paired_list_get_Some)
  have "(sk, paired_line (cry E) e) \<in> set (wire (list_loop E sk 0 (pcount (plist d)) d))"
    by (rule list_loop_clear [OF _ i(2) _ i(1) assms(4)]) simp_all
  moreover have "snd (owner_commands_handle_line E ''LIST'' sk d) = handle_list E k d"
    using assms(1,2) by (simp add: owner_commands_handle_line_def is_owner_line_def is_exact_def memcmp_eq_def)
  ultimately show "(sk, paired_line (cry E) e) \<in> set (wire (snd (owner_commands_handle_line E ''LIST'' sk d)))"
    using security_send_wire [of E sk "snprintf_buf 24 (''PAIREND:'' @ dec_nat (pcount (plist d)))" "list_loop E sk 0 (pcount (plist d)) d"]
    by (auto simp: handle_list_def Let_def sk paired_list_count_def)
qed

definition uuid_entry :: paired_entry where
  "uuid_entry = entry_zero \<lparr> user_sub := replicate 36 CHR ''s'' @ replicate 5 NUL, prole := PAIRED_ROLE_OWNER \<rparr>"

theorem list_in_the_clear_witness:
  "(5, paired_line bench_crypto uuid_entry) \<in> set (wire (snd (owner_commands_handle_line (bench True) ''LIST'' 5
     (bench_owner \<lparr> plist := list_zero \<lparr> entries := [uuid_entry], pcount := 1 \<rparr> \<rparr>))))"
proof -
  let ?d = "bench_owner \<lparr> plist := list_zero \<lparr> entries := [uuid_entry], pcount := 1 \<rparr> \<rparr>"
  have "cstr (user_sub uuid_entry) = replicate 36 CHR ''s''"
    by (simp add: uuid_entry_def cstr_def eval_nat_numeral)
  then have "63 \<le> length (paired_line bench_crypto uuid_entry)"
    using length_b64_encode [OF bench_base64_lawful] by (simp add: paired_line_def role_text_def uuid_entry_def dec_nat.simps)
  then show ?thesis
    using list_in_the_clear [of 5 ?d 0 0 uuid_entry "bench True"] bench_owner_simps(1,2) by (simp add: paired_list_get_def)
qed

text \<open>
  C26. A proof made with the owner's old key is still accepted after \<open>PWSET\<close>. A session that has had its
  \<open>AUTH1\<close> answered holds a copy of the account's key; \<open>PWSET\<close> gives the account a fresh key and leaves that
  session alone, so the holder of the old key completes \<open>AUTH3\<close> after the lock and is the owner.\<close>

theorem stale_key_after_pwset:
  assumes "dev_inv d" "nvs_reliable (nvs E)" "cry_sized (cry E)" "base64_lawful (cry E)"
    "local_session_find sk (pool d) = Some k" "is_owner_session (slot_at k d)"
    "DEVICE_PW_MIN_LEN \<le> length p" "length p \<le> DEVICE_PW_MAX_LEN" "fst (device_password_set E p d) = ESP_OK"
    "local_session_find sj (pool d) = Some j" "ls_state (slot_at j d) = LS_AUTH_WAIT_PROOF"
    "paired_list_get (plist d) (paired_index (slot_at j d)) = Some e" "prole e = PAIRED_ROLE_OWNER"
  shows "let s = slot_at j d; d' = snd (owner_commands_handle_line E (pwset_line (cry E) p) sk d);
      mac = auth_proof (cry E) (skey s) ''phn'' (nonce_dev s) (nonce_phone s);
      d'' = snd (local_auth_handle_line E (phone_auth3 (cry E) mac) sj d')
    in ls_state (slot_at j d'') = LS_AUTH_OK \<and> ls_role (slot_at j d'') = LS_ROLE_OWNER"
proof -
  let ?s = "slot_at j d" and ?d1 = "revoke_all_non_owner E 0 (snd (device_password_set E p d))"
  let ?d' = "snd (owner_commands_handle_line E (pwset_line (cry E) p) sk d)"
  let ?mac = "auth_proof (cry E) (skey ?s) ''phn'' (nonce_dev ?s) (nonce_phone ?s)"
  note ps = pwset_sessions [OF assms(1,2,4-9)]
  have j: "j < length (pool d)" "sock ?s = sj" "0 \<le> sj" using find_SomeD [OF assms(10)] by auto
  have inv: "dev_inv ?d'" by (rule dev_inv_owner [OF assms(1-3)])
  obtain n where n: "slot_at j ?d1 = ?s \<lparr> paired_index := n \<rparr>" "paired_list_get (plist ?d1) n = Some e"
    using ps(4) [OF j(1)] assms(12,13) by (auto simp: revoked_def paired_list_get_Some)
  then have s': "slot_at j ?d' = ?s \<lparr> paired_index := n \<rparr>"
    using ps(4) [OF j(1)] tx_only_unkeyed [of "slot_at j ?d1" "slot_at j ?d'"] assms(11) by (simp add: session_keyed_def)
  have len: "length (pool ?d') = length (pool d)" using dev_invD(1) [OF inv] dev_invD(1) [OF assms(1)] by (simp add: pool_inv_def)
  have f: "local_session_find sj (pool ?d') = Some j"
    using find_iff [of "pool ?d'" sj j] dev_invD(1) [OF inv] j len s' by (simp add: pool_inv_def)
  have own: "prole a = PAIRED_ROLE_OWNER" if "a \<in> set (accounts (plist ?d1))" for a using that ps(2) by simp
  have acc: "accounts (plist ?d') = map (\<lambda>e. e \<lparr> pkey := fill_random (cry E) (draws d + 1) 32 \<rparr>) (accounts (plist ?d1))"
    using rotate_all [OF dev_invD(2) [OF ps(1)] own assms(2), of "fill_random (cry E) (draws d + 1) 32"] assms(3)
    by (simp add: pwset_run [OF assms(4-9)] rotate_dev_list)
  have pi: "paired_inv (plist ?d1)" "paired_inv (plist ?d')" using dev_invD(2) [OF ps(1)] dev_invD(2) [OF inv] by (auto simp: list_ok_def)
  have c: "pcount (plist ?d') = pcount (plist ?d1)" using arg_cong [OF acc, of length] pi by simp
  have "0 \<le> n" "nat n < pcount (plist ?d1)" "e = accounts (plist ?d1) ! nat n" using n(2) by (auto simp: paired_list_get_Some nth_accounts)
  then have "\<exists>e'. paired_list_get (plist ?d') n = Some e' \<and> prole e' = PAIRED_ROLE_OWNER"
    using accounts_nth_row [OF pi(2), of "nat n"] c acc assms(13) pi(1) by simp
  then have rr: "row_role (plist ?d') n = LS_ROLE_OWNER" by (auto simp: row_role_def)
  have len: "length ?mac = 32" using assms(3) by (simp add: auth_proof_def local_auth_hmac_def)
  have fs: "ls_state (slot_at j ?d') = LS_AUTH_WAIT_PROOF" "skey (slot_at j ?d') = skey ?s" "nonce_dev (slot_at j ?d') = nonce_dev ?s"
    "nonce_phone (slot_at j ?d') = nonce_phone ?s" "paired_index (slot_at j ?d') = n"
    unfolding s' using assms(11) by simp_all
  have "slot_at j (snd (local_auth_handle_line E (phone_auth3 (cry E) ?mac) sj ?d')) = authenticated_session (cry E) (plist ?d') (slot_at j ?d')"
    by (rule conjunct1 [OF auth3_run(1) [OF assms(4,3) f fs(1) len]]) (simp only: fs)
  then show ?thesis unfolding Let_def by (simp only: authenticated_session_simps fs rr simp_thms)
qed

definition bench_stale :: "(flash, bench_srp) dev" where
  "bench_stale = bench_owner \<lparr> pool := (pool bench_owner)[1 := session_zero \<lparr> sock := 6, ls_state := LS_AUTH_WAIT_PROOF, paired_index := 0 \<rparr>] \<rparr>"

lemma bench_stale_simps:
  "local_session_find 5 (pool bench_stale) = Some 0" "is_owner_session (slot_at 0 bench_stale)" "plist bench_stale = ann_list"
  "local_session_find 6 (pool bench_stale) = Some 1" "ls_state (slot_at 1 bench_stale) = LS_AUTH_WAIT_PROOF" "paired_index (slot_at 1 bench_stale) = 0"
  "fst (device_password_set (bench True) ''new password'' bench_stale) = ESP_OK"
  using bench_owner_simps(3)
  by (simp_all add: bench_stale_def bench_owner_def local_session_find_def is_owner_session_def device_password_set_def Let_def eval_nat_numeral
    split: prod.splits)

lemma bench_stale_inv: "dev_inv bench_stale"
proof -
  let ?s = "session_zero \<lparr> sock := 6, ls_state := LS_AUTH_WAIT_PROOF, paired_index := 0 \<rparr> :: bench_srp local_session"
  obtain e where "paired_list_get ann_list 0 = Some e" using ann_row(2) by blast
  then have "session_agrees ann_list ?s" by (simp add: session_agrees_def session_zero_def)
  moreover have "session_wf ?s" by (simp add: session_wf_def session_zero_def)
  moreover have "6 \<notin> sock ` set (pool bench_owner)" by (auto simp: bench_owner_def session_zero_def)
  moreover have "length (pool bench_owner) = 8" "plist bench_owner = ann_list" by (simp_all add: bench_owner_def)
  ultimately show ?thesis
    using bench_owner_inv by (simp add: bench_stale_def dev_inv_def pool_inv_def list_all_updateI distinct_live_update)
qed

theorem stale_key_after_pwset_witness:
  "\<exists>mac. ls_role (slot_at 1 (snd (local_auth_handle_line (bench True) (phone_auth3 bench_crypto mac) 6
     (snd (owner_commands_handle_line (bench True) (pwset_line bench_crypto ''new password'') 5 bench_stale))))) = LS_ROLE_OWNER"
proof -
  have len: "DEVICE_PW_MIN_LEN \<le> length ''new password''" "length ''new password'' \<le> DEVICE_PW_MAX_LEN" by simp_all
  obtain e where e: "paired_list_get (plist bench_stale) (paired_index (slot_at 1 bench_stale)) = Some e" "prole e = PAIRED_ROLE_OWNER"
    using ann_row(2) unfolding bench_stale_simps(3,6) by blast
  from stale_key_after_pwset [of bench_stale "bench True" 5 0 "''new password''" 6 1 e, unfolded bench_simps Let_def, OF bench_stale_inv
      flash_nvs_reliable bench_cry_sized bench_base64_lawful bench_stale_simps(1,2) len bench_stale_simps(7,4,5) e]
  show ?thesis by blast
qed

end
