(* ===== verification/Session_Rights.thy ===== *)
theory Session_Rights
  imports Owner_Commands
begin

text \<open>
  What a line may do to the rights of the sessions. \<open>no_gain s s'\<close> says that a session is no better off
  in \<open>s'\<close> than in \<open>s\<close>: same socket, and if it holds a key it held the same key, in the same state and
  role, before, on the same row of the paired list or a later one (a removal moves the rows behind it down). \<open>calm p q\<close> says it of a whole pool. Each line handler is calm but for three
  events, all on the session of the socket the line came from: a verified \<open>PAKE3\<close> proof, a verified
  \<open>AUTH3\<close> proof, and an \<open>ENROLL\<close> on a session that proved the password.
\<close>

definition no_gain :: "'h local_session \<Rightarrow> 'h local_session \<Rightarrow> bool" where
  "no_gain s s' \<longleftrightarrow> sock s' = sock s \<and>
     (session_keyed s' \<longrightarrow> ls_state s' = ls_state s \<and> skey s' = skey s \<and> ls_role s' = ls_role s \<and>
       paired_index s' \<le> paired_index s)"

definition calm :: "'h pool \<Rightarrow> 'h pool \<Rightarrow> bool" where
  "calm p q \<longleftrightarrow> list_all2 no_gain p q"

lemma no_gain_refl [simp]: "no_gain s s"
  by (simp add: no_gain_def)

lemma no_gain_trans: "no_gain a b \<Longrightarrow> no_gain b c \<Longrightarrow> no_gain a c"
  by (auto simp: no_gain_def session_keyed_def)

lemma calm_refl [simp]: "calm p p"
  by (simp add: calm_def list.rel_refl)

lemma calm_trans: "calm p q \<Longrightarrow> calm q r \<Longrightarrow> calm p r"
  unfolding calm_def using list_all2_trans [of no_gain no_gain no_gain p q r] no_gain_trans by blast

lemma calmD:
  "calm p q \<Longrightarrow> length q = length p" "calm p q \<Longrightarrow> k < length p \<Longrightarrow> no_gain (p ! k) (q ! k)"
  by (auto simp: calm_def list_all2_lengthD list_all2_nthD)

lemma calmI: "length q = length p \<Longrightarrow> (\<And>k. k < length p \<Longrightarrow> no_gain (p ! k) (q ! k)) \<Longrightarrow> calm p q"
  by (simp add: calm_def list_all2_all_nthI)

lemma tx_only_no_gain: "tx_only s s' \<Longrightarrow> no_gain s s'"
  by (simp add: no_gain_def tx_onlyD)

lemma pool_tx_calm: "pool_tx p q \<Longrightarrow> calm p q"
  by (intro calmI) (simp_all add: pool_txD tx_only_no_gain)

lemma calm_update:
  assumes "no_gain (p ! k) s'"
  shows "calm p (p[k := s'])"
proof (rule calmI)
  show "no_gain (p ! j) (p[k := s'] ! j)" if "j < length p" for j
    using assms that by (cases "j = k") simp_all
qed simp

lemma calm_update_tx: "no_gain (p ! k) s' \<Longrightarrow> pool_tx (p[k := s']) q \<Longrightarrow> calm p q"
  by (rule calm_trans [OF calm_update pool_tx_calm])

lemma calm_socks: "calm p q \<Longrightarrow> map sock q = map sock p"
  by (intro nth_equalityI) (simp_all add: calmD(1) calmD(2) [unfolded no_gain_def])

lemma calm_map: "(\<And>s. s \<in> set p \<Longrightarrow> no_gain s (f s)) \<Longrightarrow> calm p (map f p)"
  by (intro calmI) simp_all

lemma no_gain_idle: "sock s' = sock s \<Longrightarrow> ls_state s' \<noteq> LS_PAKE_OK \<Longrightarrow> ls_state s' \<noteq> LS_AUTH_OK \<Longrightarrow> no_gain s s'"
  by (simp add: no_gain_def session_keyed_def)

lemma calm_removed: "0 \<le> i \<Longrightarrow> calm p (local_session_on_paired_removed i p)"
  unfolding local_session_on_paired_removed_def
  by (rule calm_map) (auto simp: no_gain_def session_keyed_def drop_auth_def)

lemma calm_drop_all: "calm p (local_session_drop_all_auth p)"
  unfolding local_session_drop_all_auth_def
  by (rule calm_map) (auto simp: no_gain_def session_keyed_def drop_auth_def)

lemma calm_send_err: "calm (pool d) (pool (send_err E sk t d))"
  by (rule pool_tx_calm [OF pool_tx_err]) simp

lemma calm_send_line: "calm (pool d) (pool (security_send_line E sk t d))"
  by (rule pool_tx_calm [OF security_send_pool])

section \<open>The password handshake\<close>

lemma pake_rights:
  assumes "k < length (pool d)"
  shows "calm (pool d) (pool (handle_pake1 E k line d))"
    and "calm (pool d) (pool (handle_pake3 E k line d)) \<or>
      (\<exists>h M1 M2. ls_state (slot_at k d) = LS_PAKE_WAIT_PROOF \<and> srp_ctx (slot_at k d) = Some h \<and>
         decode_payload (cry E) line ''PAKE3:'' SRP_PROOF_LEN = Some M1 \<and>
         srp_exchange_proofs (srp E) h DEVICE_PW_SRP_IDENTITY M1 = (ESP_OK, M2) \<and>
         pool_tx ((pool d)[k := (slot_at k d) \<lparr> srp_ctx := None, tx_ctr := 0, rx_ctr := 0, ls_state := LS_PAKE_OK \<rparr>])
           (pool (handle_pake3 E k line d)))"
proof -
  show "calm (pool d) (pool (handle_pake1 E k line d))"
    by (cases rule: pake1_cases [OF assms, of E line, case_names refused waiting])
      (auto intro!: no_gain_idle simp: local_session_reset_handshake_def elim!: calm_update_tx [rotated])
  show "calm (pool d) (pool (handle_pake3 E k line d)) \<or>
      (\<exists>h M1 M2. ls_state (slot_at k d) = LS_PAKE_WAIT_PROOF \<and> srp_ctx (slot_at k d) = Some h \<and>
         decode_payload (cry E) line ''PAKE3:'' SRP_PROOF_LEN = Some M1 \<and>
         srp_exchange_proofs (srp E) h DEVICE_PW_SRP_IDENTITY M1 = (ESP_OK, M2) \<and>
         pool_tx ((pool d)[k := (slot_at k d) \<lparr> srp_ctx := None, tx_ctr := 0, rx_ctr := 0, ls_state := LS_PAKE_OK \<rparr>])
           (pool (handle_pake3 E k line d)))"
  proof (cases rule: pake3_cases [OF assms, of E line, case_names refused aborted proved])
    case aborted
    have "no_gain (slot_at k d) (abort_pake (slot_at k d))" by (rule no_gain_idle) (simp_all add: abort_pake_def)
    from calm_update_tx [OF this aborted(2)] show ?thesis by blast
  qed (use pool_tx_calm in blast)+
qed

section \<open>The account handshake\<close>

lemma auth1_rights: "calm (pool d) (pool (handle_auth1 E k line d))"
  by (cases rule: auth1_cases [of d k E line])
    (auto intro!: no_gain_idle simp: local_session_reset_handshake_def challenged_def elim!: calm_update_tx [rotated])

lemma auth3_rights:
  "calm (pool d) (pool (handle_auth3 E k line d)) \<or>
   (\<exists>mac. ls_state (slot_at k d) = LS_AUTH_WAIT_PROOF \<and> decode_fields (cry E) line ''AUTH3:'' [33] = Some [mac] \<and>
      length mac = LOCAL_AUTH_MAC_LEN \<and>
      local_auth_ct_equal mac (auth_proof (cry E) (skey (slot_at k d)) ''phn'' (nonce_dev (slot_at k d)) (nonce_phone (slot_at k d))) LOCAL_AUTH_MAC_LEN \<and>
      pool_tx ((pool d)[k := authenticated_session (cry E) (plist d) (slot_at k d)]) (pool (handle_auth3 E k line d)))"
proof (cases rule: auth3_cases [of d E k line])
  case rejected
  have "no_gain (slot_at k d) ((slot_at k d) \<lparr> skey := replicate 32 NUL, paired_index := - 1, ls_state := LS_NEW \<rparr>)"
    by (rule no_gain_idle) simp_all
  from calm_update_tx [OF this rejected(2)] show ?thesis by blast
qed (use pool_tx_calm in blast)+

lemma enroll_rights:
  "calm (pool d) (pool (handle_enroll E k line d)) \<or>
   (\<exists>sub email i role. ls_state (slot_at k d) = LS_PAKE_OK \<and> rx_encrypted (slot_at k d) \<and> enroll_fields (cry E) line = Some (sub, email) \<and>
      pool_tx ((pool d)[k := enrolled i role (slot_at k d)]) (pool (handle_enroll E k line d)))"
  by (cases rule: enroll_cases [of d E k line]) (use pool_tx_calm in blast)+

section \<open>The owner's commands\<close>

lemma revoke_all_rights: "calm (pool d) (pool (revoke_all_non_owner E i d))"
proof (induction E i d rule: revoke_all_non_owner.induct)
  case (1 E i d)
  show ?case
  proof (cases "i < paired_list_count (plist d)")
    case lt: True
    show ?thesis
    proof (cases "paired_list_get (plist d) (int i)")
      case (Some e)
      have r: "calm (pool d) (local_session_on_paired_removed (int i) (pool d))" by (rule calm_removed) simp
      show ?thesis
        using "1.IH" [OF lt Some] calm_trans [OF r] lt Some
        by (subst revoke_all_non_owner.simps) (auto simp: Let_def)
    qed (subst revoke_all_non_owner.simps, simp)
  qed (subst revoke_all_non_owner.simps, simp)
qed

lemma owner_rights: "calm (pool d) (pool (snd (owner_commands_handle_line E line sk d)))"
proof -
  have list: "calm (pool d) (pool (handle_list E k d))" for k
    unfolding handle_list_def Let_def by (rule calm_trans [OF pool_tx_calm calm_send_line]) (simp add: list_loop_keeps)
  have revoke: "calm (pool d) (pool (handle_revoke E k line d))" for k
    by (auto simp: handle_revoke_def Let_def case_prod_beta paired_list_get_Some calm_send_err split: option.split
      intro!: calm_trans [OF _ calm_send_line] calm_trans [OF _ calm_send_err] calm_removed)
  have unpair: "calm (pool d) (pool (handle_unpair E k d))" for k
    by (auto simp: handle_unpair_def Let_def case_prod_beta paired_list_get_Some calm_send_err split: option.split
      intro!: calm_send_line calm_trans [OF calm_send_line calm_removed])
  have pwset: "calm (pool d) (pool (handle_pwset E k line d))" for k
    using revoke_all_rights [where E = E and i = 0 and d = "snd (device_password_set E p d)" for p]
    by (auto simp: handle_pwset_def Let_def case_prod_beta calm_send_err split: option.split
      intro!: calm_trans [OF _ calm_send_line] calm_trans [OF _ calm_send_err])
  have reset: "calm (pool d) (pool (handle_reset E k d))" for k
    by (simp add: handle_reset_def Let_def drop_all_auth_def paired_list_clear_def case_prod_beta
      calm_trans [OF calm_send_line calm_drop_all])
  have pwclear: "calm (pool d) (pool (handle_pwclear E k d))" for k
    by (auto simp: handle_pwclear_def Let_def case_prod_beta intro!: calm_trans [OF _ calm_send_line] calm_trans [OF _ calm_send_err])
  have disc: "calm (pool d) (pool (handle_discoverymode E k line d))" for k
    by (auto simp: handle_discoverymode_def Let_def case_prod_beta calm_send_err
      intro!: calm_trans [OF _ calm_send_line] calm_trans [OF _ calm_send_err])
  show ?thesis
    using list revoke unpair pwset reset pwclear disc calm_send_line calm_send_err
    by (auto simp: owner_commands_handle_line_def handle_discoverymode_get_def split: option.split)
qed

end
