(* ===== verification/Response_Fifo.thy ===== *)
theory Response_Fifo
  imports Prelude
begin

text \<open>
  The byte FIFO of outgoing responses (\<open>src/common/response_fifo.c\<close>): a fixed array, the index
  of its first free byte and a binary semaphore. The file defines the operations on the array as
  the source writes them, the invariant they keep, the contract they give their producers and
  consumers (locale \<open>byte_queue\<close>) and the interpretation of that contract by the model.
\<close>

definition RESPONSE_FIFO_SIZE :: nat where "RESPONSE_FIFO_SIZE = 5120"

text \<open>\<open>RESPONSE_FIFO_ON_FULL\<close>: the two compile-time policies.\<close>

datatype on_full = DROP_NEW | OVERWRITE_OLDEST

record fifo =
  fbuf :: bytes
  flen :: nat
  data_ready :: bool

text \<open>\<open>memcpy(buf + off, data, length data)\<close> on an array.\<close>

definition write_at :: "nat \<Rightarrow> bytes \<Rightarrow> bytes \<Rightarrow> bytes" where
  "write_at off data buf = take off buf @ data @ drop (off + length data) buf"

definition response_fifo_init :: fifo where
  "response_fifo_init =
     \<lparr>fbuf = replicate RESPONSE_FIFO_SIZE NUL, flen = 0, data_ready = False\<rparr>"

text \<open>
  The loop of \<open>discard_oldest\<close>: advance \<open>discard\<close> past whole lines until \<open>need\<close> bytes are free.
\<close>

function discard_loop :: "bytes \<Rightarrow> nat \<Rightarrow> nat \<Rightarrow> nat \<Rightarrow> nat" where
  "discard_loop buf len need discard =
     (if RESPONSE_FIFO_SIZE - (len - discard) < need \<and> discard < len
      then discard_loop buf len need
             (case index_of (\<lambda>c. c = LF) (take (len - discard) (drop discard buf)) of
                Some i \<Rightarrow> discard + i + 1
              | None \<Rightarrow> len)
      else discard)"
  by pat_completeness auto
termination
  by (relation "measure (\<lambda>(buf, len, need, discard). len - discard)") (auto split: option.splits)

declare discard_loop.simps [simp del]

definition discard_oldest :: "fifo \<Rightarrow> nat \<Rightarrow> fifo" where
  "discard_oldest f need =
     (let discard = discard_loop (fbuf f) (flen f) need 0
      in if 0 < discard
         then let rest = take (flen f - discard) (drop discard (fbuf f));
                  buf = write_at 0 rest (fbuf f);
                  len = flen f - discard
              in f\<lparr>fbuf := write_at len (replicate discard NUL) buf, flen := len\<rparr>
         else f)"

definition response_fifo_push :: "on_full \<Rightarrow> fifo \<Rightarrow> bytes \<Rightarrow> bool \<times> fifo" where
  "response_fifo_push mode f data =
     (let add_nl = (data = [] \<or> last data \<noteq> LF);
          need = length data + (if add_nl then 1 else 0)
      in if RESPONSE_FIFO_SIZE < need then (False, f)
         else if RESPONSE_FIFO_SIZE < flen f + need \<and> mode = DROP_NEW then (False, f)
         else let g = (if RESPONSE_FIFO_SIZE < flen f + need then discard_oldest f need else f);
                  h = g\<lparr>fbuf := write_at (flen g) data (fbuf g), flen := flen g + length data\<rparr>;
                  k = (if add_nl
                       then h\<lparr>fbuf := (fbuf h)[flen h := LF], flen := flen h + 1\<rparr> else h)
              in (True, k\<lparr>data_ready := True\<rparr>))"

definition response_fifo_drain :: "fifo \<Rightarrow> nat \<Rightarrow> bytes \<times> fifo" where
  "response_fifo_drain f out_cap =
     (let n = (if flen f < out_cap then flen f else out_cap);
          out = take n (fbuf f);
          len = flen f - n;
          buf = write_at 0 (take len (drop n (fbuf f))) (fbuf f)
      in (out, f\<lparr>flen := len, fbuf := write_at len (replicate n NUL) buf\<rparr>))"

definition response_fifo_is_empty :: "fifo \<Rightarrow> bool" where
  "response_fifo_is_empty f \<longleftrightarrow> flen f = 0"

text \<open>
  \<open>response_fifo_wait\<close>: data already there, or the semaphore is taken; \<open>False\<close> when the ticks
  elapse without a push.
\<close>

definition response_fifo_wait :: "fifo \<Rightarrow> bool \<times> fifo" where
  "response_fifo_wait f =
     (if \<not> response_fifo_is_empty f then (True, f)
      else if data_ready f then (True, f\<lparr>data_ready := False\<rparr>) else (False, f))"

section \<open>Abstraction and invariant\<close>

definition fifo_content :: "fifo \<Rightarrow> bytes" where
  "fifo_content f = take (flen f) (fbuf f)"

definition fifo_inv :: "fifo \<Rightarrow> bool" where
  "fifo_inv f \<longleftrightarrow> length (fbuf f) = RESPONSE_FIFO_SIZE \<and> flen f \<le> RESPONSE_FIFO_SIZE \<and>
     drop (flen f) (fbuf f) = replicate (RESPONSE_FIFO_SIZE - flen f) NUL \<and>
     (fifo_content f = [] \<or> last (fifo_content f) = LF)"

text \<open>The line a push stores: the data with its newline, added when missing.\<close>

definition terminated :: "bytes \<Rightarrow> bytes" where
  "terminated data = (if data = [] \<or> last data \<noteq> LF then data @ [LF] else data)"

lemma fifo_invI:
  assumes "length (fbuf f) = RESPONSE_FIFO_SIZE" "flen f \<le> RESPONSE_FIFO_SIZE"
    and "drop (flen f) (fbuf f) = replicate (RESPONSE_FIFO_SIZE - flen f) NUL"
    and "fifo_content f = [] \<or> last (fifo_content f) = LF"
  shows "fifo_inv f"
  using assms by (simp add: fifo_inv_def)

lemma fifo_inv_tail:
  assumes "fifo_inv f"
  shows "drop (flen f) (fbuf f) = replicate (RESPONSE_FIFO_SIZE - flen f) NUL"
  using assms by (simp add: fifo_inv_def)

lemma fifo_inv_buf:
  assumes "fifo_inv f"
  shows "fbuf f = fifo_content f @ replicate (RESPONSE_FIFO_SIZE - flen f) NUL"
  using fifo_inv_tail [OF assms] append_take_drop_id [of "flen f" "fbuf f"]
  by (simp add: fifo_content_def)

lemma fifo_inv_length: "fifo_inv f \<Longrightarrow> length (fifo_content f) = flen f"
  by (simp add: fifo_inv_def fifo_content_def)

lemma terminated_nonempty [simp]: "terminated d \<noteq> []"
  by (simp add: terminated_def)

lemma last_terminated [simp]: "last (terminated d) = LF"
  by (simp add: terminated_def)

lemma length_terminated:
  "length (terminated d) = length d + (if d = [] \<or> last d \<noteq> LF then 1 else 0)"
  by (simp add: terminated_def)

lemma response_fifo_init_inv: "fifo_inv response_fifo_init"
  by (simp add: fifo_inv_def response_fifo_init_def fifo_content_def)

lemma response_fifo_init_content [simp]: "fifo_content response_fifo_init = []"
  by (simp add: response_fifo_init_def fifo_content_def)

text \<open>Storing a line that fits: the common last step of every push.\<close>

definition fifo_append :: "fifo \<Rightarrow> bytes \<Rightarrow> fifo" where
  "fifo_append g data =
     (let h = g\<lparr>fbuf := write_at (flen g) data (fbuf g), flen := flen g + length data\<rparr>;
          k = (if data = [] \<or> last data \<noteq> LF
               then h\<lparr>fbuf := (fbuf h)[flen h := LF], flen := flen h + 1\<rparr> else h)
      in k\<lparr>data_ready := True\<rparr>)"

lemma fifo_append_fields:
  assumes inv: "fifo_inv g"
    and fits: "flen g + length (terminated data) \<le> RESPONSE_FIFO_SIZE"
  shows "fbuf (fifo_append g data) = fifo_content g @ terminated data @
           replicate (RESPONSE_FIFO_SIZE - (flen g + length (terminated data))) NUL"
    and "flen (fifo_append g data) = flen g + length (terminated data)"
proof -
  let ?c = "fifo_content g"
  let ?r = "RESPONSE_FIFO_SIZE - flen g"
  have len: "length ?c = flen g" by (rule fifo_inv_length [OF inv])
  have buf: "fbuf g = ?c @ replicate ?r NUL" by (rule fifo_inv_buf [OF inv])
  have w: "write_at (flen g) data (fbuf g) = ?c @ data @ replicate (?r - length data) NUL"
    by (subst buf, simp add: write_at_def len)
  show "flen (fifo_append g data) = flen g + length (terminated data)"
    by (simp add: fifo_append_def Let_def length_terminated)
  show "fbuf (fifo_append g data) = ?c @ terminated data @
      replicate (RESPONSE_FIFO_SIZE - (flen g + length (terminated data))) NUL"
  proof (cases "data = [] \<or> last data \<noteq> LF")
    case True
    with fits have r: "?r - length data = Suc (RESPONSE_FIFO_SIZE - (flen g + length data + 1))"
      by (simp add: length_terminated)
    have "(?c @ data @ replicate (?r - length data) NUL)[flen g + length data := LF] =
        ?c @ data @ LF # replicate (RESPONSE_FIFO_SIZE - (flen g + length data + 1)) NUL"
      by (subst r, simp add: list_update_append len)
    with True show ?thesis
      by (simp add: fifo_append_def Let_def w terminated_def)
  next
    case False
    then show ?thesis by (simp add: fifo_append_def Let_def w terminated_def)
  qed
qed

lemma fifo_append_content:
  assumes "fifo_inv g" "flen g + length (terminated data) \<le> RESPONSE_FIFO_SIZE"
  shows "fifo_content (fifo_append g data) = fifo_content g @ terminated data"
proof -
  have "length (fifo_content g) = flen g" by (rule fifo_inv_length [OF assms(1)])
  then show ?thesis
    by (simp add: fifo_content_def [of "fifo_append g data"] fifo_append_fields [OF assms])
qed

lemma fifo_append_inv:
  assumes "fifo_inv g" "flen g + length (terminated data) \<le> RESPONSE_FIFO_SIZE"
  shows "fifo_inv (fifo_append g data)"
proof (rule fifo_invI)
  have len: "length (fifo_content g) = flen g" by (rule fifo_inv_length [OF assms(1)])
  show "length (fbuf (fifo_append g data)) = RESPONSE_FIFO_SIZE"
    using assms(2) by (simp add: fifo_append_fields [OF assms] len)
  show "flen (fifo_append g data) \<le> RESPONSE_FIFO_SIZE"
    using assms(2) by (simp add: fifo_append_fields [OF assms])
  show "drop (flen (fifo_append g data)) (fbuf (fifo_append g data))
      = replicate (RESPONSE_FIFO_SIZE - flen (fifo_append g data)) NUL"
    by (simp add: fifo_append_fields [OF assms] len)
  show "fifo_content (fifo_append g data) = [] \<or> last (fifo_content (fifo_append g data)) = LF"
    by (simp add: fifo_append_content [OF assms])
qed

section \<open>Dropping new lines\<close>

lemma push_drop_new:
  "response_fifo_push DROP_NEW f data =
     (if flen f + length (terminated data) \<le> RESPONSE_FIFO_SIZE then (True, fifo_append f data)
      else (False, f))"
  by (auto simp: response_fifo_push_def fifo_append_def Let_def length_terminated)

lemma push_drop_new_inv: "fifo_inv f \<Longrightarrow> fifo_inv (snd (response_fifo_push DROP_NEW f data))"
  by (simp add: push_drop_new fifo_append_inv)

section \<open>Draining\<close>

lemma drain_fields:
  assumes inv: "fifo_inv f" and n: "n = min (flen f) cap"
  shows "fst (response_fifo_drain f cap) = take n (fifo_content f)"
    and "fbuf (snd (response_fifo_drain f cap)) =
           drop n (fifo_content f) @ replicate (RESPONSE_FIFO_SIZE - (flen f - n)) NUL"
    and "flen (snd (response_fifo_drain f cap)) = flen f - n"
    and "data_ready (snd (response_fifo_drain f cap)) = data_ready f"
proof -
  let ?c = "fifo_content f"
  have len: "length ?c = flen f" by (rule fifo_inv_length [OF inv])
  have le: "flen f \<le> RESPONSE_FIFO_SIZE" using inv by (simp add: fifo_inv_def)
  have buf: "fbuf f = ?c @ replicate (RESPONSE_FIFO_SIZE - flen f) NUL"
    by (rule fifo_inv_buf [OF inv])
  have m: "(if flen f < cap then flen f else cap) = n" using n by simp
  have nle: "n \<le> flen f" using n by simp
  show "fst (response_fifo_drain f cap) = take n ?c"
    unfolding response_fifo_drain_def Let_def m
    by (subst buf, simp add: len nle)
  show "flen (snd (response_fifo_drain f cap)) = flen f - n"
    unfolding response_fifo_drain_def Let_def m by simp
  show "data_ready (snd (response_fifo_drain f cap)) = data_ready f"
    unfolding response_fifo_drain_def Let_def m by simp
  have rest: "take (flen f - n) (drop n (fbuf f)) = drop n ?c"
    by (subst buf, simp add: len nle)
  have lrest: "length (drop n ?c) = flen f - n" by (simp add: len)
  have tl: "drop (flen f) (fbuf f) = replicate (RESPONSE_FIFO_SIZE - flen f) NUL"
    by (rule fifo_inv_tail [OF inv])
  have w0: "write_at 0 (drop n ?c) (fbuf f) = drop n ?c @ drop (flen f - n) (fbuf f)"
    by (simp add: write_at_def len)
  have "write_at (flen f - n) (replicate n NUL) (drop n ?c @ drop (flen f - n) (fbuf f)) =
      drop n ?c @ replicate n NUL @ drop (flen f) (fbuf f)"
    using nle by (simp add: write_at_def len)
  also have "\<dots> = drop n ?c @ replicate n NUL @ replicate (RESPONSE_FIFO_SIZE - flen f) NUL"
    by (simp only: tl)
  also have "\<dots> = drop n ?c @ replicate (RESPONSE_FIFO_SIZE - (flen f - n)) NUL"
    using nle le by (simp add: replicate_add [symmetric])
  finally show "fbuf (snd (response_fifo_drain f cap)) =
      drop n ?c @ replicate (RESPONSE_FIFO_SIZE - (flen f - n)) NUL"
    unfolding response_fifo_drain_def Let_def m by (simp add: rest w0)
qed

lemma drain_content:
  assumes "fifo_inv f"
  shows "fst (response_fifo_drain f cap) = take cap (fifo_content f)"
    and "fifo_content (snd (response_fifo_drain f cap)) = drop cap (fifo_content f)"
proof -
  let ?n = "min (flen f) cap" and ?c = "fifo_content f"
  have len: "length ?c = flen f" by (rule fifo_inv_length [OF assms])
  have n: "take ?n ?c = take cap ?c" "drop ?n ?c = drop cap ?c"
    using len by (auto simp: min_def)
  show "fst (response_fifo_drain f cap) = take cap ?c"
    by (simp only: drain_fields(1) [OF assms refl] n)
  have "fifo_content (snd (response_fifo_drain f cap)) = take (flen f - ?n) (drop ?n ?c @
      replicate (RESPONSE_FIFO_SIZE - (flen f - ?n)) NUL)"
    by (simp only: fifo_content_def [of "snd (response_fifo_drain f cap)"]
        drain_fields(2,3) [OF assms refl])
  also have "\<dots> = drop ?n ?c" using len by simp
  finally show "fifo_content (snd (response_fifo_drain f cap)) = drop cap ?c"
    by (simp only: n)
qed

lemma drain_inv:
  assumes "fifo_inv f"
  shows "fifo_inv (snd (response_fifo_drain f cap))"
proof (rule fifo_invI)
  let ?n = "min (flen f) cap"
  have len: "length (fifo_content f) = flen f" by (rule fifo_inv_length [OF assms])
  have le: "flen f \<le> RESPONSE_FIFO_SIZE" using assms by (simp add: fifo_inv_def)
  show "length (fbuf (snd (response_fifo_drain f cap))) = RESPONSE_FIFO_SIZE"
    using le by (simp add: drain_fields [OF assms refl] len)
  show "flen (snd (response_fifo_drain f cap)) \<le> RESPONSE_FIFO_SIZE"
    using le by (simp add: drain_fields [OF assms refl])
  show "drop (flen (snd (response_fifo_drain f cap))) (fbuf (snd (response_fifo_drain f cap)))
      = replicate (RESPONSE_FIFO_SIZE - flen (snd (response_fifo_drain f cap))) NUL"
    by (simp add: drain_fields [OF assms refl] len)
  have "drop cap (fifo_content f) = [] \<or> last (drop cap (fifo_content f)) = LF"
    using assms by (cases "cap < length (fifo_content f)") (auto simp: fifo_inv_def last_drop)
  then show "fifo_content (snd (response_fifo_drain f cap)) = []
      \<or> last (fifo_content (snd (response_fifo_drain f cap))) = LF"
    by (simp add: drain_content [OF assms])
qed

section \<open>The contract\<close>

text \<open>
  What a producer and a consumer rely on: a push either stores the whole line at the end or
  leaves the queue as it was, a drain removes a prefix, in order.
\<close>

locale byte_queue =
  fixes push :: "'q \<Rightarrow> bytes \<Rightarrow> bool \<times> 'q"
    and drain :: "'q \<Rightarrow> nat \<Rightarrow> bytes \<times> 'q"
    and content :: "'q \<Rightarrow> bytes"
    and inv :: "'q \<Rightarrow> bool"
    and capacity :: nat
  assumes push_stored: "inv q \<Longrightarrow> push q d = (True, q') \<Longrightarrow> content q' = content q @ terminated d"
    and push_refused: "inv q \<Longrightarrow> push q d = (False, q') \<Longrightarrow> q' = q"
    and push_keeps: "inv q \<Longrightarrow> inv (snd (push q d))"
    and push_accepts: "inv q \<Longrightarrow> length (content q) + length (terminated d) \<le> capacity \<Longrightarrow> fst (push q d)"
    and drain_out: "inv q \<Longrightarrow> fst (drain q n) = take n (content q)"
    and drain_rest: "inv q \<Longrightarrow> content (snd (drain q n)) = drop n (content q)"
    and drain_keeps: "inv q \<Longrightarrow> inv (snd (drain q n))"
    and bounded: "inv q \<Longrightarrow> length (content q) \<le> capacity"
begin

fun push_all :: "'q \<Rightarrow> bytes list \<Rightarrow> bool list \<times> 'q" where
  "push_all q [] = ([], q)"
| "push_all q (d # ds) =
     (let (ok, q1) = push q d; (oks, q2) = push_all q1 ds in (ok # oks, q2))"

text \<open>After any run of pushes the content is the accepted lines in order, whole.\<close>

lemma push_all_content:
  assumes "inv q" "push_all q ds = (oks, q')"
  shows "inv q' \<and> length oks = length ds \<and>
    content q' = content q @ concat (map (terminated \<circ> snd) (filter fst (zip oks ds)))"
  using assms
proof (induction ds arbitrary: q oks q')
  case Nil
  then show ?case by simp
next
  case (Cons d ds)
  obtain ok q1 where p: "push q d = (ok, q1)" by fastforce
  obtain oks' q2 where r: "push_all q1 ds = (oks', q2)" by fastforce
  have i1: "inv q1" using push_keeps [OF Cons.prems(1), of d] p by simp
  have o: "oks = ok # oks'" "q' = q2" using Cons.prems(2) p r by (auto simp: Let_def)
  have c1: "content q1 = content q @ (if ok then terminated d else [])"
    using push_stored [OF Cons.prems(1)] push_refused [OF Cons.prems(1)] p by (cases ok) auto
  from Cons.IH [OF i1 r] show ?case by (auto simp: o c1)
qed

text \<open>A consumer whose buffer is as large as the queue takes everything.\<close>

lemma drain_all:
  assumes "inv q"
  shows "fst (drain q capacity) = content q \<and> content (snd (drain q capacity)) = []"
  using drain_out [OF assms] drain_rest [OF assms] bounded [OF assms] by simp

end

interpretation rf: byte_queue "response_fifo_push DROP_NEW" response_fifo_drain fifo_content
  fifo_inv RESPONSE_FIFO_SIZE
proof unfold_locales
  fix q d q'
  assume i: "fifo_inv q" and p: "response_fifo_push DROP_NEW q d = (True, q')"
  from p have "flen q + length (terminated d) \<le> RESPONSE_FIFO_SIZE" "q' = fifo_append q d"
    by (auto simp: push_drop_new split: if_splits)
  with i show "fifo_content q' = fifo_content q @ terminated d"
    by (simp add: fifo_append_content)
next
  fix q d q'
  assume "fifo_inv q" "response_fifo_push DROP_NEW q d = (False, q')"
  then show "q' = q" by (auto simp: push_drop_new split: if_splits)
next
  fix q d
  assume i: "fifo_inv q" and
    l: "length (fifo_content q) + length (terminated d) \<le> RESPONSE_FIFO_SIZE"
  then show "fst (response_fifo_push DROP_NEW q d)"
    by (simp add: push_drop_new fifo_inv_length)
next
  fix q n
  assume i: "fifo_inv q"
  then show "fst (response_fifo_drain q n) = take n (fifo_content q)"
    by (rule drain_content)
  from i show "fifo_content (snd (response_fifo_drain q n)) = drop n (fifo_content q)"
    by (rule drain_content)
  from i show "fifo_inv (snd (response_fifo_drain q n))" by (rule drain_inv)
  from i show "length (fifo_content q) \<le> RESPONSE_FIFO_SIZE"
    by (simp add: fifo_inv_length) (simp add: fifo_inv_def)
qed (rule push_drop_new_inv)

section \<open>Overwriting the oldest lines\<close>

lemma discard_loop_step:
  "RESPONSE_FIFO_SIZE - (len - discard) < need \<Longrightarrow> discard < len \<Longrightarrow>
   discard_loop buf len need discard = discard_loop buf len need
     (case index_of (\<lambda>c. c = LF) (take (len - discard) (drop discard buf)) of
        Some i \<Rightarrow> discard + i + 1 | None \<Rightarrow> len)"
  by (subst discard_loop.simps) simp

lemma discard_loop_stop:
  "\<not> (RESPONSE_FIFO_SIZE - (len - discard) < need \<and> discard < len) \<Longrightarrow>
   discard_loop buf len need discard = discard"
  by (subst discard_loop.simps) (rule if_not_P)

lemma discard_loop_bounds:
  "discard \<le> len \<Longrightarrow> discard \<le> discard_loop buf len need discard \<and>
     discard_loop buf len need discard \<le> len"
proof (induction buf len need discard rule: discard_loop.induct)
  case (1 buf len need discard)
  let ?s = "take (len - discard) (drop discard buf)"
  let ?next = "case index_of (\<lambda>c. c = LF) ?s of Some i \<Rightarrow> discard + i + 1 | None \<Rightarrow> len"
  have nx: "discard \<le> ?next \<and> ?next \<le> len"
    using 1(2) by (auto split: option.splits dest!: index_of_SomeD(1))
  show ?case
  proof (cases "RESPONSE_FIFO_SIZE - (len - discard) < need \<and> discard < len")
    case True
    with 1 nx have "?next \<le> discard_loop buf len need ?next \<and> discard_loop buf len need ?next \<le> len"
      by blast
    moreover have "discard_loop buf len need discard = discard_loop buf len need ?next"
      using True by (intro discard_loop_step) auto
    ultimately show ?thesis using nx by linarith
  next
    case False
    with 1(2) discard_loop_stop [OF False, of buf] show ?thesis by simp
  qed
qed

lemma discard_loop_frees:
  "need \<le> RESPONSE_FIFO_SIZE \<Longrightarrow>
   need \<le> RESPONSE_FIFO_SIZE - (len - discard_loop buf len need discard)"
proof (induction buf len need discard rule: discard_loop.induct)
  case (1 buf len need discard)
  show ?case
  proof (cases "RESPONSE_FIFO_SIZE - (len - discard) < need \<and> discard < len")
    case True
    with 1 show ?thesis by (simp only: discard_loop_step)
  next
    case False
    with 1(2) discard_loop_stop [OF False, of buf] show ?thesis by linarith
  qed
qed

lemma discard_oldest_eq_drain:
  assumes "fifo_inv f"
  shows "discard_oldest f need = snd (response_fifo_drain f (discard_loop (fbuf f) (flen f) need 0))"
proof -
  let ?d = "discard_loop (fbuf f) (flen f) need 0"
  have d: "?d \<le> flen f" using discard_loop_bounds [of 0] by simp
  have "snd (response_fifo_drain f 0) = f"
    using assms fifo_inv_buf [OF assms, symmetric]
    by (simp add: response_fifo_drain_def write_at_def Let_def fifo_inv_def fifo_content_def)
  with d show ?thesis
    by (auto simp: discard_oldest_def response_fifo_drain_def Let_def)
qed

lemma discard_oldest_inv: "fifo_inv f \<Longrightarrow> fifo_inv (discard_oldest f need)"
  by (simp add: discard_oldest_eq_drain drain_inv)

lemma discard_oldest_content:
  assumes "fifo_inv f"
  shows "fifo_content (discard_oldest f need) =
    drop (discard_loop (fbuf f) (flen f) need 0) (fifo_content f)"
  by (simp add: discard_oldest_eq_drain [OF assms] drain_content [OF assms])

lemma discard_oldest_room:
  assumes "fifo_inv f" "need \<le> RESPONSE_FIFO_SIZE"
  shows "flen (discard_oldest f need) + need \<le> RESPONSE_FIFO_SIZE"
proof -
  let ?d = "discard_loop (fbuf f) (flen f) need 0"
  have "flen (discard_oldest f need) = flen f - ?d"
    using discard_loop_bounds [of 0 "flen f" "fbuf f" need]
    by (simp add: discard_oldest_eq_drain [OF assms(1)] drain_fields [OF assms(1) refl])
  moreover have "need \<le> RESPONSE_FIFO_SIZE - (flen f - ?d)"
    by (rule discard_loop_frees [OF assms(2)])
  moreover have "flen f \<le> RESPONSE_FIFO_SIZE" using assms(1) by (simp add: fifo_inv_def)
  ultimately show ?thesis using assms(2) by linarith
qed

lemma push_overwrite:
  assumes "fifo_inv f"
  shows "response_fifo_push OVERWRITE_OLDEST f data =
     (if RESPONSE_FIFO_SIZE < length (terminated data) then (False, f)
      else (True, fifo_append (if RESPONSE_FIFO_SIZE < flen f + length (terminated data)
                               then discard_oldest f (length (terminated data)) else f) data))"
  by (auto simp: response_fifo_push_def fifo_append_def Let_def length_terminated)

section \<open>Properties\<close>

text \<open>
  C18. The FIFO delivers whole lines in order. After any sequence of pushes onto an empty FIFO
  under the firmware's policy (drop the new line when it does not fit), draining it with a
  buffer of its size returns exactly the concatenation of the accepted lines, each ended by its
  newline, and leaves the FIFO empty; every line that was accepted is in it and none is split.
\<close>

theorem fifo_delivers_accepted_lines:
  "let (oks, f) = rf.push_all response_fifo_init ds;
       (out, f') = response_fifo_drain f RESPONSE_FIFO_SIZE
   in length oks = length ds \<and> fifo_inv f' \<and> fifo_content f' = [] \<and>
      out = concat (map (terminated \<circ> snd) (filter fst (zip oks ds)))"
proof -
  obtain oks f where p: "rf.push_all response_fifo_init ds = (oks, f)" by fastforce
  obtain out f' where d: "response_fifo_drain f RESPONSE_FIFO_SIZE = (out, f')" by fastforce
  note c = rf.push_all_content [OF response_fifo_init_inv p]
  have "out = fifo_content f" "fifo_content f' = []" "fifo_inv f'"
    using rf.drain_all [of f] rf.drain_keeps [of f RESPONSE_FIFO_SIZE] c d by auto
  with c p d show ?thesis by simp
qed

text \<open>
  With the overwrite policy a line that fits the FIFO at all is always stored, the FIFO stays
  within its array, and what is thrown away to make room is a prefix of the old content.
\<close>

theorem fifo_overwrite_oldest:
  assumes "fifo_inv f" "length (terminated data) \<le> RESPONSE_FIFO_SIZE"
  shows "\<exists>k f'. response_fifo_push OVERWRITE_OLDEST f data = (True, f') \<and> fifo_inv f' \<and>
    fifo_content f' = drop k (fifo_content f) @ terminated data"
proof (cases "RESPONSE_FIFO_SIZE < flen f + length (terminated data)")
  case True
  let ?g = "discard_oldest f (length (terminated data))"
  have g: "fifo_inv ?g" by (rule discard_oldest_inv [OF assms(1)])
  have r: "flen ?g + length (terminated data) \<le> RESPONSE_FIFO_SIZE"
    by (rule discard_oldest_room [OF assms])
  show ?thesis
    using assms(2) True fifo_append_inv [OF g r] fifo_append_content [OF g r]
    by (auto simp: push_overwrite [OF assms(1)] discard_oldest_content [OF assms(1)])
next
  case False
  then have r: "flen f + length (terminated data) \<le> RESPONSE_FIFO_SIZE" by simp
  show ?thesis
    using assms(2) False fifo_append_inv [OF assms(1) r] fifo_append_content [OF assms(1) r]
    by (auto simp: push_overwrite [OF assms(1)] intro!: exI [of _ 0])
qed

theorem fifo_overwrite_oldest_witness:
  "\<exists>k f'. response_fifo_push OVERWRITE_OLDEST response_fifo_init ''5:10:on'' = (True, f') \<and>
     fifo_inv f' \<and> fifo_content f' = drop k (fifo_content response_fifo_init) @ terminated ''5:10:on''"
  by (rule fifo_overwrite_oldest [OF response_fifo_init_inv])
    (simp add: terminated_def RESPONSE_FIFO_SIZE_def)

end
