(* ===== verification/Flash_Partitions.thy ===== *)
theory Flash_Partitions
  imports Device
begin

text \<open>
  The raw data partitions: \<open>ota_lib/ota_handler.c\<close>, \<open>ota_lib/flash_boot_handler.c\<close>,
  \<open>memory_handler/flash_wifi_info_handler.c\<close>, \<open>memory_handler/flash_reset_handler.c\<close>, and the factory
  reset by power cycling of \<open>common/reset_handler.c\<close>.

  The \<open>esp_partition\<close> calls belong to ESP-IDF and are the record \<open>part_api\<close>; a partition is named by
  the type and subtype it is searched with, \<open>'p\<close> is the state of the chip. What the firmware relies on
  is \<open>part_lawful\<close>: an erased sector reads \<open>0xFF\<close>, a write can only clear bits, reads see both. The
  globals of the four files are the record \<open>fl\<close>; a power cycle (\<open>power_cycle\<close>) sets them back to
  their initializers and keeps the chip.

  Shown here: four interrupted boots in a row change nothing but the counter and the fifth one erases
  the owner, and one boot that lasts two seconds sets the count back although \<open>ota_erase_write\<close> does
  not erase for its second write; what \<open>flash_store_wifi_router_info\<close> stores is read back.
\<close>

type_synonym part_id = "nat \<times> nat"

record 'p part_api =
  esp_partition_read :: "part_id \<Rightarrow> nat \<Rightarrow> nat \<Rightarrow> 'p \<Rightarrow> esp_err \<times> bytes"
  esp_partition_write :: "part_id \<Rightarrow> nat \<Rightarrow> bytes \<Rightarrow> 'p \<Rightarrow> esp_err \<times> 'p"
  esp_partition_erase_range :: "part_id \<Rightarrow> nat \<Rightarrow> nat \<Rightarrow> 'p \<Rightarrow> esp_err \<times> 'p"
  esp_ota_set_boot_partition :: "part_id \<Rightarrow> 'p \<Rightarrow> esp_err \<times> 'p"
  rodata :: "bytes \<Rightarrow> bytes"

text \<open>\<open>rodata s\<close> are the bytes the program image holds behind the string literal \<open>s\<close> and its NUL.\<close>

abbreviation (input) BOOT_PART :: part_id where "BOOT_PART \<equiv> (0x59, 0x0B)"
abbreviation (input) WIFI_INFO_PART :: part_id where "WIFI_INFO_PART \<equiv> (0x41, 0x05)"
abbreviation (input) RESET_COUNTER_PART :: part_id where "RESET_COUNTER_PART \<equiv> (0x42, 0x06)"
abbreviation (input) ESP_PARTITION_TYPE_APP :: nat where "ESP_PARTITION_TYPE_APP \<equiv> 0"
abbreviation (input) APP_OTA_0 :: nat where "APP_OTA_0 \<equiv> 0x10"
abbreviation (input) APP_OTA_1 :: nat where "APP_OTA_1 \<equiv> 0x11"
abbreviation (input) FF :: byte where "FF \<equiv> CHR 0xFF"

record 'p fl =
  chip :: 'p
  new_write_partition :: part_id
  new_erase_partition :: part_id
  new_read_partition :: part_id
  new_erase_write_partition :: part_id
  last_erase_offset :: nat
  flash_wifi_mode :: bytes
  flash_router_ssid :: bytes
  flash_router_password :: bytes
  registeration_reset_counter :: nat

section \<open>Partition access\<close>

definition ota_set_new_write_partition :: "part_id \<Rightarrow> 'p fl \<Rightarrow> 'p fl" where
  "ota_set_new_write_partition i s = s \<lparr> new_write_partition := i \<rparr>"

definition ota_set_new_erase_partition :: "part_id \<Rightarrow> 'p fl \<Rightarrow> 'p fl" where
  "ota_set_new_erase_partition i s = s \<lparr> new_erase_partition := i \<rparr>"

definition ota_set_new_read_partition :: "part_id \<Rightarrow> 'p fl \<Rightarrow> 'p fl" where
  "ota_set_new_read_partition i s = s \<lparr> new_read_partition := i \<rparr>"

definition ota_set_new_erase_write_partition :: "part_id \<Rightarrow> 'p fl \<Rightarrow> 'p fl" where
  "ota_set_new_erase_write_partition i s = s \<lparr> new_erase_write_partition := i \<rparr>"

definition ota_write :: "'p part_api \<Rightarrow> nat \<Rightarrow> bytes \<Rightarrow> 'p fl \<Rightarrow> esp_err \<times> 'p fl" where
  "ota_write A off data s =
    (let (e, c) = esp_partition_write A (new_write_partition s) off data (chip s) in (e, s \<lparr> chip := c \<rparr>))"

definition ota_erase :: "'p part_api \<Rightarrow> nat \<Rightarrow> nat \<Rightarrow> 'p fl \<Rightarrow> esp_err \<times> 'p fl" where
  "ota_erase A off n s =
    (let (e, c) = esp_partition_erase_range A (new_erase_partition s) off n (chip s) in (e, s \<lparr> chip := c \<rparr>))"

definition ota_read :: "'p part_api \<Rightarrow> nat \<Rightarrow> nat \<Rightarrow> 'p fl \<Rightarrow> esp_err \<times> bytes" where
  "ota_read A off n s = esp_partition_read A (new_read_partition s) off n (chip s)"

text \<open>The sectors erased before a write that ends at \<open>stop\<close>: sector by sector until past it.\<close>

function erase_ahead :: "'p part_api \<Rightarrow> nat \<Rightarrow> 'p fl \<Rightarrow> esp_err \<times> 'p fl" where
  "erase_ahead A stop s =
    (if stop < last_erase_offset s then (ESP_OK, s)
     else
       let (e, c) = esp_partition_erase_range A (new_erase_write_partition s) (last_erase_offset s) 4096 (chip s);
           s = s \<lparr> chip := c \<rparr>
       in if e \<noteq> ESP_OK then (e, s)
          else erase_ahead A stop (s \<lparr> last_erase_offset := last_erase_offset s + 4096 \<rparr>))"
  by pat_completeness auto
termination
  by (relation "measure (\<lambda>(A, stop, s). stop + 1 - last_erase_offset s)") auto

declare erase_ahead.simps [simp del]

definition ota_erase_write :: "'p part_api \<Rightarrow> nat \<Rightarrow> bytes \<Rightarrow> 'p fl \<Rightarrow> esp_err \<times> 'p fl" where
  "ota_erase_write A off data s =
    (let (e, s) = erase_ahead A (off + length data) s in
     if e \<noteq> ESP_OK then (e, s)
     else
       let (e, c) = esp_partition_write A (new_erase_write_partition s) off data (chip s) in (e, s \<lparr> chip := c \<rparr>))"

definition ota_set_boot_firmware :: "'p part_api \<Rightarrow> nat \<Rightarrow> 'p fl \<Rightarrow> esp_err \<times> 'p fl" where
  "ota_set_boot_firmware A part s =
    (let s = ota_set_new_erase_write_partition (ESP_PARTITION_TYPE_APP, part) s;
         (e, c) = esp_ota_set_boot_partition A (new_erase_write_partition s) (chip s)
     in (e, s \<lparr> chip := c \<rparr>))"

section \<open>The boot request\<close>

definition flash_erase_boot_partition :: "'p part_api \<Rightarrow> 'p fl \<Rightarrow> esp_err \<times> 'p fl" where
  "flash_erase_boot_partition A s = ota_erase A 0 4096 (ota_set_new_erase_partition BOOT_PART s)"

text \<open>The third component says whether the function restarts the chip.\<close>

definition flash_read_boot_partition :: "'p part_api \<Rightarrow> 'p fl \<Rightarrow> esp_err \<times> 'p fl \<times> bool" where
  "flash_read_boot_partition A s =
    (let s = ota_set_new_read_partition BOOT_PART s;
         (e, b) = ota_read A 0 2 s
     in if e \<noteq> ESP_OK then (e, s, False)
        else if b ! 0 = CHR ''B'' then
          (let slot = of_char (b ! 1) in
           if slot = APP_OTA_0 \<or> slot = APP_OTA_1 then
             (let (e, s) = ota_set_boot_firmware A slot s in
              if e = ESP_OK then (ESP_OK, snd (flash_erase_boot_partition A s), True) else (ESP_OK, s, False))
           else (ESP_OK, snd (flash_erase_boot_partition A s), False))
        else (ESP_OK, s, False))"

definition flash_erase_write_boot_partition :: "'p part_api \<Rightarrow> byte \<Rightarrow> 'p fl \<Rightarrow> esp_err \<times> 'p fl" where
  "flash_erase_write_boot_partition A boot_partition s =
    ota_erase_write A 0 [CHR ''B'', boot_partition] (ota_set_new_erase_write_partition BOOT_PART s)"

section \<open>Wi-Fi credentials\<close>

abbreviation (input) WIFI_STA_MODE :: bytes where "WIFI_STA_MODE \<equiv> ''WiMStA'' @ [CR, LF]"
abbreviation (input) WIFI_AP_MODE :: bytes where "WIFI_AP_MODE \<equiv> ''WiMAcP'' @ [CR, LF]"
abbreviation (input) FLASH_WIFI_MODE_SIZE :: nat where "FLASH_WIFI_MODE_SIZE \<equiv> 0x100"

definition flash_read_wifi_router_info :: "'p part_api \<Rightarrow> 'p fl \<Rightarrow> esp_err \<times> 'p fl" where
  "flash_read_wifi_router_info A s =
    (let s = ota_set_new_read_partition WIFI_INFO_PART s;
         (e, m) = ota_read A 0 FLASH_WIFI_MODE_SIZE s in
     if e \<noteq> ESP_OK then (e, s)
     else
       let s = s \<lparr> flash_wifi_mode := m \<rparr>; (e, i) = ota_read A 0x100 0x100 s in
       if e \<noteq> ESP_OK then (e, s)
       else
         let s = s \<lparr> flash_router_ssid := i \<rparr>; (e, p) = ota_read A 0x400 0x100 s in
         if e \<noteq> ESP_OK then (e, s) else (ESP_OK, s \<lparr> flash_router_password := p \<rparr>))"

text \<open>
  The mode is written from the literal with the length of the flash field, so the bytes behind the
  literal go to flash as well; \<open>ssid\<close> and \<open>password\<close> are the bytes written, NUL included.
\<close>

definition flash_store_wifi_router_info :: "'p part_api \<Rightarrow> bytes \<Rightarrow> bytes \<Rightarrow> bytes \<Rightarrow> 'p fl \<Rightarrow> esp_err \<times> 'p fl" where
  "flash_store_wifi_router_info A ssid password new_wifi_mode s =
    (let s = ota_set_new_write_partition WIFI_INFO_PART (ota_set_new_erase_partition WIFI_INFO_PART s);
         (e, s) = flash_read_wifi_router_info A s in
     if e \<noteq> ESP_OK then (e, s)
     else
       let (e, s) = ota_erase A 0 4096 s in
       if e \<noteq> ESP_OK then (e, s)
       else
         let (e, s) = ota_write A 0 (take FLASH_WIFI_MODE_SIZE (new_wifi_mode @ [NUL] @ rodata A new_wifi_mode)) s in
         if e \<noteq> ESP_OK then (e, s)
         else
           let (e, s) = ota_write A 0x100 ssid s in
           if e \<noteq> ESP_OK then (e, s) else ota_write A 0x400 password s)"

section \<open>The reset counter\<close>

definition flash_read_reset_counter :: "'p part_api \<Rightarrow> 'p fl \<Rightarrow> esp_err \<times> 'p fl" where
  "flash_read_reset_counter A s =
    (let s = ota_set_new_read_partition RESET_COUNTER_PART s;
         (e, b) = ota_read A 0 2 s
     in if e \<noteq> ESP_OK then (e, s)
        else if b ! 0 = CHR ''C'' then
          (if b ! 1 \<noteq> FF then (e, s \<lparr> registeration_reset_counter := of_char (b ! 1) \<rparr>)
           else (e, s \<lparr> registeration_reset_counter := 0 \<rparr>))
        else (e, s \<lparr> registeration_reset_counter := 0 \<rparr>))"

definition flash_erase_write_reset_counter :: "'p part_api \<Rightarrow> nat \<Rightarrow> 'p fl \<Rightarrow> esp_err \<times> 'p fl" where
  "flash_erase_write_reset_counter A n s =
    (let s = ota_set_new_erase_write_partition RESET_COUNTER_PART s;
         (e, s) = ota_erase_write A 0 [CHR ''C'', char_of (n mod 256)] s
     in if e \<noteq> ESP_OK then (e, s) else (e, s \<lparr> registeration_reset_counter := n \<rparr>))"

section \<open>Power cycles and the factory reset\<close>

text \<open>What a power cycle leaves: the chip, and the globals at their initializers.\<close>

definition power_cycle :: "'p fl \<Rightarrow> 'p fl" where
  "power_cycle s = \<lparr> chip = chip s, new_write_partition = (0, 0), new_erase_partition = (0, 0), new_read_partition = (0, 0),
     new_erase_write_partition = (0, 0), last_erase_offset = 0, flash_wifi_mode = FF # replicate 255 NUL,
     flash_router_ssid = FF # replicate 255 NUL, flash_router_password = FF # replicate 255 NUL,
     registeration_reset_counter = 0 \<rparr>"

text \<open>
  \<open>reset_handler\<close> up to its delay of two seconds, and the rest; a boot whose power is cut in between
  runs the first half only. The third component says whether the handler restarts the chip.
\<close>

definition reset_handler_start ::
    "('n, 'h) env \<Rightarrow> 'p part_api \<Rightarrow> ('n, 'h) dev \<Rightarrow> 'p fl \<Rightarrow> ('n, 'h) dev \<times> 'p fl \<times> bool" where
  "reset_handler_start E A d s =
    (let (e, s) = flash_read_reset_counter A s in
     if e = ESP_OK then
       let s = s \<lparr> registeration_reset_counter := registeration_reset_counter s + 1 \<rparr> in
       if registeration_reset_counter s > 4 then
         let (_, d) = paired_list_clear E d;
             (_, d) = device_password_clear E d;
             d = push_event E ''reset'' [] [] d;
             (_, s) = flash_store_wifi_router_info A (''0'' @ [NUL]) (''0'' @ [NUL]) WIFI_AP_MODE s;
             s = s \<lparr> registeration_reset_counter := 0 \<rparr>
         in (d, snd (flash_erase_write_reset_counter A (registeration_reset_counter s) s), True)
       else (d, snd (flash_erase_write_reset_counter A (registeration_reset_counter s) s), False)
     else (d, s, False))"

definition reset_handler_done :: "'p part_api \<Rightarrow> 'p fl \<Rightarrow> 'p fl" where
  "reset_handler_done A s =
    (let s = s \<lparr> registeration_reset_counter := 0 \<rparr>
     in snd (flash_erase_write_reset_counter A (registeration_reset_counter s) s))"

definition reset_handler ::
    "('n, 'h) env \<Rightarrow> 'p part_api \<Rightarrow> ('n, 'h) dev \<Rightarrow> 'p fl \<Rightarrow> ('n, 'h) dev \<times> 'p fl \<times> bool" where
  "reset_handler E A d s =
    (let (d, s, restart) = reset_handler_start E A d s
     in if restart then (d, s, True) else (d, reset_handler_done A s, False))"

section \<open>The chip the firmware relies on\<close>

text \<open>Writing to flash clears bits, never sets one.\<close>

fun and_byte :: "byte \<Rightarrow> byte \<Rightarrow> byte" where
  "and_byte (Char a0 a1 a2 a3 a4 a5 a6 a7) (Char b0 b1 b2 b3 b4 b5 b6 b7) =
     Char (a0 \<and> b0) (a1 \<and> b1) (a2 \<and> b2) (a3 \<and> b3) (a4 \<and> b4) (a5 \<and> b5) (a6 \<and> b6) (a7 \<and> b7)"

lemma and_byte_simps [simp]: "and_byte FF b = b" "and_byte b NUL = NUL" "and_byte b b = b"
  by (cases b; simp)+

text \<open>
  A healthy chip whose partitions have at least one sector, the only one these files touch:
  \<open>cell i k c\<close> is the byte at offset \<open>k\<close> of partition \<open>i\<close>. No call fails.
\<close>

definition part_lawful :: "'p part_api \<Rightarrow> (part_id \<Rightarrow> nat \<Rightarrow> 'p \<Rightarrow> byte) \<Rightarrow> bool" where
  "part_lawful A cell \<longleftrightarrow>
    (\<forall>i off n c. off + n \<le> 4096 \<longrightarrow>
       esp_partition_read A i off n c = (ESP_OK, map (\<lambda>k. cell i k c) [off..<off + n])) \<and>
    (\<forall>i off d c. off + length d \<le> 4096 \<longrightarrow>
       fst (esp_partition_write A i off d c) = ESP_OK \<and>
       (\<forall>j k. cell j k (snd (esp_partition_write A i off d c)) =
          (if j = i \<and> off \<le> k \<and> k < off + length d then and_byte (cell i k c) (d ! (k - off)) else cell j k c))) \<and>
    (\<forall>i c. fst (esp_partition_erase_range A i 0 4096 c) = ESP_OK \<and>
       (\<forall>j k. cell j k (snd (esp_partition_erase_range A i 0 4096 c)) = (if j = i \<and> k < 4096 then FF else cell j k c)))"

text \<open>A chip that keeps the laws: partitions as functions from offsets to bytes.\<close>

definition bench_part :: "(part_id \<Rightarrow> nat \<Rightarrow> byte) part_api" where
  "bench_part = \<lparr> esp_partition_read = \<lambda>i off n c. (ESP_OK, map (c i) [off..<off + n]),
     esp_partition_write = \<lambda>i off d c.
       (ESP_OK, \<lambda>j k. if j = i \<and> off \<le> k \<and> k < off + length d then and_byte (c i k) (d ! (k - off)) else c j k),
     esp_partition_erase_range = \<lambda>i off n c. (ESP_OK, \<lambda>j k. if j = i \<and> off \<le> k \<and> k < off + n then FF else c j k),
     esp_ota_set_boot_partition = \<lambda>i c. (ESP_OK, c),
     rodata = \<lambda>s. replicate 256 NUL \<rparr>"

lemma bench_part_lawful: "part_lawful bench_part (\<lambda>i k c. c i k)"
  by (simp add: part_lawful_def bench_part_def)

lemma part_lawfulD:
  assumes "part_lawful A cell"
  shows part_read: "off + n \<le> 4096 \<Longrightarrow> esp_partition_read A i off n c = (ESP_OK, map (\<lambda>k. cell i k c) [off..<off + n])"
    and part_write_ok: "off + length d \<le> 4096 \<Longrightarrow> fst (esp_partition_write A i off d c) = ESP_OK"
    and part_write: "off + length d \<le> 4096 \<Longrightarrow> cell j k (snd (esp_partition_write A i off d c)) =
      (if j = i \<and> off \<le> k \<and> k < off + length d then and_byte (cell i k c) (d ! (k - off)) else cell j k c)"
    and part_erase_ok: "fst (esp_partition_erase_range A i 0 4096 c) = ESP_OK"
    and part_erase: "cell j k (snd (esp_partition_erase_range A i 0 4096 c)) = (if j = i \<and> k < 4096 then FF else cell j k c)"
  using assms unfolding part_lawful_def by blast+

section \<open>What the routines do to a healthy chip\<close>

lemma erase_ahead_first:
  assumes "part_lawful A cell" "last_erase_offset s = 0" "stop < 4096"
  shows "erase_ahead A stop s =
    (ESP_OK, s \<lparr> chip := snd (esp_partition_erase_range A (new_erase_write_partition s) 0 4096 (chip s)), last_erase_offset := 4096 \<rparr>)"
  using assms part_erase_ok [OF assms(1)]
  by (subst erase_ahead.simps, subst erase_ahead.simps) (simp add: split_beta)

lemma erase_ahead_again: "stop < last_erase_offset s \<Longrightarrow> erase_ahead A stop s = (ESP_OK, s)"
  by (subst erase_ahead.simps) simp

text \<open>A write of two bytes at the start of a partition: erased first only once per boot.\<close>

lemma write_two:
  fixes A :: "'p part_api" and a b :: byte
  assumes "part_lawful A cell" "last_erase_offset s = 0 \<or> last_erase_offset s = 4096"
  defines "i \<equiv> new_erase_write_partition s"
  defines "s' \<equiv> snd (ota_erase_write A 0 [a, b] s)"
  shows "fst (ota_erase_write A 0 [a, b] s) = ESP_OK"
    and "last_erase_offset s' = 4096"
    and "j \<noteq> i \<Longrightarrow> cell j k (chip s') = cell j k (chip s)"
    and "cell i 0 (chip s') = (if last_erase_offset s = 0 then a else and_byte (cell i 0 (chip s)) a)"
    and "cell i 1 (chip s') = (if last_erase_offset s = 0 then b else and_byte (cell i 1 (chip s)) b)"
    and "flash_wifi_mode s' = flash_wifi_mode s"
  using assms(2) unfolding s'_def i_def
  by (auto simp: ota_erase_write_def split_beta erase_ahead_first [OF assms(1)] erase_ahead_again
    part_write_ok [OF assms(1)] part_write [OF assms(1)] part_erase [OF assms(1)])

text \<open>The state of the counter on the chip.\<close>

definition counter_is :: "(part_id \<Rightarrow> nat \<Rightarrow> 'p \<Rightarrow> byte) \<Rightarrow> nat \<Rightarrow> 'p fl \<Rightarrow> bool" where
  "counter_is cell n s \<longleftrightarrow> cell RESET_COUNTER_PART 0 (chip s) = CHR ''C'' \<and> cell RESET_COUNTER_PART 1 (chip s) = char_of n"

lemma counter_write:
  fixes A :: "'p part_api" and n :: nat
  assumes "part_lawful A cell" "last_erase_offset s = 0 \<or> last_erase_offset s = 4096" "n < 256"
    and "last_erase_offset s = 0 \<or> n = 0 \<and> counter_is cell m s"
  defines "s' \<equiv> snd (flash_erase_write_reset_counter A n s)"
  shows "counter_is cell n s'" "last_erase_offset s' = 4096"
    and "j \<noteq> RESET_COUNTER_PART \<Longrightarrow> cell j k (chip s') = cell j k (chip s)"
  using write_two [OF assms(1), where s = "s \<lparr> new_erase_write_partition := RESET_COUNTER_PART \<rparr>" and
    a = "CHR ''C''" and b = "char_of n"] assms(2-4)
  unfolding s'_def
  by (auto simp: flash_erase_write_reset_counter_def ota_set_new_erase_write_partition_def split_beta counter_is_def)

lemma map_upt_prefix:
  assumes "\<And>k. k < length d \<Longrightarrow> f (off + k) = d ! k" "length d \<le> n"
  shows "map f [off..<off + n] = d @ map f [off + length d..<off + n]"
  using assms by (intro nth_equalityI) (auto simp: nth_append)

lemma cstr_prefix: "NUL \<notin> set x \<Longrightarrow> cstr (x @ NUL # r) = x"
  by (induction x) (auto simp: cstr_def)

text \<open>The credentials of a healthy chip are those stored last; nothing else on it changes.\<close>

lemma store_wifi:
  fixes A :: "'p part_api" and x y mode :: bytes and s :: "'p fl"
  assumes l: "part_lawful A cell" and n: "length x \<le> 256" "length y \<le> 256"
  defines "s' \<equiv> snd (flash_store_wifi_router_info A x y mode s)"
  shows "fst (flash_store_wifi_router_info A x y mode s) = ESP_OK"
    and "last_erase_offset s' = last_erase_offset s"
    and "j \<noteq> WIFI_INFO_PART \<Longrightarrow> cell j k (chip s') = cell j k (chip s)"
    and "k < 256 \<Longrightarrow> k < length mode \<Longrightarrow> cell WIFI_INFO_PART k (chip s') = mode ! k"
    and "k < length x \<Longrightarrow> cell WIFI_INFO_PART (0x100 + k) (chip s') = x ! k"
    and "k < length y \<Longrightarrow> cell WIFI_INFO_PART (0x400 + k) (chip s') = y ! k"
  using n unfolding s'_def
  by (auto simp: flash_store_wifi_router_info_def flash_read_wifi_router_info_def ota_set_new_write_partition_def
    ota_set_new_erase_partition_def ota_set_new_read_partition_def ota_read_def ota_write_def ota_erase_def Let_def split_beta
    part_read [OF l] part_write_ok [OF l] part_erase_ok [OF l] part_write [OF l] part_erase [OF l] nth_append)

lemma read_wifi:
  assumes l: "part_lawful A cell"
  shows "flash_read_wifi_router_info A s =
    (ESP_OK, s \<lparr> new_read_partition := WIFI_INFO_PART,
       flash_wifi_mode := map (\<lambda>k. cell WIFI_INFO_PART k (chip s)) [0..<0 + 0x100],
       flash_router_ssid := map (\<lambda>k. cell WIFI_INFO_PART k (chip s)) [0x100..<0x100 + 0x100],
       flash_router_password := map (\<lambda>k. cell WIFI_INFO_PART k (chip s)) [0x400..<0x400 + 0x100] \<rparr>)"
  using part_read [OF l, of 0 "0x100"] part_read [OF l, of "0x100" "0x100"] part_read [OF l, of "0x400" "0x100"]
  by (simp add: flash_read_wifi_router_info_def ota_set_new_read_partition_def ota_read_def)

lemma wifi_roundtrip:
  fixes A :: "'p part_api" and t :: "'p fl"
  assumes l: "part_lawful A cell" and n: "length x \<le> 255" "length y \<le> 255" "NUL \<notin> set x" "NUL \<notin> set y"
    and m: "length mode \<le> 256"
    and c: "chip t = chip (snd (flash_store_wifi_router_info A (x @ [NUL]) (y @ [NUL]) mode s))"
  defines "r \<equiv> snd (flash_read_wifi_router_info A t)"
  shows "fst (flash_read_wifi_router_info A t) = ESP_OK"
    and "take (length mode) (flash_wifi_mode r) = mode"
    and "cstr (flash_router_ssid r) = x" and "cstr (flash_router_password r) = y"
proof -
  let ?f = "\<lambda>k. cell WIFI_INFO_PART k (chip t)"
  have b: "length (x @ [NUL]) \<le> 256" "length (y @ [NUL]) \<le> 256" using n by auto
  note w = store_wifi [OF l b, where mode = mode and s = s, folded c]
  have 1: "map ?f [0..<0 + 256] = mode @ map ?f [0 + length mode..<0 + 256]"
    by (rule map_upt_prefix) (use w m in auto)
  have 2: "map ?f [256..<256 + 256] = (x @ [NUL]) @ map ?f [256 + length (x @ [NUL])..<256 + 256]"
    by (rule map_upt_prefix) (use w(5) n in auto)
  have 3: "map ?f [1024..<1024 + 256] = (y @ [NUL]) @ map ?f [1024 + length (y @ [NUL])..<1024 + 256]"
    by (rule map_upt_prefix) (use w(6) n in auto)
  show "fst (flash_read_wifi_router_info A t) = ESP_OK" by (simp add: read_wifi [OF l])
  show "take (length mode) (flash_wifi_mode r) = mode" unfolding r_def read_wifi [OF l] using 1 by simp
  show "cstr (flash_router_ssid r) = x" unfolding r_def read_wifi [OF l] using 2 n by (simp add: cstr_prefix)
  show "cstr (flash_router_password r) = y" unfolding r_def read_wifi [OF l] using 3 n by (simp add: cstr_prefix)
qed

section \<open>The factory reset\<close>

text \<open>The count the next boot will read.\<close>

definition stored_count :: "(part_id \<Rightarrow> nat \<Rightarrow> 'p \<Rightarrow> byte) \<Rightarrow> 'p fl \<Rightarrow> nat" where
  "stored_count cell s =
    (if cell RESET_COUNTER_PART 0 (chip s) = CHR ''C'' \<and> cell RESET_COUNTER_PART 1 (chip s) \<noteq> FF
     then of_char (cell RESET_COUNTER_PART 1 (chip s)) else 0)"

lemma stored_count_is: "counter_is cell n s \<Longrightarrow> n < 255 \<Longrightarrow> stored_count cell s = n"
proof -
  assume "counter_is cell n s" "n < 255"
  moreover have "of_char (char_of n :: byte) \<noteq> (255 :: nat)" using \<open>n < 255\<close> by simp
  hence "char_of n \<noteq> (FF :: byte)" by force
  ultimately show ?thesis by (simp add: stored_count_def counter_is_def)
qed

lemma count_read:
  assumes "part_lawful A cell"
  shows "flash_read_reset_counter A s =
    (ESP_OK, s \<lparr> new_read_partition := RESET_COUNTER_PART, registeration_reset_counter := stored_count cell s \<rparr>)"
  by (simp add: flash_read_reset_counter_def ota_set_new_read_partition_def ota_read_def part_read [OF assms]
    stored_count_def upt_rec Let_def)

lemma power_cycle_simps [simp]:
  "chip (power_cycle s) = chip s" "last_erase_offset (power_cycle s) = 0"
  "stored_count cell (power_cycle s) = stored_count cell s"
  by (simp_all add: power_cycle_def stored_count_def)

text \<open>Two chips agree outside the partitions \<open>P\<close>.\<close>

definition same_but :: "(part_id \<Rightarrow> nat \<Rightarrow> 'p \<Rightarrow> byte) \<Rightarrow> part_id set \<Rightarrow> 'p fl \<Rightarrow> 'p fl \<Rightarrow> bool" where
  "same_but cell P s s' \<longleftrightarrow> (\<forall>j k. j \<notin> P \<longrightarrow> cell j k (chip s') = cell j k (chip s))"

lemma same_but_trans: "same_but cell P s s1 \<Longrightarrow> same_but cell Q s1 s2 \<Longrightarrow> P \<subseteq> R \<Longrightarrow> Q \<subseteq> R \<Longrightarrow> same_but cell R s s2"
  unfolding same_but_def by (metis subsetD)

lemma cut_boot_counts:
  assumes l: "part_lawful A cell" and "stored_count cell s < 4"
  shows "\<exists>s'. reset_handler_start E A d (power_cycle s) = (d, s', False) \<and> counter_is cell (stored_count cell s + 1) s' \<and>
    last_erase_offset s' = 4096 \<and> same_but cell {RESET_COUNTER_PART} s s'"
  using assms counter_write [OF l, where n = "stored_count cell s + 1"]
  by (auto simp: reset_handler_start_def count_read [OF l] Let_def same_but_def)

text \<open>What the factory reset makes of the device.\<close>

definition wiped :: "('n, 'h) env \<Rightarrow> ('n, 'h) dev \<Rightarrow> ('n, 'h) dev" where
  "wiped E d = push_event E ''reset'' [] [] (snd (device_password_clear E (snd (paired_list_clear E d))))"

lemma cut_boot_resets:
  fixes A :: "'p part_api"
  assumes l: "part_lawful A cell" and "stored_count cell s = 4"
  shows "\<exists>s'. reset_handler_start E A d (power_cycle s) = (wiped E d, s', True) \<and> counter_is cell 0 s' \<and>
    take 8 (flash_wifi_mode (snd (flash_read_wifi_router_info A (power_cycle s')))) = WIFI_AP_MODE \<and>
    same_but cell {RESET_COUNTER_PART, WIFI_INFO_PART} s s'"
proof -
  define s1 where "s1 = (power_cycle s) \<lparr> new_read_partition := RESET_COUNTER_PART, registeration_reset_counter := 5 \<rparr>"
  define s2 where "s2 = snd (flash_store_wifi_router_info A (''0'' @ [NUL]) (''0'' @ [NUL]) WIFI_AP_MODE s1)"
  define s' where "s' = snd (flash_erase_write_reset_counter A 0 (s2 \<lparr> registeration_reset_counter := 0 \<rparr>))"
  have run: "reset_handler_start E A d (power_cycle s) = (wiped E d, s', True)"
    using assms(2) by (simp add: reset_handler_start_def count_read [OF l] Let_def split_beta wiped_def s'_def s2_def s1_def)
  have "last_erase_offset (s2 \<lparr> registeration_reset_counter := 0 \<rparr>) = 0"
    using store_wifi(2) [OF l, of "''0'' @ [NUL]" "''0'' @ [NUL]" WIFI_AP_MODE s1] by (simp add: s2_def s1_def)
  note w = counter_write [OF l disjI1 _ disjI1, OF this _ this, where n = 0, folded s'_def]
  have same: "cell WIFI_INFO_PART k (chip (power_cycle s')) = cell WIFI_INFO_PART k (chip s2)" for k
    using w(3) by simp
  have "flash_wifi_mode (snd (flash_read_wifi_router_info A (power_cycle s'))) = flash_wifi_mode (snd (flash_read_wifi_router_info A s2))"
    unfolding read_wifi [OF l] same by simp
  moreover have "same_but cell {RESET_COUNTER_PART, WIFI_INFO_PART} s s'"
    using w(3) store_wifi(3) [OF l, where x = "''0'' @ [NUL]" and y = "''0'' @ [NUL]" and mode = WIFI_AP_MODE and s = s1]
    by (simp add: same_but_def s2_def s1_def)
  ultimately show ?thesis
    using w(1) run wifi_roundtrip(2) [OF l, of "''0''" "''0''" WIFI_AP_MODE s2 s1]
    by (simp add: s2_def eval_nat_numeral)
qed

text \<open>After a factory reset neither this nor the next boot knows an owner or a password.\<close>

lemma store_none_view:
  assumes "nvs_lawful (nvs E) view" "nvs_reliable (nvs E)"
  shows "view (snd (nvs_store_pair E None n)) = (view n)((CY_SEC, NVS_KEY_SALT) := None, (CY_SEC, NVS_KEY_VER) := None,
      (CY_SEC, NVS_KEY_FAILS) \<mapsto> U8 0, (CY_SEC, NVS_KEY_LOCK) \<mapsto> U32 0)"
  using nvs_lawfulD(1-4) [OF assms(1)] nvs_reliableD [OF assms(2)]
  by (simp add: nvs_store_pair_def Let_def case_prod_beta)

lemma load_no_password:
  assumes "nvs_lawful (nvs E) view" "view n (CY_SEC, NVS_KEY_SALT) = None"
  shows "\<not> device_password_is_set (fst (device_password_init E now n))"
  using assms(2) nvs_get_blob_None [OF assms(1)] nvs_open_view [OF assms(1)]
  by (simp add: device_password_init_def pw_nvs_load_def device_password_is_set_def Let_def split_beta pw_zero_def)

lemma wiped_spec:
  assumes "nvs_lawful (nvs E) view" "nvs_reliable (nvs E)"
  shows "plist (wiped E d) = list_zero" "\<not> device_password_is_set (pw (wiped E d))"
    "fst (paired_list_init E (flash (wiped E d))) = list_zero"
    "\<not> device_password_is_set (fst (device_password_init E now (flash (wiped E d))))"
proof -
  let ?n1 = "snd (paired_nvs_store E list_zero (flash d))" and ?n2 = "snd (nvs_store_pair E None (snd (paired_nvs_store E list_zero (flash d))))"
  obtain q where n: "flash (wiped E d) = events_nvs_store E q ?n2" "plist (wiped E d) = list_zero" "s_salt (pw (wiped E d)) = []"
    by (simp add: wiped_def push_event_def pairing_events_push_def device_password_clear_def paired_list_clear_def refresh_def
      paired_list_clear_locked_def device_password_clear_locked_def Let_def split_beta)
  note v = paired_nvs_store_view [OF assms(1) paired_nvs_store_reliable [OF assms(2)], of list_zero "flash d"]
    store_none_view [OF assms, of ?n1] events_store_view [OF assms, of q ?n2]
  have "view (flash (wiped E d)) (CY_SEC, NVS_KEY_LIST) = stored list_zero" "view (flash (wiped E d)) (CY_SEC, NVS_KEY_SALT) = None"
    unfolding n(1) v by simp_all
  then show "fst (paired_list_init E (flash (wiped E d))) = list_zero"
    "\<not> device_password_is_set (fst (device_password_init E now (flash (wiped E d))))"
    using paired_list_reload [OF assms(1), of list_zero "flash (wiped E d)"] list_ok_zero
      load_no_password [OF assms(1)]
    by (auto simp: list_ok_def)
  show "plist (wiped E d) = list_zero" "\<not> device_password_is_set (pw (wiped E d))"
    using n by (simp_all add: device_password_is_set_def)
qed

lemma long_boot:
  assumes l: "part_lawful A cell" and "stored_count cell s < 4"
  shows "\<exists>s'. reset_handler E A d (power_cycle s) = (d, s', False) \<and> stored_count cell s' = 0 \<and>
    same_but cell {RESET_COUNTER_PART} s s'"
proof -
  obtain s1 where s1: "reset_handler_start E A d (power_cycle s) = (d, s1, False)"
      "counter_is cell (stored_count cell s + 1) s1" "last_erase_offset s1 = 4096"
      "same_but cell {RESET_COUNTER_PART} s s1"
    using cut_boot_counts [OF assms] by blast
  have "counter_is cell (stored_count cell s + 1) (s1 \<lparr> registeration_reset_counter := 0 \<rparr>)"
    using s1(2) by (simp add: counter_is_def)
  with counter_write(1,3) [OF l, where n = 0 and s = "s1 \<lparr> registeration_reset_counter := 0 \<rparr>" and m = "stored_count cell s + 1"] s1
  show ?thesis by (auto simp: reset_handler_def reset_handler_done_def Let_def stored_count_is same_but_def)
qed

text \<open>
  Boots whose power is cut within the two seconds, one after the other; \<open>ds\<close> are the states the stores
  were loaded to. The result pairs the state each handler left with whether it restarted the chip.
\<close>

fun cut_boots :: "('n, 'h) env \<Rightarrow> 'p part_api \<Rightarrow> ('n, 'h) dev list \<Rightarrow> 'p fl \<Rightarrow> (('n, 'h) dev \<times> bool) list \<times> 'p fl" where
  "cut_boots E A [] s = ([], s)"
| "cut_boots E A (d # ds) s =
    (let (d', s', r) = reset_handler_start E A d (power_cycle s); (out, s'') = cut_boots E A ds s' in ((d', r) # out, s''))"

lemma cut_boots_count:
  assumes "part_lawful A cell" "stored_count cell s + length ds \<le> 4"
  shows "\<exists>s'. cut_boots E A ds s = (map (\<lambda>d. (d, False)) ds, s') \<and> stored_count cell s' = stored_count cell s + length ds \<and>
    same_but cell {RESET_COUNTER_PART} s s'"
  using assms(2)
proof (induction ds arbitrary: s)
  case (Cons d ds)
  then have "stored_count cell s < 4" by simp
  from cut_boot_counts [OF assms(1) this] obtain s1 where s1: "reset_handler_start E A d (power_cycle s) = (d, s1, False)"
    "counter_is cell (stored_count cell s + 1) s1" "same_but cell {RESET_COUNTER_PART} s s1" by blast
  from s1(2) Cons.prems have n: "stored_count cell s1 = stored_count cell s + 1" by (intro stored_count_is) auto
  with Cons.IH [of s1] Cons.prems obtain s' where "cut_boots E A ds s1 = (map (\<lambda>d. (d, False)) ds, s')"
    "stored_count cell s' = stored_count cell s1 + length ds" "same_but cell {RESET_COUNTER_PART} s1 s'" by auto
  with n s1(1) same_but_trans [OF s1(3), of "{RESET_COUNTER_PART}" s'] show ?case by (simp add: Let_def)
qed (simp add: same_but_def)

lemma cut_boots_append:
  "cut_boots E A (ds @ ds') s =
    (let (out, s) = cut_boots E A ds s; (out', s) = cut_boots E A ds' s in (out @ out', s))"
  by (induction ds arbitrary: s) (auto simp: Let_def split: prod.splits)

text \<open>
  C15. Factory reset by power cycling, on a chip and an NVS whose calls succeed. From a unit whose last boot
  ran through, each of up to four boots that lose power within two seconds adds one to the counter and
  changes nothing else: not the state and the NVS of the security modules, and no byte of any other partition, so the
  Wi-Fi credentials and the boot request stay. The fifth one clears the paired list and the password for this and every
  later boot, leaves the unit in pairing mode, sets the count back and restarts, and touches no partition
  but the counter's and the credentials'. A boot that survives its two seconds sets the count back
  and changes nothing else, although the second write of that boot does not erase its sector first.
\<close>

theorem five_power_cycles:
  assumes "part_lawful A cell" "nvs_lawful (nvs E) view" "nvs_reliable (nvs E)" "stored_count cell s = 0"
  shows "(\<forall>n \<le> 4. let ds = take n [d1, d2, d3, d4]; (out, s') = cut_boots E A ds s
      in out = map (\<lambda>d. (d, False)) ds \<and> stored_count cell s' = n \<and> same_but cell {RESET_COUNTER_PART} s s') \<and>
    (let (out, s') = cut_boots E A [d1, d2, d3, d4, d5] s; d = fst (out ! 4)
      in out = [(d1, False), (d2, False), (d3, False), (d4, False), (d, True)] \<and>
         plist d = list_zero \<and> \<not> device_password_is_set (pw d) \<and>
         fst (paired_list_init E (flash d)) = list_zero \<and>
         \<not> device_password_is_set (fst (device_password_init E now (flash d))) \<and>
         take 8 (flash_wifi_mode (snd (flash_read_wifi_router_info A (power_cycle s')))) = WIFI_AP_MODE \<and>
         stored_count cell s' = 0 \<and> same_but cell {RESET_COUNTER_PART, WIFI_INFO_PART} s s') \<and>
    (\<forall>n < 4. let s' = snd (cut_boots E A (take n [d1, d2, d3, d4]) s); (d, s'', r) = reset_handler E A d5 (power_cycle s')
      in d = d5 \<and> \<not> r \<and> stored_count cell s'' = 0 \<and> same_but cell {RESET_COUNTER_PART} s s'')"
proof (intro conjI allI impI)
  fix n :: nat
  let ?ds = "take n [d1, d2, d3, d4]"
  assume n: "n \<le> 4"
  then have len: "length ?ds = n" by simp
  from cut_boots_count [OF assms(1), of s ?ds E] assms(4) n
  show "let ds = ?ds; (out, s') = cut_boots E A ds s
    in out = map (\<lambda>d. (d, False)) ds \<and> stored_count cell s' = n \<and> same_but cell {RESET_COUNTER_PART} s s'"
    unfolding len by (auto simp: Let_def)
next
  fix n :: nat
  let ?ds = "take n [d1, d2, d3, d4]"
  assume n: "n < 4"
  then have len: "length ?ds = n" by simp
  obtain s1 out where s1: "cut_boots E A ?ds s = (out, s1)" "stored_count cell s1 = n" "same_but cell {RESET_COUNTER_PART} s s1"
    using cut_boots_count [OF assms(1), of s ?ds E] assms(4) n unfolding len by auto
  with n long_boot [OF assms(1), of s1 E d5] obtain s2 where
    s2: "reset_handler E A d5 (power_cycle s1) = (d5, s2, False)" "stored_count cell s2 = 0" "same_but cell {RESET_COUNTER_PART} s1 s2" by auto
  show "let s' = snd (cut_boots E A ?ds s); (d, s'', r) = reset_handler E A d5 (power_cycle s')
    in d = d5 \<and> \<not> r \<and> stored_count cell s'' = 0 \<and> same_but cell {RESET_COUNTER_PART} s s''"
    using same_but_trans [OF s1(3) s2(3)] by (simp add: s1(1) s2(1,2))
next
  obtain s4 where s4: "cut_boots E A [d1, d2, d3, d4] s = ([(d1, False), (d2, False), (d3, False), (d4, False)], s4)"
    "stored_count cell s4 = 4" "same_but cell {RESET_COUNTER_PART} s s4"
    using cut_boots_count [OF assms(1), of s "[d1, d2, d3, d4]" E] assms(4) by auto
  obtain s5 where s5: "reset_handler_start E A d5 (power_cycle s4) = (wiped E d5, s5, True)" "counter_is cell 0 s5"
    "take 8 (flash_wifi_mode (snd (flash_read_wifi_router_info A (power_cycle s5)))) = WIFI_AP_MODE"
    "same_but cell {RESET_COUNTER_PART, WIFI_INFO_PART} s4 s5"
    using cut_boot_resets [OF assms(1) s4(2)] by blast
  have "cut_boots E A [d1, d2, d3, d4, d5] s =
      ([(d1, False), (d2, False), (d3, False), (d4, False), (wiped E d5, True)], s5)"
    using cut_boots_append [of E A "[d1, d2, d3, d4]" "[d5]" s] s4(1) s5(1)
    by (simp del: cut_boots.simps(2) add: cut_boots.simps(2) [of _ _ d5 "[]"])
  moreover have "stored_count cell s5 = 0" by (rule stored_count_is [OF s5(2)]) simp
  moreover have "same_but cell {RESET_COUNTER_PART, WIFI_INFO_PART} s s5" by (rule same_but_trans [OF s4(3) s5(4)]) auto
  ultimately show "let (out, s') = cut_boots E A [d1, d2, d3, d4, d5] s; d = fst (out ! 4)
    in out = [(d1, False), (d2, False), (d3, False), (d4, False), (d, True)] \<and>
       plist d = list_zero \<and> \<not> device_password_is_set (pw d) \<and>
       fst (paired_list_init E (flash d)) = list_zero \<and>
       \<not> device_password_is_set (fst (device_password_init E now (flash d))) \<and>
       take 8 (flash_wifi_mode (snd (flash_read_wifi_router_info A (power_cycle s')))) = WIFI_AP_MODE \<and>
       stored_count cell s' = 0 \<and> same_but cell {RESET_COUNTER_PART, WIFI_INFO_PART} s s'"
    using wiped_spec [OF assms(2,3), where d = d5] s5(3)
    by (auto simp: Let_def simp del: cut_boots.simps)
qed

text \<open>A unit with a blank chip.\<close>

definition blank_fl :: "(part_id \<Rightarrow> nat \<Rightarrow> byte) fl" where
  "blank_fl = \<lparr> chip = \<lambda>i k. FF, new_write_partition = (0, 0), new_erase_partition = (0, 0), new_read_partition = (0, 0),
     new_erase_write_partition = (0, 0), last_erase_offset = 0, flash_wifi_mode = FF # replicate 255 NUL,
     flash_router_ssid = FF # replicate 255 NUL, flash_router_password = FF # replicate 255 NUL,
     registeration_reset_counter = 0 \<rparr>"

theorem five_power_cycles_witness:
  "plist (fst (fst (cut_boots (bench True) bench_part [bench_dev, bench_dev, bench_dev, bench_dev, bench_dev] blank_fl) ! 4)) =
     list_zero"
proof -
  have 1: "stored_count (\<lambda>i k c. c i k) blank_fl = 0" by (simp add: stored_count_def blank_fl_def)
  have 2: "nvs_lawful (nvs (bench True)) (\<lambda>f. f)" "nvs_reliable (nvs (bench True))"
    by (simp_all add: flash_nvs_lawful flash_nvs_reliable)
  show ?thesis
    using five_power_cycles [OF bench_part_lawful 2 1, of bench_dev bench_dev bench_dev bench_dev bench_dev 0]
    by (auto simp: Let_def split_beta simp del: cut_boots.simps)
qed

end
