(* ===== verification/Tcp_Server.thy ===== *)
theory Tcp_Server
  imports Owner_Commands Response_Fifo Flash_Partitions
begin

text \<open>
  The TCP server around the line handlers: the registry of clients and the producers of responses
  (\<open>tcp_server/tcp_client_list.c\<close>), the task that drains the response FIFO to the sockets, the listener
  (\<open>tcp_server/tcp_server.c\<close>) and the framing of received bytes into lines
  (\<open>tcp_server/tcp_client_recv.c\<close>).

  \<open>account_list\<close> are the entries in use of \<open>account_struct_list\<close>; \<open>rx_buffer sk\<close> are the bytes the
  receive task of socket \<open>sk\<close> has collected for its next line, \<open>rx_len\<close> many. \<open>released\<close> and
  \<open>unregistered\<close> are where the receive tasks stand that are ending: the sockets whose session is
  released but which are still registered, and those that are no longer registered but still open. \<open>closed\<close> and \<open>shut\<close>
  list the sockets closed and shut down, oldest first. The fields from \<open>parts\<close> on are the globals of the handlers
  that later theories add: the raw partitions, the reboot timer in milliseconds, the Wi-Fi pairing of
  \<open>pairing.c\<close> and the firmware update.

  Shown here: bytes are cut into exactly the lines they contain as long as no line reaches 5120 bytes,
  and what happens to a longer one; a queued reply reaches its addressee and nobody else; a broadcast
  to paired clients reaches authenticated sockets only while a password is set.
\<close>

abbreviation (input) RESPONSE_LINE_MAX :: nat where "RESPONSE_LINE_MAX \<equiv> 256"
abbreviation (input) RESPONSE_TARGET_ALL :: int where "RESPONSE_TARGET_ALL \<equiv> 0"
abbreviation (input) RESPONSE_TARGET_EVERYONE :: int where "RESPONSE_TARGET_EVERYONE \<equiv> - 1"
abbreviation (input) SEND_TO_ALL :: int where "SEND_TO_ALL \<equiv> - 2"
abbreviation (input) SEND_TO_ALL_PUBLIC :: int where "SEND_TO_ALL_PUBLIC \<equiv> - 3"
abbreviation (input) TCP_CLIENT_MAX :: nat where "TCP_CLIENT_MAX \<equiv> 3"

record ('n, 'h, 'p) sys =
  core :: "('n, 'h) dev"
  account_list :: "int list"
  response_id :: int
  tcp_fifo :: fifo
  mqtt_fifo :: fifo
  rx_buffer :: "int \<Rightarrow> bytes"
  released :: "int list"
  unregistered :: "int list"
  closed :: "int list"
  shut :: "int list"
  parts :: "'p fl"
  reboot_timer :: "nat option"
  pairing_step :: nat
  temp_ssid :: bytes
  temp_password :: bytes
  pairing_timer :: bool
  firmware_url :: bytes
  ota_tasks :: "int list"

section \<open>The registry of clients\<close>

definition update_response_id :: "('n, 'h, 'p) sys \<Rightarrow> int \<times> ('n, 'h, 'p) sys" where
  "update_response_id s =
    (let r = response_id s + 1; r = (if r \<ge> 255 then 10 else r) in (r, s \<lparr> response_id := r \<rparr>))"

definition remove_account :: "int \<Rightarrow> ('n, 'h, 'p) sys \<Rightarrow> ('n, 'h, 'p) sys" where
  "remove_account sk s =
    (case index_of (\<lambda>a. a = sk) (account_list s) of
       Some i \<Rightarrow> s \<lparr> account_list := del_at i (account_list s) \<rparr>
     | None \<Rightarrow> s)"

definition add_account :: "int \<Rightarrow> ('n, 'h, 'p) sys \<Rightarrow> bool \<times> ('n, 'h, 'p) sys" where
  "add_account sk s =
    (if length (account_list s) \<ge> 100 then (False, s) else (True, s \<lparr> account_list := account_list s @ [sk] \<rparr>))"

definition is_client_connected :: "int \<Rightarrow> int list \<Rightarrow> bool" where
  "is_client_connected sk l = list_ex (\<lambda>a. a = sk) l"

section \<open>Producers of responses\<close>

text \<open>The line \<open>push_tcp_line\<close> stores for a formatted text: truncated to 255 bytes, with its newline kept.\<close>

definition clip_line :: "bytes \<Rightarrow> bytes" where
  "clip_line text = (if length text \<ge> RESPONSE_LINE_MAX then (take 255 text)[254 := LF] else text)"

definition push_tcp_line :: "bytes \<Rightarrow> ('n, 'h, 'p) sys \<Rightarrow> bytes \<times> ('n, 'h, 'p) sys" where
  "push_tcp_line text s =
    (let line = clip_line text in (line, s \<lparr> tcp_fifo := snd (response_fifo_push DROP_NEW (tcp_fifo s) line) \<rparr>))"

definition send_data_to_clients :: "int \<Rightarrow> bytes \<Rightarrow> ('n, 'h, 'p) sys \<Rightarrow> ('n, 'h, 'p) sys" where
  "send_data_to_clients sk data s =
    (let target = (if sk = SEND_TO_ALL then RESPONSE_TARGET_ALL
                   else if sk = SEND_TO_ALL_PUBLIC then RESPONSE_TARGET_EVERYONE else sk);
         (i, s) = update_response_id s;
         (line, s) = push_tcp_line (dec_int target @ [COLON] @ dec_int i @ [COLON] @ cstr data) s
     in if sk = SEND_TO_ALL \<or> sk = SEND_TO_ALL_PUBLIC
        then s \<lparr> mqtt_fifo := snd (response_fifo_push DROP_NEW (mqtt_fifo s) (the (snd (split_at COLON line)))) \<rparr>
        else s)"

definition send_raw_to_client :: "int \<Rightarrow> bytes \<Rightarrow> ('n, 'h, 'p) sys \<Rightarrow> ('n, 'h, 'p) sys" where
  "send_raw_to_client sk text s = snd (push_tcp_line (dec_int sk @ [COLON] @ text @ [LF]) s)"

section \<open>The send task\<close>

text \<open>The sockets one line goes to: \<open>None\<close> when the line has no target in front.\<close>

definition line_target :: "bytes \<Rightarrow> int option" where
  "line_target line =
    (case split_at COLON line of
       (pre, None) \<Rightarrow> None
     | (pre, Some rest) \<Rightarrow>
         (case strtol line of
            (target, endp) \<Rightarrow> if endp \<noteq> COLON # rest \<or> pre = [] then None else Some target))"

definition route_line :: "('n, 'h) env \<Rightarrow> int list \<Rightarrow> bytes \<Rightarrow> ('n, 'h) dev \<Rightarrow> ('n, 'h) dev" where
  "route_line E clients line d =
    (case line_target line of
       None \<Rightarrow> d
     | Some target \<Rightarrow>
         let payload = the (snd (split_at COLON line)) in
         if target = RESPONSE_TARGET_ALL \<or> target = RESPONSE_TARGET_EVERYONE then
           fold (\<lambda>dst d.
             if target = RESPONSE_TARGET_ALL \<and> device_password_is_set (pw d) \<and> \<not> access_policy_sock_authenticated dst (pool d) then d
             else enc_frame_send E dst payload d) clients d
         else if is_client_connected target clients then enc_frame_send E target payload d
         else d)"

text \<open>The loop over the drained bytes, line by line.\<close>

function route_lines :: "('n, 'h) env \<Rightarrow> int list \<Rightarrow> bytes \<Rightarrow> ('n, 'h) dev \<Rightarrow> ('n, 'h) dev" where
  "route_lines E clients staging d =
    (if staging = [] then d
     else
       let n = (case index_of (\<lambda>c. c = LF) staging of Some i \<Rightarrow> i + 1 | None \<Rightarrow> length staging)
       in route_lines E clients (drop n staging) (route_line E clients (take n staging) d))"
  by pat_completeness auto
termination
  by (relation "measure (\<lambda>(E, cl, b, d). length b)") (auto split: option.splits)

declare route_lines.simps [simp del]

text \<open>One turn of \<open>tcp_response_send_task\<close>.\<close>

definition tcp_response_send :: "('n, 'h) env \<Rightarrow> ('n, 'h, 'p) sys \<Rightarrow> ('n, 'h, 'p) sys" where
  "tcp_response_send E s =
    (let (staging, f) = response_fifo_drain (tcp_fifo s) RESPONSE_FIFO_SIZE
     in s \<lparr> tcp_fifo := f, core := route_lines E (account_list s) staging (core s) \<rparr>)"

section \<open>The listener\<close>

definition close_socket :: "int \<Rightarrow> ('n, 'h, 'p) sys \<Rightarrow> ('n, 'h, 'p) sys" where
  "close_socket sk s = s \<lparr> closed := closed s @ [sk] \<rparr>"

definition set_pool :: "'h pool \<Rightarrow> ('n, 'h, 'p) sys \<Rightarrow> ('n, 'h, 'p) sys" where
  "set_pool p s = s \<lparr> core := (core s) \<lparr> pool := p \<rparr> \<rparr>"

text \<open>A connection the listener accepted; \<open>task_ok\<close> says whether its receive task could be created.\<close>

definition tcp_accept :: "int \<Rightarrow> 32 word \<Rightarrow> bool \<Rightarrow> ('n, 'h, 'p) sys \<Rightarrow> ('n, 'h, 'p) sys" where
  "tcp_accept sk peer task_ok s =
    (let full = (local_session_count (pool (core s)) \<ge> TCP_CLIENT_MAX);
         (n, socks) = (if full then local_session_shutdown_peer peer (pool (core s)) else (0, []));
         s = s \<lparr> shut := shut s @ socks \<rparr>
     in if full \<and> n = 0 then close_socket sk s
        else
          let (ok, s) = add_account sk s in
          if \<not> ok then close_socket sk s
          else
            let (slot, p) = local_session_acquire sk peer (pool (core s)); s = set_pool p s in
            if slot = None then close_socket sk (remove_account sk s)
            else if \<not> task_ok then close_socket sk (remove_account sk (set_pool (local_session_release sk (pool (core s))) s))
            else s \<lparr> rx_buffer := (rx_buffer s)(sk := []) \<rparr>)"

section \<open>Framing\<close>

text \<open>
  What \<open>recv()\<close> of one byte returns: a byte, the inter-byte timeout, or the end of the connection.
  \<open>recv_frame\<close> is the body of the loop on the collected bytes: the line that is complete, if any.
\<close>

datatype recv = Byte byte | Timeout | Gone

fun recv_frame :: "recv \<Rightarrow> bytes \<Rightarrow> bytes option \<times> bytes" where
  "recv_frame (Byte b) rx =
    (let rx = rx @ [b] in
     if length rx \<ge> TCP_RECEIVE_DATA_LENGTH then (None, [])
     else if drop (length rx - 1) rx = [LF] then (Some (take (length rx - 1) rx), [])
     else (None, rx))"
| "recv_frame Timeout rx = (None, [])"
| "recv_frame Gone rx = (None, rx)"

text \<open>
  The end of a receive task, in the three steps between which other tasks run: the session is released,
  the socket leaves the registry, the connection is shut down and closed.
\<close>

definition recv_task_release :: "int \<Rightarrow> ('n, 'h, 'p) sys \<Rightarrow> ('n, 'h, 'p) sys" where
  "recv_task_release sk s = (set_pool (local_session_release sk (pool (core s))) s) \<lparr> released := released s @ [sk] \<rparr>"

definition recv_task_unregister :: "int \<Rightarrow> ('n, 'h, 'p) sys \<Rightarrow> ('n, 'h, 'p) sys" where
  "recv_task_unregister sk s =
    (remove_account sk s) \<lparr> released := remove1 sk (released s), unregistered := unregistered s @ [sk] \<rparr>"

definition recv_task_close :: "int \<Rightarrow> ('n, 'h, 'p) sys \<Rightarrow> ('n, 'h, 'p) sys" where
  "recv_task_close sk s =
    close_socket sk (s \<lparr> shut := shut s @ [sk], unregistered := remove1 sk (unregistered s) \<rparr>)"

text \<open>The lines a sequence of receives yields.\<close>

fun frames :: "recv list \<Rightarrow> bytes \<Rightarrow> bytes list" where
  "frames [] rx = []"
| "frames (e # es) rx = (let (l, rx) = recv_frame e rx in (case l of Some x \<Rightarrow> [x] | None \<Rightarrow> []) @ frames es rx)"

section \<open>Framing is exact\<close>

text \<open>The bytes a sequence of receives leaves in the buffer.\<close>

fun rx_rest :: "recv list \<Rightarrow> bytes \<Rightarrow> bytes" where
  "rx_rest [] rx = rx"
| "rx_rest (e # es) rx = rx_rest es (snd (recv_frame e rx))"

lemma frames_append: "frames (es @ es') rx = frames es rx @ frames es' (rx_rest es rx)"
  by (induction es arbitrary: rx) (auto simp: Let_def split_beta)

lemma rx_rest_append: "rx_rest (es @ es') rx = rx_rest es' (rx_rest es rx)"
  by (induction es arbitrary: rx) auto

lemma last_byte: "drop (length (rx @ [b]) - 1) (rx @ [b]) = [b]" "take (length (rx @ [b]) - 1) (rx @ [b]) = rx"
  by simp_all

text \<open>Bytes without a newline are collected; every 5120 of them are thrown away together.\<close>

abbreviation (input) rx_tail :: "bytes \<Rightarrow> bytes" where
  "rx_tail x \<equiv> drop (length x - length x mod TCP_RECEIVE_DATA_LENGTH) x"

lemma collect:
  assumes "LF \<notin> set x"
  shows "frames (map Byte x) [] = [] \<and> rx_rest (map Byte x) [] = rx_tail x"
  using assms
proof (induction x rule: rev_induct)
  case (snoc b x)
  let ?r = "rx_tail x"
  have l: "length ?r = length x mod 5120" by simp
  have "recv_frame (Byte b) ?r = (None, rx_tail (x @ [b]))"
  proof (cases "length x mod 5120 = 5119")
    case True
    then have "Suc (length x) mod 5120 = 0" by (simp add: mod_Suc)
    with True show ?thesis using snoc.prems by (simp add: Let_def)
  next
    case False
    then have m: "Suc (length x) mod 5120 = Suc (length x mod 5120)" by (simp add: mod_Suc)
    have "length x mod 5120 < 5120" by simp
    with False have "Suc (length x mod 5120) < 5120" by linarith
    moreover have "length x mod 5120 \<le> length x" by simp
    ultimately show ?thesis using snoc.prems m by (auto simp: Let_def)
  qed
  with snoc show ?case by (simp add: frames_append rx_rest_append split_beta)
qed simp

definition framed :: "bytes \<Rightarrow> bytes list" where
  "framed x = (if length x mod TCP_RECEIVE_DATA_LENGTH = TCP_RECEIVE_DATA_LENGTH - 1 then [] else [rx_tail x])"

lemma frame_line:
  assumes "LF \<notin> set x"
  shows "frames (map Byte (x @ [LF])) [] = framed x \<and> rx_rest (map Byte (x @ [LF])) [] = []"
proof -
  have "length x mod 5120 < 5120" by simp
  then have "5119 \<le> length x mod 5120 \<longrightarrow> length x mod 5120 = 5119" by linarith
  then show ?thesis
    using collect [OF assms] by (simp add: frames_append rx_rest_append framed_def Let_def)
qed

text \<open>
  C12. Framing. What a peer sends as lines is dispatched as those lines: each of at most 5118 bytes
  arrives whole, in order, exactly once and without its newline. A longer line is not skipped up to
  its newline: every 5120 bytes of it are dropped and what is left of it is dispatched as a line of
  its own.
\<close>

theorem lines_framed:
  assumes "\<forall>x \<in> set xs. LF \<notin> set x"
  shows "frames (map Byte (concat (map (\<lambda>x. x @ [LF]) xs))) [] = concat (map framed xs) \<and>
    ((\<forall>x \<in> set xs. length x < TCP_RECEIVE_DATA_LENGTH - 1) \<longrightarrow>
       frames (map Byte (concat (map (\<lambda>x. x @ [LF]) xs))) [] = xs)"
proof -
  have "frames (map Byte (concat (map (\<lambda>x. x @ [LF]) xs))) [] = concat (map framed xs)"
    using assms
  proof (induction xs)
    case (Cons x xs)
    have "map Byte (concat (map (\<lambda>x. x @ [LF]) (x # xs))) = map Byte (x @ [LF]) @ map Byte (concat (map (\<lambda>x. x @ [LF]) xs))"
      by simp
    then show ?case using Cons frame_line [of x] by (simp only: frames_append) simp
  qed simp
  moreover have "concat (map framed xs) = xs" if "\<forall>x \<in> set xs. length x < 5119"
    using that by (induction xs) (simp_all add: framed_def)
  ultimately show ?thesis by simp
qed

theorem lines_framed_witness:
  "frames (map Byte (replicate 5120 CHR ''a'' @ ''RESET'' @ [LF])) [] = [''RESET'']"
  using lines_framed [of "[replicate 5120 CHR ''a'' @ ''RESET'']"] by (simp add: framed_def)

section \<open>Replies reach their addressee\<close>

lemma index_of_LF: "LF \<notin> set p \<Longrightarrow> index_of (\<lambda>c. c = LF) (p @ LF # r) = Some (length p)"
  by (induction p) auto

lemma route_lines_one:
  assumes "LF \<notin> set p"
  shows "route_lines E cl (p @ [LF]) d = route_line E cl (p @ [LF]) d"
  by (subst route_lines.simps) (simp add: index_of_LF [OF assms] route_lines.simps)

text \<open>A line pushed on an empty FIFO is what the send task routes next.\<close>

lemma send_pushed:
  fixes s :: "('n, 'h, 'p) sys"
  assumes "fifo_inv (tcp_fifo s)" "fifo_content (tcp_fifo s) = []" "LF \<notin> set p" "length p < 255"
  shows "core (tcp_response_send E (snd (push_tcp_line (p @ [LF]) s))) = route_line E (account_list s) (p @ [LF]) (core s)"
    and "fst (push_tcp_line (p @ [LF]) s) = p @ [LF]"
proof -
  let ?f = "tcp_fifo s" and ?l = "p @ [LF]"
  have t: "terminated ?l = ?l" by (simp add: terminated_def)
  have sz: "RESPONSE_FIFO_SIZE = 5120" by (simp add: RESPONSE_FIFO_SIZE_def)
  obtain f' where f': "response_fifo_push DROP_NEW ?f ?l = (True, f')"
    using rf.push_accepts [OF assms(1), of ?l] assms(2,4) by (cases "response_fifo_push DROP_NEW ?f ?l") (auto simp: t sz)
  have c: "fifo_content f' = ?l" using rf.push_stored [OF assms(1) f'] assms(2) t by simp
  have i: "fifo_inv f'" using rf.push_keeps [OF assms(1), of ?l] f' by simp
  have o: "fst (response_fifo_drain f' RESPONSE_FIFO_SIZE) = ?l"
    using rf.drain_out [OF i] assms(4) by (simp add: c sz)
  have k: "clip_line ?l = ?l" using assms(4) by (simp add: clip_line_def)
  show "core (tcp_response_send E (snd (push_tcp_line ?l s))) = route_line E (account_list s) ?l (core s)"
    using o by (simp add: tcp_response_send_def push_tcp_line_def Let_def f' split_beta k route_lines_one [OF assms(3)])
  show "fst (push_tcp_line ?l s) = ?l" by (simp add: push_tcp_line_def Let_def k)
qed

lemma push_tcp_line_simps [simp]:
  "core (snd (push_tcp_line l s)) = core s" "account_list (snd (push_tcp_line l s)) = account_list s"
  by (simp_all add: push_tcp_line_def Let_def)

lemma line_target_dec:
  assumes "LONG_MIN \<le> i" "i \<le> LONG_MAX"
  shows "line_target (dec_int i @ COLON # r) = Some i" "snd (split_at COLON (dec_int i @ COLON # r)) = Some r"
  by (simp_all add: line_target_def split_at_some strtol_dec_int [OF assms])

lemma is_client_connected_iff: "is_client_connected sk l \<longleftrightarrow> sk \<in> set l"
  by (auto simp: is_client_connected_def list_ex_iff)

text \<open>Whether a socket is authenticated does not depend on the send counters.\<close>

lemma authenticated_pool_tx:
  assumes "pool_tx p q"
  shows "access_policy_sock_authenticated sk q = access_policy_sock_authenticated sk p"
proof (cases "local_session_find sk p")
  case (Some k)
  then have "k < length p" by (auto dest: find_SomeD)
  with Some tx_onlyD [OF pool_txD(2) [OF assms]] show ?thesis
    by (simp add: access_policy_sock_authenticated_def pool_tx_find [OF assms])
qed (simp add: access_policy_sock_authenticated_def pool_tx_find [OF assms])

lemma broadcast_filter:
  assumes "pool_tx p (pool d)"
  shows "fold (\<lambda>dst d. if device_password_is_set (pw d) \<and> \<not> access_policy_sock_authenticated dst (pool d) then d
      else enc_frame_send E dst b d) cl d =
    fold (\<lambda>dst. enc_frame_send E dst b)
      (filter (\<lambda>dst. \<not> device_password_is_set (pw d) \<or> access_policy_sock_authenticated dst p) cl) d"
  using assms
proof (induction cl arbitrary: d)
  case (Cons sk cl)
  have "pool_tx p (pool (enc_frame_send E sk b d))" by (rule pool_tx_trans [OF Cons.prems enc_send_pool_tx])
  from Cons.IH [OF this] Cons.IH [OF Cons.prems] authenticated_pool_tx [OF Cons.prems, of sk]
  show ?case by simp
qed simp

lemma raw_routed:
  fixes s :: "('n, 'h, 'p) sys"
  assumes "fifo_inv (tcp_fifo s)" "fifo_content (tcp_fifo s) = []" "LF \<notin> set text" "length text < 220" "0 < sk" "sk < 2 ^ 31"
  shows "core (tcp_response_send E (send_raw_to_client sk text s)) =
      (if sk \<in> set (account_list s) then enc_frame_send E sk (text @ [LF]) (core s) else core s)"
proof -
  have t: "LONG_MIN \<le> sk" "sk \<le> LONG_MAX" using assms(5,6) by (simp_all add: LONG_MIN_def LONG_MAX_def)
  have "nat sk < 10 ^ 10" using assms(5,6) by simp
  then have "length (dec_int sk) \<le> 10" using assms(5) length_dec_nat_le [of "nat sk" 10] by (simp add: dec_int_def)
  then have l: "length (dec_int sk @ COLON # text) < 255" using assms(4) by simp
  have "LF \<notin> set (dec_int sk @ COLON # text)" using assms(3) by simp
  from send_pushed(1) [OF assms(1,2) this l, of E] line_target_dec [OF t, of "text @ [LF]"] assms(5) show ?thesis
    by (simp add: send_raw_to_client_def route_line_def is_client_connected_iff)
qed

text \<open>The line an application response becomes, and the clients it goes to.\<close>

lemma data_line:
  fixes s :: "('n, 'h, 'p) sys"
  assumes "fifo_inv (tcp_fifo s)" "fifo_content (tcp_fifo s) = []" "LF \<notin> set text" "NUL \<notin> set text" "length text < 220"
    "0 \<le> response_id s" "sk = SEND_TO_ALL \<or> sk = SEND_TO_ALL_PUBLIC \<or> 0 < sk \<and> sk < 2 ^ 31"
    "t = (if sk = SEND_TO_ALL then RESPONSE_TARGET_ALL else if sk = SEND_TO_ALL_PUBLIC then RESPONSE_TARGET_EVERYONE else sk)"
    "i = fst (update_response_id s)"
  shows "core (tcp_response_send E (send_data_to_clients sk (text @ [LF]) s)) =
      route_line E (account_list s) (dec_int t @ COLON # dec_int i @ COLON # text @ [LF]) (core s)"
    and "line_target (dec_int t @ COLON # r) = Some t" "snd (split_at COLON (dec_int t @ COLON # r)) = Some r"
proof -
  obtain s1 where u: "update_response_id s = (i, s1)" using assms(9) by (cases "update_response_id s") simp
  have s1: "tcp_fifo s1 = tcp_fifo s" "core s1 = core s" "account_list s1 = account_list s" "0 \<le> i" "i < 255"
    using u assms(6) by (auto simp: update_response_id_def Let_def split: if_splits)
  let ?p = "dec_int t @ COLON # dec_int i @ COLON # text"
  have "nat i < 10 ^ 3" using s1(5) by simp
  then have "length (dec_int i) \<le> 3" using s1(4) length_dec_nat_le [of "nat i" 3] by (simp add: dec_int_def)
  moreover have "length (dec_int t) \<le> 10"
  proof -
    have "length (dec_nat 1) \<le> 1" "nat t < 10 ^ 10 \<Longrightarrow> length (dec_nat (nat t)) \<le> 10"
      using length_dec_nat_le [of 1 1] length_dec_nat_le [of "nat t" 10] by simp_all
    moreover have "t = - 1 \<or> 0 \<le> t \<and> nat t < 10 ^ 10" using assms(7,8) by auto
    ultimately show ?thesis by (auto simp: dec_int_def)
  qed
  ultimately have l: "length ?p < 255" using assms(5) by simp
  have n: "LF \<notin> set ?p" using assms(3) by simp
  have f: "fifo_inv (tcp_fifo s1)" "fifo_content (tcp_fifo s1) = []" using assms(1,2) s1(1) by simp_all
  have c: "cstr (text @ [LF]) = text @ [LF]" using assms(4) by simp
  have e: "core (tcp_response_send E (s' \<lparr> mqtt_fifo := f \<rparr>)) = core (tcp_response_send E s')" for s' :: "('n, 'h, 'p) sys" and f
    by (simp add: tcp_response_send_def Let_def split_beta)
  have "core (tcp_response_send E (send_data_to_clients sk (text @ [LF]) s)) =
      core (tcp_response_send E (snd (push_tcp_line (?p @ [LF]) s1)))"
    by (simp add: send_data_to_clients_def u Let_def split_beta e c assms(8))
  then show "core (tcp_response_send E (send_data_to_clients sk (text @ [LF]) s)) =
      route_line E (account_list s) (dec_int t @ COLON # dec_int i @ COLON # text @ [LF]) (core s)"
    using send_pushed(1) [OF f n l, of E] s1 by simp
  have "LONG_MIN \<le> t" "t \<le> LONG_MAX" using assms(7,8) by (auto simp: LONG_MIN_def LONG_MAX_def)
  from line_target_dec [OF this]
  show "line_target (dec_int t @ COLON # r) = Some t" "snd (split_at COLON (dec_int t @ COLON # r)) = Some r" by simp_all
qed

lemma broadcast_routed:
  fixes s :: "('n, 'h, 'p) sys"
  assumes "fifo_inv (tcp_fifo s)" "fifo_content (tcp_fifo s) = []" "LF \<notin> set text" "NUL \<notin> set text" "length text < 220"
    "0 \<le> response_id s"
  shows "core (tcp_response_send E (send_data_to_clients SEND_TO_ALL (text @ [LF]) s)) =
      fold (\<lambda>dst. enc_frame_send E dst (dec_int (fst (update_response_id s)) @ [COLON] @ text @ [LF]))
        (filter (\<lambda>dst. \<not> device_password_is_set (pw (core s)) \<or> access_policy_sock_authenticated dst (pool (core s)))
           (account_list s)) (core s)"
    and "core (tcp_response_send E (send_data_to_clients SEND_TO_ALL_PUBLIC (text @ [LF]) s)) =
      fold (\<lambda>dst. enc_frame_send E dst (dec_int (fst (update_response_id s)) @ [COLON] @ text @ [LF])) (account_list s) (core s)"
    and "0 < sk \<Longrightarrow> sk < 2 ^ 31 \<Longrightarrow> core (tcp_response_send E (send_data_to_clients sk (text @ [LF]) s)) =
      (if sk \<in> set (account_list s)
       then enc_frame_send E sk (dec_int (fst (update_response_id s)) @ [COLON] @ text @ [LF]) (core s) else core s)"
proof -
  let ?i = "fst (update_response_id s)"
  let ?r = "dec_int ?i @ COLON # text @ [LF]"
  show "core (tcp_response_send E (send_data_to_clients SEND_TO_ALL (text @ [LF]) s)) =
      fold (\<lambda>dst. enc_frame_send E dst (dec_int ?i @ [COLON] @ text @ [LF]))
        (filter (\<lambda>dst. \<not> device_password_is_set (pw (core s)) \<or> access_policy_sock_authenticated dst (pool (core s)))
           (account_list s)) (core s)"
    using broadcast_filter [of "pool (core s)" "core s" E ?r "account_list s"] data_line [OF assms, of SEND_TO_ALL 0 ?i]
    by (simp add: route_line_def)
  show "core (tcp_response_send E (send_data_to_clients SEND_TO_ALL_PUBLIC (text @ [LF]) s)) =
      fold (\<lambda>dst. enc_frame_send E dst (dec_int ?i @ [COLON] @ text @ [LF])) (account_list s) (core s)"
    using data_line [OF assms, of SEND_TO_ALL_PUBLIC "- 1" ?i] by (simp add: route_line_def)
  show "0 < sk \<Longrightarrow> sk < 2 ^ 31 \<Longrightarrow> core (tcp_response_send E (send_data_to_clients sk (text @ [LF]) s)) =
      (if sk \<in> set (account_list s) then enc_frame_send E sk (dec_int ?i @ [COLON] @ text @ [LF]) (core s) else core s)"
    using data_line [OF assms, of sk sk ?i] by (simp add: route_line_def is_client_connected_iff)
qed


text \<open>The system at the end of \<open>cything_begin\<close> of a unit with blank flash, as an instance for concrete runs.\<close>

definition bench_sys :: "(flash, bench_srp, part_id \<Rightarrow> nat \<Rightarrow> byte) sys" where
  "bench_sys = \<lparr> core = bench_dev, account_list = [], response_id = 10, tcp_fifo = response_fifo_init, mqtt_fifo = response_fifo_init,
     rx_buffer = (\<lambda>sk. []), released = [], unregistered = [], closed = [], shut = [], parts = blank_fl, reboot_timer = None, pairing_step = 0, temp_ssid = [],
     temp_password = [], pairing_timer = False, firmware_url = [], ota_tasks = [] \<rparr>"


text \<open>
  What a send to an authenticated client puts on the wire: nothing, or a frame that is the payload sealed
  under the key of that client's session, which no send changes.
\<close>

lemma sealed_send:
  assumes "sess (pool e) sk = Some x" "session_keyed x"
  shows "\<exists>w. wire (enc_frame_send E sk p e) = wire e @ w \<and> (\<forall>(sk', b) \<in> set w. sk' = sk \<and>
    (\<exists>ctr ct tag. gcm_seal (cry E) (skey x) (put_u32 ENC_FRAME_DIR_TO_APP @ put_u64 ctr) (strip_eol p) = Some (ct, tag) \<and>
      b = ''ENC:'' @ b64_encode (cry E) (put_u32 ENC_FRAME_DIR_TO_APP @ put_u64 ctr) @ [COMMA] @ b64_encode (cry E) (ct @ tag) @ [LF]))"
proof (cases rule: enc_send_cases [of sk e E p])
  case clear
  with assms show ?thesis by (auto simp: sess_def session_keyed_def)
next
  case (sealed k ct)
  have x: "x = slot_at k e" using assms(1) sealed(1) by (simp add: sess_def)
  obtain c tag where "gcm_seal (cry E) (skey x) (put_u32 ENC_FRAME_DIR_TO_APP @ put_u64 (tx_ctr x + 1)) (strip_eol p) = Some (c, tag)"
      "ct = c @ tag"
    using sealed(3) by (auto simp: x aead_encrypt_def split: if_splits)
  then show ?thesis using sealed(4) by (auto simp: send_def enc_text_def x)
qed simp_all

lemma sess_pool_tx:
  assumes "pool_tx p q" "sess p sk = Some x"
  shows "\<exists>y. sess q sk = Some y \<and> ls_state y = ls_state x \<and> skey y = skey x"
proof -
  from assms(2) obtain k where k: "local_session_find sk p = Some k" "x = p ! k" by (auto simp: sess_def)
  then have "k < length p" by (auto dest: find_SomeD)
  with k tx_onlyD [OF pool_txD(2) [OF assms(1)]] show ?thesis by (auto simp: sess_def pool_tx_find [OF assms(1)])
qed

text \<open>
  C14. With a password set, what the device broadcasts to its paired phones leaves it encrypted, and
  only on sockets of authenticated clients. Every send the routing of a line for the paired phones adds goes to a
  client whose session is authenticated, and its bytes are the nonce of the device's direction with a
  counter and the AES-GCM ciphertext of the payload under the key of that session, in base64.
  Public broadcasts, which are meant for clients that have not authenticated, are not covered.
\<close>

theorem broadcast_sealed:
  assumes "device_password_is_set (pw d)" "line_target line = Some RESPONSE_TARGET_ALL" "snd (split_at COLON line) = Some payload"
  shows "\<exists>w. wire (route_line E cl line d) = wire d @ w \<and>
    (\<forall>(sk, b) \<in> set w. sk \<in> set cl \<and>
      (\<exists>x ctr ct tag. sess (pool d) sk = Some x \<and> (ls_state x = LS_AUTH_OK \<or> ls_state x = LS_PAKE_OK \<and> 0 \<le> paired_index x) \<and>
        gcm_seal (cry E) (skey x) (put_u32 ENC_FRAME_DIR_TO_APP @ put_u64 ctr) (strip_eol payload) = Some (ct, tag) \<and>
        b = ''ENC:'' @ b64_encode (cry E) (put_u32 ENC_FRAME_DIR_TO_APP @ put_u64 ctr) @ [COMMA] @ b64_encode (cry E) (ct @ tag) @ [LF]))"
proof -
  define good where "good sk b \<longleftrightarrow> (\<exists>x ctr ct tag. sess (pool d) sk = Some x \<and> (ls_state x = LS_AUTH_OK \<or> ls_state x = LS_PAKE_OK \<and> 0 \<le> paired_index x) \<and>
        gcm_seal (cry E) (skey x) (put_u32 ENC_FRAME_DIR_TO_APP @ put_u64 ctr) (strip_eol payload) = Some (ct, tag) \<and>
        b = ''ENC:'' @ b64_encode (cry E) (put_u32 ENC_FRAME_DIR_TO_APP @ put_u64 ctr) @ [COMMA] @ b64_encode (cry E) (ct @ tag) @ [LF])" for sk b
  have "\<exists>w. wire (fold (\<lambda>dst. enc_frame_send E dst payload) l e) = wire e @ w \<and> (\<forall>(sk, b) \<in> set w. sk \<in> set l \<and> good sk b)"
    if "\<forall>sk \<in> set l. access_policy_sock_authenticated sk (pool d)" "pool_tx (pool d) (pool e)" for l and e :: "('a, 'b) dev"
    using that
  proof (induction l arbitrary: e)
    case (Cons sk l)
    let ?e = "enc_frame_send E sk payload e"
    from Cons.prems(1) obtain x where x: "sess (pool d) sk = Some x" "(ls_state x = LS_AUTH_OK \<or> ls_state x = LS_PAKE_OK \<and> 0 \<le> paired_index x)"
      by (auto simp: access_policy_sock_authenticated_def sess_def split: option.splits)
    with sess_pool_tx [OF Cons.prems(2)] obtain y where y: "sess (pool e) sk = Some y" "session_keyed y" "skey y = skey x"
      by (metis session_keyed_def)
    have g: "good sk b" if "gcm_seal (cry E) (skey y) (put_u32 ENC_FRAME_DIR_TO_APP @ put_u64 ctr) (strip_eol payload) = Some (ct, tag)"
        "b = ''ENC:'' @ b64_encode (cry E) (put_u32 ENC_FRAME_DIR_TO_APP @ put_u64 ctr) @ [COMMA] @ b64_encode (cry E) (ct @ tag) @ [LF]" for b ctr ct tag
      unfolding good_def using that x y(3) by metis
    from sealed_send [OF y(1,2), of E payload] obtain w where w: "wire ?e = wire e @ w" "\<forall>(s, b) \<in> set w. s = sk \<and> good s b"
      using g by (smt (verit, best) case_prodD case_prodI2)
    from Cons.IH [of ?e] Cons.prems pool_tx_trans [OF Cons.prems(2) enc_send_pool_tx] obtain v where
      "wire (fold (\<lambda>dst. enc_frame_send E dst payload) l ?e) = wire ?e @ v" "\<forall>(s, b) \<in> set v. s \<in> set l \<and> good s b" by auto
    with w show ?case by (intro exI [of _ "w @ v"]) auto
  qed simp
  from this [of "filter (\<lambda>sk. access_policy_sock_authenticated sk (pool d)) cl" d] obtain w where
    "wire (route_line E cl line d) = wire d @ w" "\<forall>(sk, b) \<in> set w. sk \<in> set cl \<and> good sk b"
    using broadcast_filter [of "pool d" d E payload cl] assms by (simp add: route_line_def Let_def) blast
  then show ?thesis unfolding good_def by blast
qed

text \<open>A device with a password and one authenticated client, on socket 5.\<close>

definition bench_locked :: "(flash, bench_srp) dev" where
  "bench_locked = bench_keyed \<lparr> pw := pw_zero \<lparr> s_salt := ''s'', s_verifier := ''v'' \<rparr>,
    pool := (pool bench_keyed)[0 := (pool bench_keyed ! 0) \<lparr> ls_state := LS_AUTH_OK \<rparr>] \<rparr>"

lemma bench_locked_simps:
  "device_password_is_set (pw bench_locked)" "wire bench_locked = []"
  "local_session_find 5 (pool bench_locked) = Some 0" "local_session_find 6 (pool bench_locked) = None"
  "slot_at 0 bench_locked = session_zero \<lparr> sock := 5, ls_state := LS_AUTH_OK, skey := replicate 32 CHR ''K'' \<rparr>"
  by (simp_all add: bench_locked_def bench_keyed_def bench_dev_def device_password_is_set_def local_session_find_def session_zero_def
    eval_nat_numeral)

lemma bench_broadcast_sent:
  "wire (route_line (bench True) [5, 6] (''0:11:on'' @ [LF]) bench_locked) \<noteq> []"
proof -
  let ?e = "enc_frame_send (bench True) 5 (''11:on'' @ [LF])"
  have t: "line_target (''0:11:on'' @ [LF]) = Some 0" "snd (split_at COLON (''0:11:on'' @ [LF])) = Some (''11:on'' @ [LF])"
    by code_simp+
  have a: "access_policy_sock_authenticated 5 (pool bench_locked)" "\<not> access_policy_sock_authenticated 6 (pool bench_locked)"
    by (simp_all add: access_policy_sock_authenticated_def bench_locked_simps)
  have "route_line (bench True) [5, 6] (''0:11:on'' @ [LF]) bench_locked = ?e bench_locked"
    unfolding route_line_def t option.case Let_def by (simp add: a bench_locked_simps(1) authenticated_pool_tx [OF enc_send_pool_tx])
  moreover have "wire (?e bench_locked) \<noteq> []"
    using send_peer_opens [of "bench True" 5 bench_locked 0 "''11:on'' @ [LF]"] bench_locked_simps(3,5) bench_seal(2)
      bench_base64_lawful bench_gcm_lawful length_strip_eol [of "''11:on'' @ [LF]"] by (auto simp: session_keyed_def)
  ultimately show ?thesis by simp
qed

theorem broadcast_sealed_witness:
  "\<exists>sk b x ctr ct tag. (sk, b) \<in> set (wire (route_line (bench True) [5, 6] (''0:11:on'' @ [LF]) bench_locked)) \<and>
     sess (pool bench_locked) sk = Some x \<and>
     gcm_seal bench_crypto (skey x) (put_u32 ENC_FRAME_DIR_TO_APP @ put_u64 ctr) ''11:on'' = Some (ct, tag)"
proof -
  have t: "line_target (''0:11:on'' @ [LF]) = Some 0" "snd (split_at COLON (''0:11:on'' @ [LF])) = Some (''11:on'' @ [LF])"
    by code_simp+
  obtain sk b where w: "(sk, b) \<in> set (wire (route_line (bench True) [5, 6] (''0:11:on'' @ [LF]) bench_locked))"
    using bench_broadcast_sent by (metis list.set_sel(1) surj_pair)
  have "strip_eol (''11:on'' @ [LF]) = ''11:on''" by code_simp
  with broadcast_sealed [OF bench_locked_simps(1) t, of "bench True" "[5, 6]"] w show ?thesis
    by (fastforce simp: bench_locked_simps(2))
qed

end
