(* ===== verification/Wifi_Pairing.thy ===== *)
theory Wifi_Pairing
  imports Tcp_Server
begin

text \<open>
  Handing the router's name and password to the device: the line protocol of \<open>tcp_server/pairing.c\<close>,
  the BLE service of \<open>ble/ble_pairing.c\<close> with the trial connection of \<open>wifi/wifi_trial.c\<close>, and the
  choice of the mode at boot in \<open>cything.c\<close>.

  The Wi-Fi driver and NimBLE belong to ESP-IDF: what their calls return and which events they report
  are arguments. \<open>reboot_timer\<close> is the delay \<open>reboot_after_ms\<close> armed last.

  Shown here: credentials that went through either protocol are those the next boot joins the router
  with, on the conditions the code needs for it; a trial that fails stores nothing; and a phone that
  disconnects during a failing trial leaves a device that no longer advertises.
\<close>

abbreviation (input) START_PAIRING_IND :: nat where "START_PAIRING_IND \<equiv> 0"
abbreviation (input) SET_ROUTER_SSID_IND :: nat where "SET_ROUTER_SSID_IND \<equiv> 1"
abbreviation (input) SET_ROUTER_PASS_IND :: nat where "SET_ROUTER_PASS_IND \<equiv> 2"
abbreviation (input) FINISH_PAIRING_IND :: nat where "FINISH_PAIRING_IND \<equiv> 3"

definition pairing_timeout_cb :: "('n, 'h, 'p) sys \<Rightarrow> ('n, 'h, 'p) sys" where
  "pairing_timeout_cb s =
    (let s = s \<lparr> pairing_timer := False \<rparr>
     in if pairing_step s \<noteq> START_PAIRING_IND then s \<lparr> pairing_step := START_PAIRING_IND \<rparr> else s)"

definition pairing_touch :: "('n, 'h, 'p) sys \<Rightarrow> ('n, 'h, 'p) sys" where
  "pairing_touch s = s \<lparr> pairing_timer := True \<rparr>"

definition pairing_done :: "('n, 'h, 'p) sys \<Rightarrow> ('n, 'h, 'p) sys" where
  "pairing_done s = s \<lparr> pairing_timer := False \<rparr>"

definition reboot_after_ms :: "nat \<Rightarrow> ('n, 'h, 'p) sys \<Rightarrow> ('n, 'h, 'p) sys" where
  "reboot_after_ms ms s = s \<lparr> reboot_timer := Some ms \<rparr>"

text \<open>The lines here are C strings.\<close>

definition is_pairing_command_valid :: "bytes \<Rightarrow> bytes \<Rightarrow> bytes \<Rightarrow> bool" where
  "is_pairing_command_valid line prefix suffix =
    (if length line < length prefix + length suffix then False
     else memcmp_eq line prefix \<and> drop (length line - length suffix) line = suffix)"

definition copy_pairing_value :: "bytes \<Rightarrow> bytes \<Rightarrow> bytes \<Rightarrow> nat \<Rightarrow> bytes" where
  "copy_pairing_value line prefix suffix out_size =
    (let len = length line - length prefix - length suffix;
         len = (if len \<ge> out_size then out_size - 1 else len)
     in take len (drop (length prefix) line))"

definition pairing_commit :: "'p part_api \<Rightarrow> bytes \<Rightarrow> bytes \<Rightarrow> ('n, 'h, 'p) sys \<Rightarrow> esp_err \<times> ('n, 'h, 'p) sys" where
  "pairing_commit A ssid password s =
    (let (err, f) = flash_store_wifi_router_info A (ssid @ [NUL]) (password @ [NUL]) WIFI_STA_MODE (parts s);
         s = s \<lparr> parts := f \<rparr>
     in if err \<noteq> ESP_OK then (err, s) else (ESP_OK, reboot_after_ms 1000 s))"

text \<open>\<open>line\<close> without its newline, as for the other handlers; the string the code sees ends with it.\<close>

definition pairing_handle_line :: "'p part_api \<Rightarrow> config \<Rightarrow> bytes \<Rightarrow> int \<Rightarrow> ('n, 'h, 'p) sys \<Rightarrow> bool \<times> ('n, 'h, 'p) sys" where
  "pairing_handle_line A c line0 sk s =
    (let line = cstr (line0 @ [LF]) in
     if memcmp_eq (line0 @ [LF]) ''StartP'' then
       (True, send_raw_to_client sk ''ACK'' (pairing_touch (s \<lparr> pairing_step := SET_ROUTER_SSID_IND \<rparr>)))
     else if is_pairing_command_valid line (cy_router_ssid_prefix c) [LF] then
       (True,
        if pairing_step s = SET_ROUTER_SSID_IND then
          send_raw_to_client sk ''ACK'' (pairing_touch
            (s \<lparr> temp_ssid := copy_pairing_value line (cy_router_ssid_prefix c) [LF] 128, pairing_step := SET_ROUTER_PASS_IND \<rparr>))
        else s)
     else if is_pairing_command_valid line (cy_router_pass_prefix c) [LF] then
       (True,
        if pairing_step s = SET_ROUTER_PASS_IND then
          send_raw_to_client sk ''ACK'' (pairing_touch
            (s \<lparr> temp_password := copy_pairing_value line (cy_router_pass_prefix c) [LF] 128, pairing_step := FINISH_PAIRING_IND \<rparr>))
        else s)
     else if memcmp_eq (line0 @ [LF]) ''FinishP'' then
       (True,
        if pairing_step s = FINISH_PAIRING_IND then
          let s = snd (pairing_commit A (temp_ssid s) (temp_password s) s)
          in send_raw_to_client sk ''ACK'' (pairing_done (s \<lparr> pairing_step := START_PAIRING_IND \<rparr>))
        else s)
     else (False, s))"

section \<open>The mode at boot\<close>

text \<open>
  \<open>sprintf(dst, fmt)\<close> without further arguments: \<open>%%\<close> prints one percent sign, and a conversion reads an
  argument that was not passed (\<open>None\<close>).
\<close>

fun sprintf_bare :: "bytes \<Rightarrow> bytes option" where
  "sprintf_bare [] = Some []"
| "sprintf_bare (c # s) =
    (if c = CHR ''%'' then
       (case s of CHR 0x25 # r \<Rightarrow> map_option ((#) CHR ''%'') (sprintf_bare r) | _ \<Rightarrow> None)
     else map_option ((#) c) (sprintf_bare s))"

datatype wifi_start = Station "bytes option" "bytes option" | Access_Point

text \<open>The end of \<open>cything_begin\<close>: station mode with \<open>ssid_arg\<close> and \<open>pass_arg\<close>, or the soft access point.\<close>

definition select_mode :: "'p part_api \<Rightarrow> 'p fl \<Rightarrow> wifi_start \<times> 'p fl" where
  "select_mode A f =
    (let f = snd (flash_read_wifi_router_info A f) in
     if take 6 (flash_wifi_mode f) = take 6 WIFI_STA_MODE
     then (Station (sprintf_bare (cstr (flash_router_ssid f))) (sprintf_bare (cstr (flash_router_password f))), f)
     else (Access_Point, f))"

text \<open>
  The copies of \<open>wifi_init_sta\<close> into \<open>wifi_config.sta.ssid\<close> (32 bytes) and \<open>wifi_config.sta.password\<close>
  (64 bytes), each up to the first NUL of a 128-byte array; \<open>None\<close> when a copy runs past its array.
\<close>

definition arg_len :: "bytes \<Rightarrow> nat" where
  "arg_len arg = (if length arg < 128 then length arg else 0)"

definition wifi_init_sta_config :: "bytes \<Rightarrow> bytes \<Rightarrow> (bytes \<times> bytes) option" where
  "wifi_init_sta_config ssid pass =
    (if arg_len ssid > 32 \<or> arg_len pass > 64 then None
     else Some (take (arg_len ssid) ssid, take (arg_len pass) pass))"

section \<open>Pairing by lines\<close>

lemma sprintf_bare_plain: "CHR ''%'' \<notin> set s \<Longrightarrow> sprintf_bare s = Some s"
  by (induction s) auto

lemma raw_simps [simp]:
  "parts (send_raw_to_client sk t s) = parts s" "reboot_timer (send_raw_to_client sk t s) = reboot_timer s"
  "pairing_step (send_raw_to_client sk t s) = pairing_step s" "temp_ssid (send_raw_to_client sk t s) = temp_ssid s"
  "temp_password (send_raw_to_client sk t s) = temp_password s" "core (send_raw_to_client sk t s) = core s"
  "account_list (send_raw_to_client sk t s) = account_list s" "rx_buffer (send_raw_to_client sk t s) = rx_buffer s"
  "response_id (send_raw_to_client sk t s) = response_id s" "mqtt_fifo (send_raw_to_client sk t s) = mqtt_fifo s"
  "firmware_url (send_raw_to_client sk t s) = firmware_url s"
  by (simp_all add: send_raw_to_client_def push_tcp_line_def Let_def)

lemma touch_simps [simp]:
  "parts (pairing_touch s) = parts s" "reboot_timer (pairing_touch s) = reboot_timer s" "pairing_step (pairing_touch s) = pairing_step s"
  "temp_ssid (pairing_touch s) = temp_ssid s" "temp_password (pairing_touch s) = temp_password s" "core (pairing_touch s) = core s"
  "parts (pairing_done s) = parts s" "reboot_timer (pairing_done s) = reboot_timer s" "core (pairing_done s) = core s"
  by (simp_all add: pairing_touch_def pairing_done_def)

definition pair_run :: "'p part_api \<Rightarrow> config \<Rightarrow> int \<Rightarrow> bytes list \<Rightarrow> ('n, 'h, 'p) sys \<Rightarrow> ('n, 'h, 'p) sys" where
  "pair_run A c sk lines s = fold (\<lambda>l s. snd (pairing_handle_line A c l sk s)) lines s"

lemma pair_steps:
  assumes "cy_router_ssid_prefix c = ''ssid:''" "cy_router_pass_prefix c = ''pass:''"
    "LF \<notin> set x" "NUL \<notin> set x" "length x < 128"
  shows "pairing_step (snd (pairing_handle_line A c ''StartP'' sk s)) = 1"
    and "pairing_step s = 1 \<Longrightarrow> pairing_step (snd (pairing_handle_line A c (''ssid:'' @ x) sk s)) = 2"
    and "pairing_step s = 1 \<Longrightarrow> temp_ssid (snd (pairing_handle_line A c (''ssid:'' @ x) sk s)) = x"
    and "pairing_step s = 2 \<Longrightarrow> pairing_step (snd (pairing_handle_line A c (''pass:'' @ x) sk s)) = 3"
    and "pairing_step s = 2 \<Longrightarrow> temp_password (snd (pairing_handle_line A c (''pass:'' @ x) sk s)) = x"
    and "pairing_step s = 2 \<Longrightarrow> temp_ssid (snd (pairing_handle_line A c (''pass:'' @ x) sk s)) = temp_ssid s"
    and "pairing_step s = 3 \<Longrightarrow> parts (snd (pairing_handle_line A c ''FinishP'' sk s)) =
      parts (snd (pairing_commit A (temp_ssid s) (temp_password s) s))"
    and "pairing_step s = 3 \<Longrightarrow> reboot_timer (snd (pairing_handle_line A c ''FinishP'' sk s)) =
      reboot_timer (snd (pairing_commit A (temp_ssid s) (temp_password s) s))"
  using assms
  by (simp_all add: pairing_handle_line_def Let_def memcmp_eq_def is_pairing_command_valid_def copy_pairing_value_def)

lemma commit_roundtrip:
  fixes s :: "('n, 'h, 'p) sys"
  assumes "part_lawful A cell" "length x < 128" "length y < 128" "NUL \<notin> set x" "NUL \<notin> set y"
  shows "fst (pairing_commit A x y s) = ESP_OK" "reboot_timer (snd (pairing_commit A x y s)) = Some 1000"
    "fst (select_mode A (power_cycle (parts (snd (pairing_commit A x y s))))) = Station (sprintf_bare x) (sprintf_bare y)"
proof -
  have w: "fst (flash_store_wifi_router_info A (x @ [NUL]) (y @ [NUL]) WIFI_STA_MODE (parts s)) = ESP_OK"
    using assms by (intro store_wifi(1) [OF assms(1)]) auto
  then show "fst (pairing_commit A x y s) = ESP_OK" "reboot_timer (snd (pairing_commit A x y s)) = Some 1000"
    by (auto simp: pairing_commit_def Let_def reboot_after_ms_def split: prod.splits)
  have c: "chip (power_cycle (parts (snd (pairing_commit A x y s)))) =
      chip (snd (flash_store_wifi_router_info A (x @ [NUL]) (y @ [NUL]) WIFI_STA_MODE (parts s)))"
    using w by (auto simp: pairing_commit_def Let_def reboot_after_ms_def split: prod.splits)
  have l: "length x \<le> 255" "length y \<le> 255" "length WIFI_STA_MODE \<le> 256" using assms(2,3) by simp_all
  note r = wifi_roundtrip [OF assms(1) l(1,2) assms(4,5) l(3) c]
  have "take 6 (take (length WIFI_STA_MODE) m) = take 6 m" for m :: bytes by (simp add: eval_nat_numeral)
  then have "take 6 (flash_wifi_mode (snd (flash_read_wifi_router_info A (power_cycle (parts (snd (pairing_commit A x y s))))))) = take 6 WIFI_STA_MODE"
    using r(2) by metis
  then show "fst (select_mode A (power_cycle (parts (snd (pairing_commit A x y s))))) = Station (sprintf_bare x) (sprintf_bare y)"
    using r(3,4) by (simp add: select_mode_def Let_def)
qed

text \<open>
  C16. Wi-Fi pairing by lines. \<open>StartP\<close>, the network, its password and \<open>FinishP\<close>, from whatever step an
  earlier attempt got stuck at, arm the reboot, and the boot that follows starts in station mode with
  exactly these credentials, provided neither contains a percent sign (the boot code uses them as format
  strings) and they are no longer than an SSID and a passphrase may be. Up to 127 bytes are accepted
  and stored: an SSID of more than 32 bytes runs past its field when station mode starts.
\<close>

theorem wifi_pairing_roundtrip:
  fixes s :: "('n, 'h, 'p) sys"
  assumes "part_lawful A cell" "cy_router_ssid_prefix c = ''ssid:''" "cy_router_pass_prefix c = ''pass:''"
    "LF \<notin> set x" "NUL \<notin> set x" "length x < 128" "LF \<notin> set y" "NUL \<notin> set y" "length y < 128"
  shows "let s' = pair_run A c sk [''StartP'', ''ssid:'' @ x, ''pass:'' @ y, ''FinishP''] s;
        boot = fst (select_mode A (power_cycle (parts s')))
    in reboot_timer s' = Some 1000 \<and> boot = Station (sprintf_bare x) (sprintf_bare y) \<and>
      (CHR ''%'' \<notin> set x \<and> CHR ''%'' \<notin> set y \<longrightarrow> boot = Station (Some x) (Some y) \<and>
        (length x \<le> 32 \<and> length y \<le> 64 \<longrightarrow> wifi_init_sta_config x y = Some (x, y)) \<and>
        (length x > 32 \<longrightarrow> wifi_init_sta_config x y = None))"
proof -
  define s1 where "s1 = snd (pairing_handle_line A c ''StartP'' sk s)"
  define s2 where "s2 = snd (pairing_handle_line A c (''ssid:'' @ x) sk s1)"
  define s3 where "s3 = snd (pairing_handle_line A c (''pass:'' @ y) sk s2)"
  note st = pair_steps [OF assms(2,3)]
  have 1: "pairing_step s1 = 1" unfolding s1_def by (rule st(1) [OF assms(4-6)])
  have 2: "pairing_step s2 = 2" "temp_ssid s2 = x" unfolding s2_def by (rule st(2,3) [OF assms(4-6) 1])+
  have 3: "pairing_step s3 = 3" "temp_password s3 = y" "temp_ssid s3 = x"
    unfolding s3_def using st(4-6) [OF assms(7-9) 2(1)] 2(2) by simp_all
  have "pair_run A c sk [''StartP'', ''ssid:'' @ x, ''pass:'' @ y, ''FinishP''] s = snd (pairing_handle_line A c ''FinishP'' sk s3)"
    by (simp add: pair_run_def s1_def s2_def s3_def)
  moreover note st(7,8) [OF assms(4-6) 3(1)] commit_roundtrip [OF assms(1,6,9,5,8), of s3]
  ultimately show ?thesis
    using assms(6,9) by (simp add: 3 Let_def sprintf_bare_plain wifi_init_sta_config_def arg_len_def)
qed

theorem wifi_pairing_roundtrip_witness:
  "fst (select_mode bench_part (power_cycle (parts (pair_run bench_part (bench_cfg \<lparr> cy_router_ssid_prefix := ''ssid:'', cy_router_pass_prefix := ''pass:'' \<rparr>)
     7 [''StartP'', ''ssid:'' @ ''home'', ''pass:'' @ ''secret12'', ''FinishP''] bench_sys)))) = Station (Some ''home'') (Some ''secret12'')"
  using wifi_pairing_roundtrip [OF bench_part_lawful, of "bench_cfg \<lparr> cy_router_ssid_prefix := ''ssid:'', cy_router_pass_prefix := ''pass:'' \<rparr>"
    "''home''" "''secret12''" 7 bench_sys]
  by (simp add: Let_def)

section \<open>The trial connection\<close>

datatype wifi_trial_result = WIFI_TRIAL_OK | WIFI_TRIAL_NOT_FOUND | WIFI_TRIAL_AUTH_FAIL | WIFI_TRIAL_TIMEOUT | WIFI_TRIAL_ERROR

text \<open>The disconnect reasons \<open>classify\<close> names; the three variants of the first are compiled in only where they are macros.\<close>

datatype reason = NO_AP_FOUND | NO_AP_FOUND_VARIANT | AUTH_EXPIRE | AUTH_FAIL | HANDSHAKE_TIMEOUT_4WAY | HANDSHAKE_TIMEOUT
  | MIC_FAILURE | REASON_OTHER

definition classify :: "bool \<Rightarrow> reason \<Rightarrow> wifi_trial_result" where
  "classify variants r =
    (if r = NO_AP_FOUND \<or> variants \<and> r = NO_AP_FOUND_VARIANT then WIFI_TRIAL_NOT_FOUND
     else if r \<in> {AUTH_EXPIRE, AUTH_FAIL, HANDSHAKE_TIMEOUT_4WAY, HANDSHAKE_TIMEOUT, MIC_FAILURE} then WIFI_TRIAL_AUTH_FAIL
     else WIFI_TRIAL_TIMEOUT)"

datatype wifi_event = Sta_Disconnected reason | Sta_Got_Ip

record trial =
  trial_active :: bool
  trial_failure :: wifi_trial_result
  trial_retries :: int
  got_ip_bit :: bool
  failed_bit :: bool
  reconnects :: nat

definition trial_event :: "bool \<Rightarrow> wifi_event \<Rightarrow> trial \<Rightarrow> trial" where
  "trial_event variants ev t =
    (if \<not> trial_active t then t
     else case ev of
       Sta_Disconnected r \<Rightarrow>
         let why = classify variants r in
         if why = WIFI_TRIAL_TIMEOUT then
           let t' = t \<lparr> trial_retries := trial_retries t - 1 \<rparr> in
           if trial_retries t > 0 then t' \<lparr> reconnects := reconnects t + 1 \<rparr>
           else t' \<lparr> trial_failure := why, failed_bit := True \<rparr>
         else t \<lparr> trial_failure := why, failed_bit := True \<rparr>
     | Sta_Got_Ip \<Rightarrow> t \<lparr> got_ip_bit := True \<rparr>)"

text \<open>The wait for one of the two bits: \<open>evs\<close> are the events before the timeout.\<close>

fun trial_wait :: "bool \<Rightarrow> wifi_event list \<Rightarrow> trial \<Rightarrow> trial" where
  "trial_wait v [] t = t"
| "trial_wait v (ev # evs) t = (if got_ip_bit t \<or> failed_bit t then t else trial_wait v evs (trial_event v ev t))"

text \<open>
  \<open>wifi_trial_run\<close>: \<open>init\<close> and \<open>start\<close> say whether the set-up calls and the start of the connection went
  through. The first component is the result, the second whether the station stays joined.
\<close>

definition wifi_trial_run :: "bool \<Rightarrow> bool \<Rightarrow> bool \<Rightarrow> wifi_event list \<Rightarrow> wifi_trial_result \<times> bool" where
  "wifi_trial_run variants init start evs =
    (if \<not> init then (WIFI_TRIAL_ERROR, False)
     else if \<not> start then (WIFI_TRIAL_ERROR, False)
     else
       let t = trial_wait variants evs \<lparr> trial_active = True, trial_failure = WIFI_TRIAL_TIMEOUT, trial_retries = 2,
                 got_ip_bit = False, failed_bit = False, reconnects = 0 \<rparr>
       in if got_ip_bit t then (WIFI_TRIAL_OK, True)
          else (if failed_bit t then trial_failure t else WIFI_TRIAL_TIMEOUT, False))"

section \<open>The BLE service\<close>

datatype chr = CHR_SSID | CHR_PASS | CHR_CTRL | CHR_STATUS | CHR_INFO | CHR_DIS_MODEL | CHR_DIS_FW | CHR_DIS_HW

datatype att = ATT_OK | INVALID_ATTR_VALUE_LEN | ATT_UNLIKELY | WRITE_NOT_PERMITTED | READ_NOT_PERMITTED | INSUFFICIENT_RES

datatype pair_err = ERR_NO_SSID | ERR_FLASH | ERR_BAD_OPCODE | ERR_BUSY | ERR_WIFI_NOT_FOUND | ERR_WIFI_AUTH | ERR_WIFI_TIMEOUT

datatype pair_state = STATE_IDLE | STATE_READY | STATE_STORED | STATE_TRYING | STATE_WIFI_JOINED | STATE_ERROR pair_err

text \<open>
  The globals of \<open>ble_pairing.c\<close>; \<open>status\<close> is the two-byte status value with its history,
  newest first, \<open>commit_tasks\<close> counts the commit tasks created, \<open>advertising\<close> says whether
  NimBLE advertises: it stops when a central connects.
\<close>

record ble =
  cred_ssid :: bytes
  cred_pass :: bytes
  have_ssid :: bool
  commit_in_progress :: bool
  status :: "pair_state list"
  commit_tasks :: nat
  conn_handle_saved :: "nat option"
  advertising :: bool

definition set_status :: "pair_state \<Rightarrow> ble \<Rightarrow> ble" where
  "set_status st b = b \<lparr> status := st # status b \<rparr>"

definition handle_control :: "bool \<Rightarrow> nat \<Rightarrow> ble \<Rightarrow> ble" where
  "handle_control task_ok opcode b =
    (if opcode = 1 then
       if commit_in_progress b then set_status (STATE_ERROR ERR_BUSY) b
       else if \<not> have_ssid b then set_status (STATE_ERROR ERR_NO_SSID) b
       else
         let b = b \<lparr> commit_in_progress := True \<rparr> in
         if task_ok then b \<lparr> commit_tasks := commit_tasks b + 1 \<rparr>
         else set_status (STATE_ERROR ERR_FLASH) (b \<lparr> commit_in_progress := False \<rparr>)
     else set_status (STATE_ERROR ERR_BAD_OPCODE) b)"

text \<open>\<open>flat_ok\<close>: whether \<open>ble_hs_mbuf_to_flat\<close> could copy the value out.\<close>

definition take_write :: "bool \<Rightarrow> bytes \<Rightarrow> nat \<Rightarrow> nat \<Rightarrow> att \<times> bytes option" where
  "take_write flat_ok data max_len min_len =
    (if length data < min_len \<or> length data > max_len then (INVALID_ATTR_VALUE_LEN, None)
     else if \<not> flat_ok then (ATT_UNLIKELY, None)
     else (ATT_OK, Some data))"

abbreviation (input) BLE_PAIR_SSID_MAX :: nat where "BLE_PAIR_SSID_MAX \<equiv> 32"
abbreviation (input) BLE_PAIR_PASS_MAX :: nat where "BLE_PAIR_PASS_MAX \<equiv> 64"

definition gatt_write :: "bool \<Rightarrow> bool \<Rightarrow> chr \<Rightarrow> bytes \<Rightarrow> ble \<Rightarrow> att \<times> ble" where
  "gatt_write flat_ok task_ok which data b =
    (case which of
       CHR_SSID \<Rightarrow>
         (case take_write flat_ok data BLE_PAIR_SSID_MAX 1 of
            (rc, Some v) \<Rightarrow>
              let b = b \<lparr> cred_ssid := cstr v, have_ssid := True \<rparr>
              in (rc, if \<not> commit_in_progress b then set_status STATE_READY b else b)
          | (rc, None) \<Rightarrow> (rc, b))
     | CHR_PASS \<Rightarrow>
         (case take_write flat_ok data BLE_PAIR_PASS_MAX 0 of
            (rc, Some v) \<Rightarrow> (rc, b \<lparr> cred_pass := cstr v \<rparr>)
          | (rc, None) \<Rightarrow> (rc, b))
     | CHR_CTRL \<Rightarrow>
         (case take_write flat_ok data 1 1 of
            (rc, Some v) \<Rightarrow> (rc, handle_control task_ok (of_char (v ! 0)) b)
          | (rc, None) \<Rightarrow> (rc, b))
     | _ \<Rightarrow> (WRITE_NOT_PERMITTED, b))"

text \<open>\<open>start_advertising\<close>; \<open>ok\<close> says which of its three NimBLE calls succeed.\<close>

definition ble_start_advertising :: "bool \<times> bool \<times> bool \<Rightarrow> ble \<Rightarrow> ble" where
  "ble_start_advertising ok b =
    (if \<not> fst ok then b else if \<not> fst (snd ok) then b else if \<not> snd (snd ok) then b else b \<lparr> advertising := True \<rparr>)"

datatype gap = Gap_Connect bool nat | Gap_Disconnect | Gap_Adv_Complete | Gap_Other

text \<open>The event has already stopped the advertiser where NimBLE says so.\<close>

definition gap_event :: "bool \<times> bool \<times> bool \<Rightarrow> gap \<Rightarrow> ble \<Rightarrow> ble" where
  "gap_event ok ev b =
    (case ev of
       Gap_Connect good h \<Rightarrow>
         let b = b \<lparr> advertising := False \<rparr>
         in if good then b \<lparr> conn_handle_saved := Some h \<rparr> else ble_start_advertising ok b
     | Gap_Disconnect \<Rightarrow>
         let b = b \<lparr> conn_handle_saved := None \<rparr>
         in if \<not> commit_in_progress b then ble_start_advertising ok b else b
     | Gap_Adv_Complete \<Rightarrow>
         let b = b \<lparr> advertising := False \<rparr>
         in if \<not> commit_in_progress b then ble_start_advertising ok b else b
     | Gap_Other \<Rightarrow> b)"

text \<open>
  \<open>ble_commit_task\<close>: up to the call of the trial, and from its result on. Between the two, and for the
  1.5 seconds before the credentials are stored, the host task serves the phone.
\<close>

definition ble_commit_start :: "ble \<Rightarrow> ble" where
  "ble_commit_start b = set_status STATE_TRYING b"

definition ble_commit_result :: "wifi_trial_result \<Rightarrow> ble \<Rightarrow> ble" where
  "ble_commit_result r b =
    (if r \<noteq> WIFI_TRIAL_OK then
       (set_status (STATE_ERROR (if r = WIFI_TRIAL_NOT_FOUND then ERR_WIFI_NOT_FOUND
          else if r = WIFI_TRIAL_AUTH_FAIL then ERR_WIFI_AUTH else ERR_WIFI_TIMEOUT)) b) \<lparr> commit_in_progress := False \<rparr>
     else set_status STATE_WIFI_JOINED b)"

definition ble_commit_store :: "'p part_api \<Rightarrow> ble \<Rightarrow> ('n, 'h, 'p) sys \<Rightarrow> ble \<times> ('n, 'h, 'p) sys" where
  "ble_commit_store A b s =
    (let (err, s) = pairing_commit A (cred_ssid b) (cred_pass b) s
     in if err = ESP_OK then (set_status STATE_STORED b, s)
        else ((set_status (STATE_ERROR ERR_FLASH) b) \<lparr> commit_in_progress := False \<rparr>, s))"

section \<open>A commit over BLE\<close>

datatype ble_ev = Write bool bool chr bytes | Gap "bool \<times> bool \<times> bool" gap

fun ble_step :: "ble_ev \<Rightarrow> ble \<Rightarrow> ble" where
  "ble_step (Write flat_ok task_ok which data) b = snd (gatt_write flat_ok task_ok which data b)"
| "ble_step (Gap ok ev) b = gap_event ok ev b"

text \<open>A commit with what the host task serves during the trial and before the credentials are stored.\<close>

definition ble_commit_run ::
    "'p part_api \<Rightarrow> wifi_trial_result \<Rightarrow> ble_ev list \<Rightarrow> ble_ev list \<Rightarrow> ble \<Rightarrow> ('n, 'h, 'p) sys \<Rightarrow> ble \<times> ('n, 'h, 'p) sys" where
  "ble_commit_run A r evs evs' b s =
    (let b = ble_commit_result r (fold ble_step evs (ble_commit_start b))
     in if r \<noteq> WIFI_TRIAL_OK then (b, s) else ble_commit_store A (fold ble_step evs' b) s)"

definition ble_inv :: "ble \<Rightarrow> bool" where
  "ble_inv b \<longleftrightarrow> length (cred_ssid b) \<le> BLE_PAIR_SSID_MAX \<and> NUL \<notin> set (cred_ssid b) \<and>
     length (cred_pass b) \<le> BLE_PAIR_PASS_MAX \<and> NUL \<notin> set (cred_pass b)"

lemma status_simps [simp]:
  "cred_ssid (set_status st b) = cred_ssid b" "cred_pass (set_status st b) = cred_pass b" "advertising (set_status st b) = advertising b"
  "commit_in_progress (set_status st b) = commit_in_progress b" "conn_handle_saved (set_status st b) = conn_handle_saved b"
  "commit_tasks (set_status st b) = commit_tasks b" "have_ssid (set_status st b) = have_ssid b"
  by (simp_all add: set_status_def)

lemma control_simps [simp]:
  "cred_ssid (handle_control t c b) = cred_ssid b" "cred_pass (handle_control t c b) = cred_pass b"
  by (simp_all add: handle_control_def Let_def)

lemma gap_simps [simp]:
  "cred_ssid (gap_event ok ev b) = cred_ssid b" "cred_pass (gap_event ok ev b) = cred_pass b"
  "commit_in_progress (gap_event ok ev b) = commit_in_progress b" "commit_tasks (gap_event ok ev b) = commit_tasks b"
  by (simp_all add: gap_event_def ble_start_advertising_def Let_def split: gap.split)

lemma step_inv: "ble_inv b \<Longrightarrow> ble_inv (ble_step ev b)"
  by (cases ev) (auto simp: ble_inv_def gatt_write_def take_write_def Let_def intro: le_trans [OF length_cstr_le] split: chr.split)

lemma steps_inv: "ble_inv b \<Longrightarrow> ble_inv (fold ble_step evs b)"
  by (induction evs arbitrary: b) (simp_all add: step_inv)

text \<open>A commit stays in progress, and no second one starts, whatever the phone does meanwhile.\<close>

lemma step_busy:
  "commit_in_progress b \<Longrightarrow> commit_in_progress (ble_step ev b) \<and> commit_tasks (ble_step ev b) = commit_tasks b"
  by (cases ev) (auto simp: gatt_write_def take_write_def handle_control_def Let_def split: chr.split)

lemma steps_busy:
  "commit_in_progress b \<Longrightarrow> commit_in_progress (fold ble_step evs b) \<and> commit_tasks (fold ble_step evs b) = commit_tasks b"
proof (induction evs arbitrary: b)
  case (Cons ev evs)
  from Cons.IH [of "ble_step ev b"] step_busy [OF Cons.prems, of ev] show ?case by simp
qed simp

lemma steps_creds:
  "cred_ssid b = cred_ssid c \<and> cred_pass b = cred_pass c \<Longrightarrow>
   cred_ssid (fold ble_step evs b) = cred_ssid (fold ble_step evs c) \<and> cred_pass (fold ble_step evs b) = cred_pass (fold ble_step evs c)"
proof (induction evs arbitrary: b c)
  case (Cons ev evs)
  have "cred_ssid (ble_step ev b) = cred_ssid (ble_step ev c) \<and> cred_pass (ble_step ev b) = cred_pass (ble_step ev c)"
    using Cons.prems by (cases ev) (auto simp: gatt_write_def take_write_def Let_def split: chr.split)
  from Cons.IH [OF this] show ?case by simp
qed simp

lemma no_write:
  "list_all (\<lambda>ev. case ev of Write _ _ which _ \<Rightarrow> which \<noteq> CHR_SSID \<and> which \<noteq> CHR_PASS | Gap _ _ \<Rightarrow> True) evs \<Longrightarrow>
   cred_ssid (fold ble_step evs b) = cred_ssid b \<and> cred_pass (fold ble_step evs b) = cred_pass b"
proof (induction evs arbitrary: b)
  case (Cons ev evs)
  have "cred_ssid (ble_step ev b) = cred_ssid b \<and> cred_pass (ble_step ev b) = cred_pass b"
    using Cons.prems by (cases ev) (auto simp: gatt_write_def take_write_def split: chr.split)
  with Cons show ?case by simp
qed simp

text \<open>
  C17. A commit over BLE. Credentials the router refused, or did not answer, are not stored: the flash
  stays as it was, no reboot is armed and a new commit is accepted. After a successful trial the next
  boot joins the router with the credentials the service holds, and the phone reads the state as
  stored. Meanwhile no second commit can start. The credentials are those that were tried if the phone
  did not write others in the meantime; the service takes such a write, and then stores what was never tried.
\<close>

theorem ble_commit_outcome:
  fixes s :: "('n, 'h, 'p) sys"
  assumes "part_lawful A cell" "ble_inv b" "commit_in_progress b"
  shows "let (b', s') = ble_commit_run A r evs evs' b s in
    commit_tasks b' = commit_tasks b \<and>
    (r \<noteq> WIFI_TRIAL_OK \<longrightarrow> s' = s \<and> \<not> commit_in_progress b') \<and>
    (r = WIFI_TRIAL_OK \<longrightarrow> hd (status b') = STATE_STORED \<and> reboot_timer s' = Some 1000 \<and>
       fst (select_mode A (power_cycle (parts s'))) = Station (sprintf_bare (cred_ssid b')) (sprintf_bare (cred_pass b')) \<and>
       cred_ssid b' = cred_ssid (fold ble_step (evs @ evs') b) \<and>
       (list_all (\<lambda>ev. case ev of Write _ _ which _ \<Rightarrow> which \<noteq> CHR_SSID \<and> which \<noteq> CHR_PASS | Gap _ _ \<Rightarrow> True) (evs @ evs') \<longrightarrow>
          cred_ssid b' = cred_ssid b \<and> cred_pass b' = cred_pass b))"
proof -
  let ?b1 = "fold ble_step evs (ble_commit_start b)"
  let ?b2 = "fold ble_step evs' (ble_commit_result WIFI_TRIAL_OK ?b1)"
  have b1: "commit_in_progress ?b1" "commit_tasks ?b1 = commit_tasks b"
    using steps_busy [of "ble_commit_start b" evs] assms(3) by (simp_all add: ble_commit_start_def)
  have b2: "commit_tasks ?b2 = commit_tasks b"
    using steps_busy [of "ble_commit_result WIFI_TRIAL_OK ?b1" evs'] b1 by (simp add: ble_commit_result_def)
  have c: "cred_ssid ?b2 = cred_ssid (fold ble_step (evs @ evs') b)" "cred_pass ?b2 = cred_pass (fold ble_step (evs @ evs') b)"
    using steps_creds [of "ble_commit_result WIFI_TRIAL_OK ?b1" "fold ble_step evs b" evs'] steps_creds [of "ble_commit_start b" b evs]
    by (simp_all add: ble_commit_start_def ble_commit_result_def)
  have "ble_inv (ble_commit_start b)" using assms(2) by (simp add: ble_inv_def ble_commit_start_def)
  from steps_inv [OF this, of evs] have "ble_inv (ble_commit_result WIFI_TRIAL_OK ?b1)" by (simp add: ble_inv_def ble_commit_result_def)
  from steps_inv [OF this, of evs'] have i: "ble_inv ?b2" .
  then have "length (cred_ssid ?b2) < 128" "length (cred_pass ?b2) < 128" "NUL \<notin> set (cred_ssid ?b2)" "NUL \<notin> set (cred_pass ?b2)"
    by (simp_all add: ble_inv_def)
  note r = commit_roundtrip [OF assms(1) this, of s]
  show ?thesis
  proof (cases "r = WIFI_TRIAL_OK")
    case True
    then have "ble_commit_run A r evs evs' b s = (set_status STATE_STORED ?b2, snd (pairing_commit A (cred_ssid ?b2) (cred_pass ?b2) s))"
      using r(1) by (simp add: ble_commit_run_def ble_commit_store_def Let_def case_prod_beta)
    then show ?thesis
      using True r(2,3) b2 c no_write [of "evs @ evs'" b] by (simp add: set_status_def)
  next
    case False
    then show ?thesis using b1 by (simp add: ble_commit_run_def Let_def) (simp add: ble_commit_result_def)
  qed
qed

definition bench_ble :: ble where
  "bench_ble = \<lparr> cred_ssid = ''home'', cred_pass = ''secret12'', have_ssid = True, commit_in_progress = True, status = [STATE_READY],
     commit_tasks = 1, conn_handle_saved = Some 0, advertising = False \<rparr>"

theorem ble_commit_outcome_witness:
  "fst (select_mode bench_part (power_cycle (parts (snd (ble_commit_run bench_part WIFI_TRIAL_OK [Write True True CHR_SSID ''hmoe''] [] bench_ble bench_sys))))) =
     Station (Some ''hmoe'') (Some ''secret12'')"
proof -
  have "ble_inv bench_ble" "commit_in_progress bench_ble" by (simp_all add: ble_inv_def bench_ble_def)
  from ble_commit_outcome [OF bench_part_lawful this, of WIFI_TRIAL_OK "[Write True True CHR_SSID ''hmoe'']" "[]" bench_sys]
  have "fst (select_mode bench_part (power_cycle (parts (snd (ble_commit_run bench_part WIFI_TRIAL_OK [Write True True CHR_SSID ''hmoe''] [] bench_ble bench_sys))))) =
    Station (sprintf_bare (cred_ssid (fst (ble_commit_run bench_part WIFI_TRIAL_OK [Write True True CHR_SSID ''hmoe''] [] bench_ble bench_sys))))
      (sprintf_bare (cred_pass (fst (ble_commit_run bench_part WIFI_TRIAL_OK [Write True True CHR_SSID ''hmoe''] [] bench_ble bench_sys))))"
    by (auto simp: Let_def split: prod.splits)
  moreover have "cred_ssid (fst (ble_commit_run bench_part WIFI_TRIAL_OK [Write True True CHR_SSID ''hmoe''] [] bench_ble bench_sys)) = ''hmoe''"
    "cred_pass (fst (ble_commit_run bench_part WIFI_TRIAL_OK [Write True True CHR_SSID ''hmoe''] [] bench_ble bench_sys)) = ''secret12''"
    by (auto simp: ble_commit_run_def ble_commit_start_def ble_commit_result_def ble_commit_store_def gatt_write_def take_write_def bench_ble_def
      set_status_def Let_def split: prod.splits)
  ultimately show ?thesis by simp
qed

text \<open>
  C28. A phone that goes away during a trial that fails takes the BLE service with it: nothing advertises,
  nobody is connected and no commit is in progress, so no later event restarts advertising. The same two events in
  the other order leave the service advertising.
\<close>

theorem ble_advertising_lost:
  assumes "commit_in_progress b" "\<not> advertising b" "r \<noteq> WIFI_TRIAL_OK"
  shows "let b' = ble_commit_result r (gap_event (True, True, True) Gap_Disconnect b);
        b'' = gap_event (True, True, True) Gap_Disconnect (ble_commit_result r b)
    in \<not> advertising b' \<and> conn_handle_saved b' = None \<and> \<not> commit_in_progress b' \<and>
       advertising b'' \<and> conn_handle_saved b'' = None \<and> \<not> commit_in_progress b''"
  using assms by (simp add: gap_event_def ble_start_advertising_def ble_commit_result_def Let_def set_status_def)

theorem ble_advertising_lost_witness:
  "\<not> advertising (ble_commit_result WIFI_TRIAL_AUTH_FAIL (gap_event (True, True, True) Gap_Disconnect
     \<lparr> cred_ssid = ''home'', cred_pass = ''typo'', have_ssid = True, commit_in_progress = True, status = [STATE_TRYING],
       commit_tasks = 1, conn_handle_saved = Some 0, advertising = False \<rparr>))"
  using ble_advertising_lost [of "\<lparr> cred_ssid = ''home'', cred_pass = ''typo'', have_ssid = True, commit_in_progress = True,
    status = [STATE_TRYING], commit_tasks = 1, conn_handle_saved = Some 0, advertising = False \<rparr>" WIFI_TRIAL_AUTH_FAIL]
  by (simp add: Let_def)

end
