(* ===== verification/Tcp_Command.thy ===== *)
theory Tcp_Command
  imports Session_Rights Wifi_Pairing "HOL-Library.Signed_Division"
begin

text \<open>
  A received line from the socket to its handler: the dispatcher and the firmware-update commands of
  \<open>tcp_server/tcp_command.c\<close>, the update task of \<open>ota_lib/http_ota_handler.c\<close>, the receive step of
  \<open>tcp_server/tcp_client_recv.c\<close>, and the system as a step relation over everything the tasks do.

  The application's \<open>app_command_handle_line\<close> is the argument \<open>app\<close>: whether it took the line, and the
  responses it hands to \<open>send_data_to_clients\<close>, socket and bytes, in order. The HTTPS client is the
  record \<open>https_run\<close> of what its calls return.

  Shown here: every state the server reaches with a flash that takes every write is well-formed; a
  session gets a key or an account only by the line on its own connection that proves the right to it;
  while a password is set, a line that is neither a handshake nor public does nothing unless it arrived
  encrypted on an authenticated session.
\<close>

section \<open>Firmware update\<close>

definition ota_handle_line :: "bytes \<Rightarrow> int \<Rightarrow> ('n, 'h, 'p) sys \<Rightarrow> bool \<times> ('n, 'h, 'p) sys" where
  "ota_handle_line line sk s =
    (if memcmp_eq (line @ [LF]) ''startupdatecomm'' then (True, send_raw_to_client sk ''startupdateres'' s)
     else if memcmp_eq (line @ [LF]) ''credentialcomm'' then (True, send_raw_to_client sk ''credentialres'' s)
     else if memcmp_eq (line @ [LF]) ''updatingcomm'' then
       let url_len = length line - 12;
           url_len = (if url_len \<ge> 4096 then 4095 else url_len);
           s = s \<lparr> firmware_url := take url_len (drop 12 line), ota_tasks := ota_tasks s @ [sk] \<rparr>
       in (True, send_raw_to_client sk (snprintf_buf 32 (''updating:'' @ ''2'')) s)
     else (False, s))"

text \<open>
  What \<open>esp_https_ota\<close> reports to one run of \<open>ota_task\<close>: whether it began, the size of the image, the
  bytes read after each call that is still in progress, and whether all data arrived.
\<close>

record https_run =
  begin_ok :: bool
  image_size :: int
  reads :: "int list"
  complete :: bool

definition wrap32 :: "int \<Rightarrow> int" where
  "wrap32 x = (x + 2 ^ 31) mod 2 ^ 32 - 2 ^ 31"

fun ota_progress :: "int \<Rightarrow> int \<Rightarrow> int \<Rightarrow> int list \<Rightarrow> ('n, 'h, 'p) sys \<Rightarrow> ('n, 'h, 'p) sys" where
  "ota_progress sk total_size last_percent [] s = s"
| "ota_progress sk total_size last_percent (bytes_read # rs) s =
    (if total_size > 0 then
       let percent = wrap32 (bytes_read * 100) sdiv total_size in
       if percent \<noteq> last_percent
       then ota_progress sk total_size percent rs (send_raw_to_client sk (snprintf_buf 32 (''updating:'' @ dec_int percent)) s)
       else ota_progress sk total_size last_percent rs s
     else ota_progress sk total_size last_percent rs s)"

text \<open>The second component says whether the task deleted itself, or returned, which FreeRTOS does not allow.\<close>

definition ota_task :: "https_run \<Rightarrow> int \<Rightarrow> ('n, 'h, 'p) sys \<Rightarrow> ('n, 'h, 'p) sys \<times> bool" where
  "ota_task h sk s =
    (if \<not> begin_ok h then (s, False)
     else
       let s = ota_progress sk (image_size h) (- 1) (reads h) s
       in if complete h then (reboot_after_ms 2000 (send_raw_to_client sk ''updatedres'' s), True)
          else (s, True))"

section \<open>Dispatch\<close>

type_synonym app = "bytes \<Rightarrow> int \<Rightarrow> bool \<times> (int \<times> bytes) list"

definition set_core :: "('n, 'h) dev \<Rightarrow> ('n, 'h, 'p) sys \<Rightarrow> ('n, 'h, 'p) sys" where
  "set_core d s = s \<lparr> core := d \<rparr>"

text \<open>The provisioning handler on the system: its replies go straight to \<open>send()\<close>.\<close>

definition provisioning_line :: "('n, 'h) env \<Rightarrow> bytes \<Rightarrow> int \<Rightarrow> ('n, 'h, 'p) sys \<Rightarrow> bool \<times> ('n, 'h, 'p) sys" where
  "provisioning_line E line sk s =
    (let d = core s in
     case provisioning_handle_tcp_line E (draws d) (line @ [LF]) (prov d) (flash d) of
       None \<Rightarrow> (False, s)
     | Some r \<Rightarrow>
         let d = fold (send sk) (pr_sent r) (d \<lparr> prov := pr_state r, flash := pr_flash r, draws := draws d + 1 \<rparr>);
             s = set_core d s
         in (True, case pr_reboot r of None \<Rightarrow> s | Some ms \<Rightarrow> reboot_after_ms ms s))"

definition app_line :: "app \<Rightarrow> bytes \<Rightarrow> int \<Rightarrow> ('n, 'h, 'p) sys \<Rightarrow> bool \<times> ('n, 'h, 'p) sys" where
  "app_line app line sk s =
    (case app line sk of (taken, out) \<Rightarrow> (taken, fold (\<lambda>(dst, data). send_data_to_clients dst data) out s))"

definition tcp_dispatch_line ::
    "('n, 'h) env \<Rightarrow> 'p part_api \<Rightarrow> app \<Rightarrow> bytes \<Rightarrow> int \<Rightarrow> ('n, 'h, 'p) sys \<Rightarrow> ('n, 'h, 'p) sys" where
  "tcp_dispatch_line E A app line sk s =
    (let (ok, d) = access_policy_allow E line sk (core s); s = set_core d s in
     if \<not> ok then s else
     let (taken, d) = pake_handle_line E line sk (core s); s = set_core d s in
     if taken then s else
     let (taken, d) = local_auth_handle_line E line sk (core s); s = set_core d s in
     if taken then s else
     let (taken, d) = owner_commands_handle_line E line sk (core s); s = set_core d s in
     if taken then s else
     let (taken, s) = provisioning_line E line sk s in
     if taken then s else
     let (taken, s) = ota_handle_line line sk s in
     if taken then s else
     let (taken, s) = pairing_handle_line A (cfg E) line sk s in
     if taken then s else snd (app_line app line sk s))"

text \<open>
  One turn of the receive loop of socket \<open>sk\<close>, with the whole handling of the line it completes, if it does;
  when the connection is gone, the first step of the end of the task.
\<close>

definition recv_step ::
    "('n, 'h) env \<Rightarrow> 'p part_api \<Rightarrow> app \<Rightarrow> int \<Rightarrow> recv \<Rightarrow> ('n, 'h, 'p) sys \<Rightarrow> ('n, 'h, 'p) sys" where
  "recv_step E A app sk ev s =
    (if ev = Gone then recv_task_release sk s
     else
       let (l, rx) = recv_frame ev (rx_buffer s sk); s = s \<lparr> rx_buffer := (rx_buffer s)(sk := rx) \<rparr> in
       case l of
         None \<Rightarrow> s
       | Some line \<Rightarrow>
           (case enc_frame_unwrap E line sk (core s) of
              (None, d) \<Rightarrow> set_core d s
            | (Some plain, d) \<Rightarrow> tcp_dispatch_line E A app plain sk (set_core d s)))"

section \<open>The system\<close>

text \<open>
  Everything the tasks of the server can do next. A step is one turn of a task's loop: a connection the
  listener accepted, a byte received with the handling of the line it completes, one drain of the
  response FIFO; the end of a receive task is three steps. Turns of different tasks come in any order. What happens
  when the scheduler switches tasks inside a turn, between two critical sections of a line's
  handler, is not covered. The descriptor \<open>accept()\<close> returns is not open; \<open>pass_time\<close> moves the clocks.
\<close>

inductive sys_step :: "('n, 'h) env \<Rightarrow> 'p part_api \<Rightarrow> app \<Rightarrow> ('n, 'h, 'p) sys \<Rightarrow> ('n, 'h, 'p) sys \<Rightarrow> bool"
  for E A app where
  accept: "0 \<le> sk \<Longrightarrow> sk \<notin> set (account_list s) \<union> set (unregistered s) \<Longrightarrow> sys_step E A app s (tcp_accept sk peer task_ok s)"
| receive: "sess (pool (core s)) sk \<noteq> None \<Longrightarrow> sys_step E A app s (recv_step E A app sk ev s)"
| unregister: "sk \<in> set (released s) \<Longrightarrow> sys_step E A app s (recv_task_unregister sk s)"
| close: "sk \<in> set (unregistered s) \<Longrightarrow> sys_step E A app s (recv_task_close sk s)"
| send: "sys_step E A app s (tcp_response_send E s)"
| respond: "sys_step E A app s (send_data_to_clients sk data s)"
| update: "sk \<in> set (ota_tasks s) \<Longrightarrow> sys_step E A app s (fst (ota_task h sk s))"
| pairing_timeout: "pairing_timer s \<Longrightarrow> sys_step E A app s (pairing_timeout_cb s)"
| mqtt_drain: "sys_step E A app s (s \<lparr> mqtt_fifo := snd (response_fifo_drain (mqtt_fifo s) n) \<rparr>)"
| pass_time: "sys_step E A app s (set_core ((core s) \<lparr> now_us := t, wall := w \<rparr>) s)"

inductive reachable :: "('n, 'h) env \<Rightarrow> 'p part_api \<Rightarrow> app \<Rightarrow> ('n, 'h, 'p) sys \<Rightarrow> ('n, 'h, 'p) sys \<Rightarrow> bool"
  for E A app s0 where
  start: "reachable E A app s0 s0"
| step: "reachable E A app s0 s \<Longrightarrow> sys_step E A app s s' \<Longrightarrow> reachable E A app s0 s'"

section \<open>Well-formed systems\<close>

text \<open>
  The registry holds exactly the sockets that own a session and those whose task has just released it,
  each once and at most 100; a socket that left it is not in it again before it was closed; the FIFOs,
  ids and buffers are in range, and the device is well-formed.
\<close>

definition registry_ok :: "int list \<Rightarrow> int set \<Rightarrow> int list \<Rightarrow> int list \<Rightarrow> bool" where
  "registry_ok regs sessions rel unreg \<longleftrightarrow>
     distinct regs \<and> length regs \<le> 100 \<and> distinct rel \<and> distinct unreg \<and>
     set regs = sessions \<union> set rel \<and> sessions \<inter> set rel = {} \<and> set regs \<inter> set unreg = {}"

definition sys_inv :: "('n, 'h, 'p) sys \<Rightarrow> bool" where
  "sys_inv s \<longleftrightarrow> dev_inv (core s) \<and> fifo_inv (tcp_fifo s) \<and> fifo_inv (mqtt_fifo s) \<and>
     10 \<le> response_id s \<and> response_id s < 255 \<and>
     registry_ok (account_list s) (dom (sess (pool (core s)))) (released s) (unregistered s) \<and>
     (\<forall>sk. length (rx_buffer s sk) < TCP_RECEIVE_DATA_LENGTH) \<and> pairing_step s \<le> FINISH_PAIRING_IND \<and>
     length (temp_ssid s) < 128 \<and> length (temp_password s) < 128 \<and> length (firmware_url s) < 4096"

lemma dom_sess_socks: "map sock q = map sock p \<Longrightarrow> dom (sess q) = dom (sess p)"
  by (simp add: dom_def sess_def local_session_find_def index_of_sock)

lemma sys_inv_core:
  assumes "sys_inv s" "dev_inv d" "map sock (pool d) = map sock (pool (core s))"
  shows "sys_inv (set_core d s)"
  using assms(1,2) dom_sess_socks [OF assms(3)] by (simp add: sys_inv_def set_core_def)

lemma sys_inv_raw: "sys_inv s \<Longrightarrow> sys_inv (send_raw_to_client sk t s)"
  by (simp add: sys_inv_def rf.push_keeps send_raw_to_client_def push_tcp_line_def Let_def)

lemma sys_inv_data: "sys_inv s \<Longrightarrow> sys_inv (send_data_to_clients sk data s)"
  by (auto simp: sys_inv_def rf.push_keeps send_data_to_clients_def update_response_id_def push_tcp_line_def Let_def)

lemma sys_inv_datas: "sys_inv s \<Longrightarrow> sys_inv (fold (\<lambda>(dst, data). send_data_to_clients dst data) out s)"
  by (induction out arbitrary: s) (auto simp: sys_inv_data)

lemma fold_send_keeps:
  "pool_tx (pool d) (pool (fold (\<lambda>dst d. if C dst d then d else enc_frame_send E dst b d) cl d)) \<and>
   plist (fold (\<lambda>dst d. if C dst d then d else enc_frame_send E dst b d) cl d) = plist d \<and>
   events (fold (\<lambda>dst d. if C dst d then d else enc_frame_send E dst b d) cl d) = events d"
proof (induction cl arbitrary: d)
  case (Cons sk cl)
  from pool_tx_trans [OF enc_send_pool_tx [of d E sk b]] Cons.IH [of "enc_frame_send E sk b d"] Cons.IH [of d]
  show ?case by simp
qed simp

lemma route_line_keeps:
  "pool_tx (pool d) (pool (route_line E cl line d)) \<and> plist (route_line E cl line d) = plist d \<and> events (route_line E cl line d) = events d"
proof (cases "line_target line")
  case (Some t)
  show ?thesis
  proof (cases "t = 0 \<or> t = - 1")
    case True
    show ?thesis
      using fold_send_keeps [where C = "\<lambda>dst d. t = 0 \<and> device_password_is_set (pw d) \<and> \<not> access_policy_sock_authenticated dst (pool d)"
        and b = "the (snd (split_at COLON line))" and d = d and cl = cl and E = E] True Some
      by (simp add: route_line_def Let_def)
  next
    case False
    then show ?thesis using Some by (simp add: route_line_def Let_def enc_send_pool_tx)
  qed
qed (simp add: route_line_def)

lemma route_lines_keeps:
  "pool_tx (pool d) (pool (route_lines E cl b d)) \<and> plist (route_lines E cl b d) = plist d \<and> events (route_lines E cl b d) = events d"
proof (induction E cl b d rule: route_lines.induct)
  case (1 E cl b d)
  show ?case
  proof (cases "b = []")
    case False
    define n where "n = (case index_of (\<lambda>c. c = LF) b of Some i \<Rightarrow> i + 1 | None \<Rightarrow> length b)"
    have e: "route_lines E cl b d = route_lines E cl (drop n b) (route_line E cl (take n b) d)"
      using False by (subst route_lines.simps) (simp add: Let_def n_def)
    show ?thesis
      using "1.IH" [OF False n_def] route_line_keeps [of d E cl "take n b"] pool_tx_trans unfolding e by (metis (no_types, lifting))
  qed (simp add: route_lines.simps)
qed

lemma sys_inv_send:
  assumes "sys_inv s"
  shows "sys_inv (tcp_response_send E s)"
proof -
  obtain b f where b: "response_fifo_drain (tcp_fifo s) RESPONSE_FIFO_SIZE = (b, f)" by fastforce
  let ?d = "route_lines E (account_list s) b (core s)"
  note k = route_lines_keeps [of "core s" E "account_list s" b]
  have "dev_inv ?d" by (rule dev_inv_pool_tx [of "core s"]) (use assms k in \<open>simp_all add: sys_inv_def\<close>)
  with assms have "sys_inv (set_core ?d s)" by (rule sys_inv_core) (use k pool_tx_socks in blast)
  moreover have "fifo_inv f" using rf.drain_keeps [of "tcp_fifo s" RESPONSE_FIFO_SIZE] assms b by (simp add: sys_inv_def)
  ultimately show ?thesis by (simp add: tcp_response_send_def b sys_inv_def set_core_def)
qed

section \<open>Connections come and go\<close>

lemma dev_inv_pool:
  assumes "dev_inv d" "pool_inv p" "\<And>s. s \<in> set p \<Longrightarrow> s \<in> set (pool d) \<or> paired_index s < 0"
  shows "dev_inv (d \<lparr> pool := p \<rparr>)"
  using assms by (force simp: dev_inv_def list_all_iff session_agrees_def)

lemma set_remove_account:
  "distinct (account_list s) \<Longrightarrow> set (account_list (remove_account sk s)) = set (account_list s) - {sk} \<and>
   distinct (account_list (remove_account sk s)) \<and> length (account_list (remove_account sk s)) \<le> length (account_list s)"
proof (cases "index_of (\<lambda>a. a = sk) (account_list s)")
  case None
  then have "sk \<notin> set (account_list s)" by (auto simp: index_of_None)
  with None show "distinct (account_list s) \<Longrightarrow> ?thesis" by (simp add: remove_account_def)
next
  case (Some i)
  let ?l = "account_list s"
  have i: "i < length ?l" "?l ! i = sk" using index_of_SomeD [OF Some] by auto
  assume d: "distinct ?l"
  have "?l = take i ?l @ sk # drop (Suc i) ?l" using i id_take_nth_drop by metis
  moreover have "distinct (take i ?l @ sk # drop (Suc i) ?l)" using d calculation by simp
  ultimately have "set (del_at i ?l) = set ?l - {sk}" unfolding del_at_def
    by (metis (no_types, lifting) Diff_insert_absorb Un_insert_right distinct.simps(2) distinct_append list.simps(15) set_append
      Un_iff disjoint_insert(1) insert_Diff1 insert_disjoint(1))
  then show ?thesis using Some d i(1) by (simp add: remove_account_def distinct_del_at length_del_at)
qed

lemma remove_account_simps [simp]:
  "core (remove_account sk s) = core s" "tcp_fifo (remove_account sk s) = tcp_fifo s" "mqtt_fifo (remove_account sk s) = mqtt_fifo s"
  "response_id (remove_account sk s) = response_id s" "rx_buffer (remove_account sk s) = rx_buffer s"
  "pairing_step (remove_account sk s) = pairing_step s" "temp_ssid (remove_account sk s) = temp_ssid s"
  "temp_password (remove_account sk s) = temp_password s" "firmware_url (remove_account sk s) = firmware_url s"
  "released (remove_account sk s) = released s" "unregistered (remove_account sk s) = unregistered s"
  by (simp_all add: remove_account_def split: option.split)

lemma release_members: "s \<in> set (local_session_release sk p) \<Longrightarrow> s \<in> set p \<or> paired_index s < 0"
  by (auto simp: local_session_release_def split: option.splits dest!: set_update_subset_insert [THEN subsetD])

lemma acquire_members: "s \<in> set (snd (local_session_acquire sk ip p)) \<Longrightarrow> s \<in> set p \<or> paired_index s < 0"
  by (auto simp: local_session_acquire_def split: option.splits dest!: set_update_subset_insert [THEN subsetD])

lemma registry_okD:
  assumes "registry_ok a d r u"
  shows "distinct a" "length a \<le> 100" "distinct r" "distinct u" "x \<in> set a \<longleftrightarrow> x \<in> d \<or> x \<in> set r" "x \<in> d \<Longrightarrow> x \<notin> set r"
    "x \<in> set a \<Longrightarrow> x \<notin> set u"
  using assms by (auto simp: registry_ok_def)

lemma registry_okI:
  "distinct a \<Longrightarrow> length a \<le> 100 \<Longrightarrow> distinct r \<Longrightarrow> distinct u \<Longrightarrow> (\<And>x. x \<in> set a \<longleftrightarrow> x \<in> d \<or> x \<in> set r) \<Longrightarrow>
   (\<And>x. x \<in> d \<Longrightarrow> x \<notin> set r) \<Longrightarrow> (\<And>x. x \<in> set a \<Longrightarrow> x \<notin> set u) \<Longrightarrow> registry_ok a d r u"
  by (auto simp: registry_ok_def)

lemma registry_ok_add:
  "registry_ok a d r u \<Longrightarrow> x \<notin> set a \<Longrightarrow> x \<notin> set u \<Longrightarrow> length a < 100 \<Longrightarrow> registry_ok (a @ [x]) (insert x d) r u"
  by (auto simp: registry_ok_def)

lemma release_dev:
  assumes "dev_inv d" "0 \<le> sk"
  shows "dev_inv (d \<lparr> pool := local_session_release sk (pool d) \<rparr>)"
    "dom (sess (local_session_release sk (pool d))) = dom (sess (pool d)) - {sk}"
proof -
  have p: "pool_inv (local_session_release sk (pool d))" "sess (local_session_release sk (pool d)) = (sess (pool d))(sk := None)"
    using release_spec [OF dev_invD(1) [OF assms(1)] assms(2)] by auto
  show "dev_inv (d \<lparr> pool := local_session_release sk (pool d) \<rparr>)" by (rule dev_inv_pool [OF assms(1) p(1) release_members])
  show "dom (sess (local_session_release sk (pool d))) = dom (sess (pool d)) - {sk}" unfolding p(2) by auto
qed

lemma sess_nonneg: "sess p sk \<noteq> None \<Longrightarrow> 0 \<le> sk"
  by (auto simp: sess_def local_session_find_def split: if_splits)

text \<open>The three steps at the end of a receive task.\<close>

lemma sys_inv_release: "sys_inv s \<Longrightarrow> sess (pool (core s)) sk \<noteq> None \<Longrightarrow> sys_inv (recv_task_release sk s)"
proof -
  assume s: "sys_inv s" "sess (pool (core s)) sk \<noteq> None"
  have d: "dev_inv (core s)" "sk \<in> dom (sess (pool (core s)))" using s by (auto simp: sys_inv_def)
  have g: "registry_ok (account_list s) (dom (sess (pool (core s)))) (released s) (unregistered s)" using s(1) by (simp add: sys_inv_def)
  have "registry_ok (account_list s) (dom (sess (pool (core s))) - {sk}) (released s @ [sk]) (unregistered s)"
    by (rule registry_okI) (use registry_okD [OF g] d(2) in auto)
  with s(1) release_dev [OF d(1) sess_nonneg [OF s(2)]] show ?thesis by (simp add: sys_inv_def recv_task_release_def set_pool_def)
qed

lemma sys_inv_unregister: "sys_inv s \<Longrightarrow> sk \<in> set (released s) \<Longrightarrow> sys_inv (recv_task_unregister sk s)"
proof -
  assume s: "sys_inv s" "sk \<in> set (released s)"
  have g: "registry_ok (account_list s) (dom (sess (pool (core s)))) (released s) (unregistered s)" using s(1) by (simp add: sys_inv_def)
  note r = set_remove_account [of s sk, OF registry_okD(1) [OF g]]
  have "registry_ok (account_list (remove_account sk s)) (dom (sess (pool (core s)))) (remove1 sk (released s)) (unregistered s @ [sk])"
    by (rule registry_okI) (use r registry_okD [OF g] s(2) in \<open>auto intro: order_trans\<close>)
  with s(1) show ?thesis by (simp add: sys_inv_def recv_task_unregister_def)
qed

lemma sys_inv_close: "sys_inv s \<Longrightarrow> sys_inv (recv_task_close sk s)"
proof -
  assume s: "sys_inv s"
  then have g: "registry_ok (account_list s) (dom (sess (pool (core s)))) (released s) (unregistered s)" by (simp add: sys_inv_def)
  have "registry_ok (account_list s) (dom (sess (pool (core s)))) (released s) (remove1 sk (unregistered s))"
    by (rule registry_okI) (use registry_okD [OF g] in \<open>auto dest: notin_set_remove1\<close>)
  with s show ?thesis by (simp add: sys_inv_def recv_task_close_def close_socket_def)
qed

text \<open>Taking a socket out of the registry and the pool again whose connection could not be set up.\<close>

lemma sys_inv_drop:
  assumes "sys_inv s" "0 \<le> sk" "sk \<notin> set (account_list s)" "sk \<notin> set (unregistered s)" "length (account_list s) < 100"
    "dev_inv d" "dom (sess (pool d)) - {sk} = dom (sess (pool (core s)))"
  shows "sys_inv (close_socket sk (remove_account sk (set_pool (local_session_release sk (pool d)) (s \<lparr> core := d, account_list := account_list s @ [sk] \<rparr>))))"
proof -
  let ?s = "set_pool (local_session_release sk (pool d)) (s \<lparr> core := d, account_list := account_list s @ [sk] \<rparr>)"
  have g: "registry_ok (account_list s) (dom (sess (pool (core s)))) (released s) (unregistered s)" using assms(1) by (simp add: sys_inv_def)
  have a: "account_list ?s = account_list s @ [sk]" by (simp add: set_pool_def)
  have dist: "distinct (account_list ?s)" unfolding a using registry_okD(1) [OF g] assms(3) by simp
  note r = set_remove_account [OF dist, of sk, unfolded a] and dd = release_dev [OF assms(6,2)]
  have "set (account_list (remove_account sk ?s)) = set (account_list s)" using r assms(3) by simp
  then have "registry_ok (account_list (remove_account sk ?s)) (dom (sess (pool (core s)))) (released s) (unregistered s)"
    using registry_okD [OF g] r assms(5) by (intro registry_okI) auto
  with assms(1) dd show ?thesis unfolding assms(7) by (simp add: sys_inv_def close_socket_def) (simp add: set_pool_def)
qed

lemma sys_inv_shut: "sys_inv (s \<lparr> shut := x \<rparr>) = sys_inv s" "sys_inv (close_socket sk s) = sys_inv s"
  by (simp_all add: sys_inv_def close_socket_def)

lemma sys_inv_register:
  fixes s :: "('n, 'h, 'p) sys"
  assumes "sys_inv s" "0 \<le> sk" "sk \<notin> set (account_list s) \<union> set (unregistered s)"
  shows "sys_inv (let (ok, s) = add_account sk s in
          if \<not> ok then close_socket sk s
          else
            let (slot, p) = local_session_acquire sk peer (pool (core s)); s = set_pool p s in
            if slot = None then close_socket sk (remove_account sk s)
            else if \<not> task_ok then close_socket sk (remove_account sk (set_pool (local_session_release sk (pool (core s))) s))
            else s \<lparr> rx_buffer := (rx_buffer s)(sk := []) \<rparr>)"
proof (cases "length (account_list s) \<ge> 100")
  case True
  then show ?thesis using assms(1) by (simp add: add_account_def sys_inv_shut)
next
  case room: False
  obtain slot p where a: "local_session_acquire sk peer (pool (core s)) = (slot, p)" by fastforce
  define d where "d = (core s) \<lparr> pool := p \<rparr>"
  define s2 where "s2 = s \<lparr> core := d, account_list := account_list s @ [sk] \<rparr>"
  have g: "registry_ok (account_list s) (dom (sess (pool (core s)))) (released s) (unregistered s)" using assms(1) by (simp add: sys_inv_def)
  have none: "sess (pool (core s)) sk = None" using registry_okD(5) [OF g, of sk] assms(3) by auto
  have inv: "dev_inv (core s)" "pool_inv (pool (core s))" using assms(1) dev_invD(1) by (auto simp: sys_inv_def)
  have p: "pool_inv p" "dom (sess p) - {sk} = dom (sess (pool (core s)))" "slot = None \<Longrightarrow> p = pool (core s)" "slot \<noteq> None \<Longrightarrow> sk \<in> dom (sess p)"
    using acquire_spec [OF inv(2) assms(2) none, of peer] a inv(2) none by (cases slot; auto)+
  have d: "dev_inv d"
    unfolding d_def using inv p(1) acquire_members [of _ sk peer "pool (core s)"] a by (auto intro!: dev_inv_pool)
  have drop: "sys_inv (close_socket sk (remove_account sk (set_pool (local_session_release sk (pool d)) s2)))"
    unfolding s2_def by (rule sys_inv_drop [OF assms(1,2) _ _ _ d]) (use assms(3) room p(2) in \<open>auto simp: d_def\<close>)
  have same: "set_pool (local_session_release sk (pool d)) s2 = s2" if "slot = None"
  proof -
    have "index_of (\<lambda>s. sock s = sk) (pool (core s)) = None"
      using none assms(2) by (simp add: sess_def local_session_find_def)
    then show ?thesis using p(3) [OF that] by (simp add: local_session_release_def s2_def set_pool_def d_def)
  qed
  have keep: "sys_inv (s2 \<lparr> rx_buffer := (rx_buffer s2)(sk := []) \<rparr>)" if "slot \<noteq> None"
  proof -
    have "dom (sess p) = insert sk (dom (sess (pool (core s))))" using p(2) p(4) [OF that] by blast
    then have "registry_ok (account_list s @ [sk]) (dom (sess p)) (released s) (unregistered s)"
      using registry_ok_add [OF g] assms(3) room by simp
    with assms(1) d show ?thesis by (simp add: sys_inv_def s2_def d_def)
  qed
  have "add_account sk s = (True, s \<lparr> account_list := account_list s @ [sk] \<rparr>)"
    "set_pool p (s \<lparr> account_list := account_list s @ [sk] \<rparr>) = s2" "pool (core s2) = pool d"
    using room by (simp_all add: add_account_def set_pool_def s2_def d_def)
  then show ?thesis using a drop keep same by (cases slot) simp_all
qed

lemma sys_inv_accept:
  assumes "sys_inv s" "0 \<le> sk" "sk \<notin> set (account_list s) \<union> set (unregistered s)"
  shows "sys_inv (tcp_accept sk peer task_ok s)"
proof -
  have "sys_inv (s \<lparr> shut := x \<rparr>)" for x using assms(1) by (simp add: sys_inv_shut)
  from sys_inv_register [OF this assms(2), of x peer task_ok for x] this assms(3)
  show ?thesis unfolding tcp_accept_def by (simp add: Let_def case_prod_beta sys_inv_shut)
qed

section \<open>Lines keep the system well-formed\<close>

lemma fold_send_simps [simp]:
  "pool (fold (send sk) out d) = pool d" "plist (fold (send sk) out d) = plist d" "events (fold (send sk) out d) = events d"
  by (induction out arbitrary: d) simp_all

lemma sys_inv_reboot [simp]: "sys_inv (reboot_after_ms ms s) = sys_inv s"
  by (simp add: sys_inv_def reboot_after_ms_def)

lemma sys_inv_prov: "sys_inv s \<Longrightarrow> sys_inv (snd (provisioning_line E line sk s))"
proof -
  assume s: "sys_inv s"
  have "sys_inv (set_core (fold (send sk) out ((core s) \<lparr> prov := p, flash := n, draws := k \<rparr>)) s)" for out p n k
  proof (rule sys_inv_core [OF s])
    show "dev_inv (fold (send sk) out ((core s) \<lparr> prov := p, flash := n, draws := k \<rparr>))"
      by (rule dev_inv_same [of "core s"]) (use s in \<open>simp_all add: sys_inv_def\<close>)
  qed simp
  with s show ?thesis by (auto simp: provisioning_line_def Let_def split: option.split)
qed

lemma sys_inv_ota: "sys_inv s \<Longrightarrow> sys_inv (snd (ota_handle_line line sk s))"
  by (auto simp: ota_handle_line_def Let_def sys_inv_raw intro!: sys_inv_raw) (simp_all add: sys_inv_def)

lemma sys_inv_commit: "sys_inv s \<Longrightarrow> sys_inv (snd (pairing_commit A x y s))"
  by (auto simp: pairing_commit_def Let_def split: prod.split) (simp_all add: sys_inv_def)

lemma length_copy: "0 < n \<Longrightarrow> length (copy_pairing_value line p q n) < n"
  by (auto simp: copy_pairing_value_def Let_def)

lemma sys_inv_pairing: "sys_inv s \<Longrightarrow> sys_inv (snd (pairing_handle_line A c line sk s))"
proof -
  assume s: "sys_inv s"
  have "sys_inv (s \<lparr> pairing_step := 0 \<rparr>)" if "sys_inv s" for s :: "('c, 'b, 'a) sys" using that by (simp add: sys_inv_def)
  then have "sys_inv (pairing_done ((snd (pairing_commit A x y s)) \<lparr> pairing_step := 0 \<rparr>))" for x y
    using sys_inv_commit [OF s, of A x y] by (simp add: pairing_done_def sys_inv_def)
  then show ?thesis
    using s length_copy by (auto simp: pairing_handle_line_def Let_def intro!: sys_inv_raw) (simp_all add: sys_inv_def pairing_touch_def)
qed

section \<open>What a line does to the sessions\<close>

text \<open>
  How a session \<open>x\<close> may come to hold more rights than before, as \<open>y\<close>: by a password proof the SRP library
  verified, by an account proof equal to the device's own computation over both nonces with
  the account's key, or by enrolling an account with a line that arrived encrypted on a session that proved
  the password. \<open>l\<close> and \<open>l'\<close> are the paired list before and after, and \<open>line\<close> the line that was received.
\<close>

definition earned :: "('n, 'h) env \<Rightarrow> bytes \<Rightarrow> paired_list \<Rightarrow> paired_list \<Rightarrow> 'h local_session \<Rightarrow> 'h local_session \<Rightarrow> bool" where
  "earned E line l l' x y \<longleftrightarrow>
     memcmp_eq line ''PAKE3:'' \<and> ls_state x = LS_PAKE_WAIT_PROOF \<and>
       ls_state y = LS_PAKE_OK \<and> skey y = skey x \<and> ls_role y = ls_role x \<and> paired_index y = paired_index x \<and>
       (\<exists>h M1 M2. srp_ctx x = Some h \<and> decode_payload (cry E) line ''PAKE3:'' SRP_PROOF_LEN = Some M1 \<and>
          srp_exchange_proofs (srp E) h DEVICE_PW_SRP_IDENTITY M1 = (ESP_OK, M2)) \<or>
     memcmp_eq line ''AUTH3:'' \<and> ls_state x = LS_AUTH_WAIT_PROOF \<and>
       ls_state y = LS_AUTH_OK \<and> skey y = local_auth_hkdf32 (cry E) (skey x) (nonce_phone x @ nonce_dev x) LOCAL_AUTH_HKDF_INFO \<and>
       ls_role y = row_role l (paired_index x) \<and> paired_index y = paired_index x \<and>
       (\<exists>mac. decode_fields (cry E) line ''AUTH3:'' [33] = Some [mac] \<and> length mac = LOCAL_AUTH_MAC_LEN \<and>
          (\<forall>i < LOCAL_AUTH_MAC_LEN. mac ! i = hmac_sha256 (cry E) (skey x)
             (''phn'' @ take LOCAL_AUTH_NONCE_LEN (nonce_dev x) @ take LOCAL_AUTH_NONCE_LEN (nonce_phone x)) ! i)) \<or>
     memcmp_eq line ''ENROLL:'' \<and> ls_state x = LS_PAKE_OK \<and> rx_encrypted x \<and>
       ls_state y = LS_PAKE_OK \<and> skey y = skey x \<and> 0 \<le> paired_index y \<and>
       (\<exists>sub email key at n role key' n'. enroll_fields (cry E) line = Some (sub, email) \<and>
          paired_list_add_locked E sub email key at l n = (paired_index y, role, key', l', n') \<and>
          ls_role y = (if role = PAIRED_ROLE_OWNER then LS_ROLE_OWNER else LS_ROLE_USER))"

definition line_effect :: "('n, 'h) env \<Rightarrow> bytes \<Rightarrow> int \<Rightarrow> ('n, 'h) dev \<Rightarrow> ('n, 'h) dev \<Rightarrow> bool" where
  "line_effect E line sk d d' \<longleftrightarrow> calm (pool d) (pool d') \<or>
    (\<exists>k s'. local_session_find sk (pool d) = Some k \<and> sock s' = sock (slot_at k d) \<and> earned E line (plist d) (plist d') (slot_at k d) s' \<and>
       pool_tx ((pool d)[k := s']) (pool d'))"

lemma ct_equal_nth: "local_auth_ct_equal a b n \<longleftrightarrow> (\<forall>i < n. a ! i = b ! i)"
  by (auto simp: local_auth_ct_equal_def fold_or_zero xor_eq_0 word_of_byte_inj)

lemma earned_effect:
  "local_session_find sk (pool d) = Some k \<Longrightarrow> earned E line (plist d) (plist d') (slot_at k d) s' \<Longrightarrow> sock s' = sock (slot_at k d) \<Longrightarrow>
   pool_tx ((pool d)[k := s']) (pool d') \<Longrightarrow> line_effect E line sk d d'"
  by (auto simp: line_effect_def)

lemma effect_calm: "calm (pool d) (pool d') \<Longrightarrow> line_effect E line sk d d'"
  by (simp add: line_effect_def)

lemma pake_effect: "line_effect E line sk d (snd (pake_handle_line E line sk d))"
proof (cases "local_session_find sk (pool d)")
  case (Some k)
  then have k: "k < length (pool d)" by (auto dest: find_SomeD)
  have "line_effect E line sk d (handle_pake3 E k line d)" if p: "memcmp_eq line ''PAKE3:''"
    using pake_rights(2) [OF k, of E line]
  proof (elim disjE exE conjE)
    fix h M1 M2
    assume *: "ls_state (slot_at k d) = LS_PAKE_WAIT_PROOF" "srp_ctx (slot_at k d) = Some h"
      "decode_payload (cry E) line ''PAKE3:'' SRP_PROOF_LEN = Some M1" "srp_exchange_proofs (srp E) h DEVICE_PW_SRP_IDENTITY M1 = (ESP_OK, M2)"
    show "line_effect E line sk d (handle_pake3 E k line d)"
      if "pool_tx ((pool d)[k := (slot_at k d) \<lparr> srp_ctx := None, tx_ctr := 0, rx_ctr := 0, ls_state := LS_PAKE_OK \<rparr>])
           (pool (handle_pake3 E k line d))"
      by (rule earned_effect [OF Some _ _ that]) (simp_all add: earned_def * p)
  qed (rule effect_calm)
  with Some effect_calm [OF pake_rights(1) [OF k]] show ?thesis
    by (simp add: pake_handle_line_def Let_def effect_calm)
qed (simp add: pake_handle_line_def Let_def effect_calm calm_send_err)

lemma auth_effect: "line_effect E line sk d (snd (local_auth_handle_line E line sk d))"
proof (cases "local_session_find sk (pool d)")
  case (Some k)
  have "line_effect E line sk d (handle_auth3 E k line d)" if p: "memcmp_eq line ''AUTH3:''"
    using auth3_rights [of d E k line]
  proof (elim disjE exE conjE)
    fix mac
    assume *: "ls_state (slot_at k d) = LS_AUTH_WAIT_PROOF" "decode_fields (cry E) line ''AUTH3:'' [33] = Some [mac]" "length mac = LOCAL_AUTH_MAC_LEN"
      "local_auth_ct_equal mac (auth_proof (cry E) (skey (slot_at k d)) ''phn'' (nonce_dev (slot_at k d)) (nonce_phone (slot_at k d))) LOCAL_AUTH_MAC_LEN"
    show "line_effect E line sk d (handle_auth3 E k line d)"
      if "pool_tx ((pool d)[k := authenticated_session (cry E) (plist d) (slot_at k d)]) (pool (handle_auth3 E k line d))"
      by (rule earned_effect [OF Some _ _ that])
        (use *(4) in \<open>simp_all add: earned_def *(1-3) p ct_equal_nth auth_proof_def local_auth_hmac_def authenticated_session_def\<close>)
  qed (rule effect_calm)
  moreover have "line_effect E line sk d (handle_enroll E k line d)" if p: "memcmp_eq line ''ENROLL:''"
  proof (cases rule: enroll_cases [of d E k line])
    case (enrolled sub email i role key l n)
    have "earned E line (plist d) (plist (handle_enroll E k line d)) (slot_at k d) (enrolled i role (slot_at k d))"
      unfolding earned_def using p enrolled(1-5,7)
      by (intro disjI2 conjI exI [of _ sub] exI [of _ email] exI [of _ "fill_random (cry E) (draws d) 32"]
          exI [of _ "now_unix (wall d)"] exI [of _ "flash d"] exI [of _ role] exI [of _ key] exI [of _ n])
        (simp_all add: enrolled_def)
    then show ?thesis by (rule earned_effect [OF Some _ enrolled_sock enrolled(6)])
  qed (simp_all add: effect_calm pool_tx_calm)
  ultimately show ?thesis
    using Some by (simp add: local_auth_handle_line_def Let_def effect_calm [OF auth1_rights] effect_calm)
qed (simp add: local_auth_handle_line_def Let_def effect_calm calm_send_err)

lemma effect_socks: "line_effect E line sk d d' \<Longrightarrow> map sock (pool d') = map sock (pool d)"
  unfolding line_effect_def
proof (elim disjE exE conjE)
  fix k s' assume k: "local_session_find sk (pool d) = Some k" "sock s' = sock (slot_at k d)" "pool_tx ((pool d)[k := s']) (pool d')"
  then have "map sock (pool d') = (map sock (pool d))[k := sock (pool d ! k)]" using pool_tx_socks map_update by metis
  also have "\<dots> = map sock (pool d)" using find_SomeD [OF k(1)] by (intro list_update_same_conv [THEN iffD2]) auto
  finally show ?thesis .
qed (rule calm_socks)

section \<open>The dispatcher\<close>

lemma not_taken:
  "\<not> fst (pake_handle_line E line sk d) \<Longrightarrow> snd (pake_handle_line E line sk d) = d"
  "\<not> fst (local_auth_handle_line E line sk d) \<Longrightarrow> snd (local_auth_handle_line E line sk d) = d"
  "\<not> fst (owner_commands_handle_line E line sk d) \<Longrightarrow> snd (owner_commands_handle_line E line sk d) = d"
  "\<not> fst (provisioning_line E line sk s) \<Longrightarrow> snd (provisioning_line E line sk s) = s"
  "\<not> fst (ota_handle_line line sk s) \<Longrightarrow> snd (ota_handle_line line sk s) = s"
  "\<not> fst (pairing_handle_line A c line sk s) \<Longrightarrow> snd (pairing_handle_line A c line sk s) = s"
  by (auto simp: pake_handle_line_def local_auth_handle_line_def owner_commands_handle_line_def provisioning_line_def ota_handle_line_def
    pairing_handle_line_def Let_def split: option.splits if_splits)

lemma set_core_same [simp]: "set_core (core s) s = s" "core (set_core d s) = d"
  by (simp_all add: set_core_def)

text \<open>A handler that does not take a line leaves the system alone, so the chain is a choice.\<close>

lemma dispatch_eq:
  "tcp_dispatch_line E A app line sk s =
    (if \<not> fst (access_policy_allow E line sk (core s)) then set_core (snd (access_policy_allow E line sk (core s))) s
     else if fst (pake_handle_line E line sk (core s)) then set_core (snd (pake_handle_line E line sk (core s))) s
     else if fst (local_auth_handle_line E line sk (core s)) then set_core (snd (local_auth_handle_line E line sk (core s))) s
     else if fst (owner_commands_handle_line E line sk (core s)) then set_core (snd (owner_commands_handle_line E line sk (core s))) s
     else if fst (provisioning_line E line sk s) then snd (provisioning_line E line sk s)
     else if fst (ota_handle_line line sk s) then snd (ota_handle_line line sk s)
     else if fst (pairing_handle_line A (cfg E) line sk s) then snd (pairing_handle_line A (cfg E) line sk s)
     else snd (app_line app line sk s))"
  by (simp add: tcp_dispatch_line_def Let_def case_prod_beta allow_True not_taken)

lemma sys_inv_effect: "sys_inv s \<Longrightarrow> line_effect E line sk (core s) d \<Longrightarrow> dev_inv d \<Longrightarrow> sys_inv (set_core d s)"
  by (rule sys_inv_core) (simp_all add: effect_socks)

lemma sys_inv_dispatch:
  assumes "sys_inv s" "nvs_reliable (nvs E)" "cry_sized (cry E)"
  shows "sys_inv (tcp_dispatch_line E A app line sk s)"
proof -
  have d: "dev_inv (core s)" using assms(1) by (simp add: sys_inv_def)
  have "sys_inv (set_core (snd (access_policy_allow E line sk (core s))) s)"
    by (rule sys_inv_core [OF assms(1)]) (simp_all add: d dev_inv_allow)
  moreover have "sys_inv (set_core (snd (pake_handle_line E line sk (core s))) s)"
    by (rule sys_inv_effect [OF assms(1) pake_effect dev_inv_pake [OF d]])
  moreover have "sys_inv (set_core (snd (local_auth_handle_line E line sk (core s))) s)"
    by (rule sys_inv_effect [OF assms(1) auth_effect dev_inv_local_auth [OF d assms(3)]])
  moreover have "sys_inv (set_core (snd (owner_commands_handle_line E line sk (core s))) s)"
    by (rule sys_inv_effect [OF assms(1) effect_calm [OF owner_rights] dev_inv_owner [OF d assms(2,3)]])
  moreover have "sys_inv (snd (app_line app line sk s))"
    by (cases "app line sk") (simp add: app_line_def sys_inv_datas [OF assms(1)])
  ultimately show ?thesis
    using sys_inv_prov [OF assms(1)] sys_inv_ota [OF assms(1)] sys_inv_pairing [OF assms(1)] by (simp add: dispatch_eq)
qed

lemma data_core [simp]: "core (fold (\<lambda>(dst, data). send_data_to_clients dst data) out s) = core s"
  by (induction out arbitrary: s) (auto simp: send_data_to_clients_def update_response_id_def push_tcp_line_def Let_def)

lemma commit_core [simp]: "core (snd (pairing_commit A x y s)) = core s"
  by (auto simp: pairing_commit_def Let_def reboot_after_ms_def split: prod.split)

lemma tail_pool:
  "pool (core (snd (provisioning_line E line sk s))) = pool (core s)" "core (snd (ota_handle_line line sk s)) = core s"
  "core (snd (pairing_handle_line A c line sk s)) = core s" "core (snd (app_line app line sk s)) = core s"
  by (auto simp: provisioning_line_def ota_handle_line_def pairing_handle_line_def app_line_def Let_def reboot_after_ms_def case_prod_beta
    data_core [unfolded case_prod_beta] split: option.split)

lemma dispatch_effect: "line_effect E line sk (core s) (core (tcp_dispatch_line E A app line sk s))"
  by (simp add: dispatch_eq pake_effect auth_effect effect_calm owner_rights tail_pool)

section \<open>Steps\<close>

lemma length_recv_frame: "length rx < TCP_RECEIVE_DATA_LENGTH \<Longrightarrow> length (snd (recv_frame ev rx)) < TCP_RECEIVE_DATA_LENGTH"
  by (cases ev) (auto simp: Let_def)

lemma unwrap_calm: "calm (pool d) (pool (snd (enc_frame_unwrap E line sk d)))"
proof (cases rule: unwrap_cases [of line E sk d])
  case plain
  show ?thesis unfolding plain(3)
    by (cases "local_session_find sk (pool d)") (simp_all add: calm_update no_gain_def session_keyed_def)
next
  case (opened k nonce ct plain)
  show ?thesis by (simp add: opened calm_update no_gain_def session_keyed_def)
qed (simp add: send_plain_err_def)

lemma sys_inv_receive:
  assumes "sys_inv s" "nvs_reliable (nvs E)" "cry_sized (cry E)" "sess (pool (core s)) sk \<noteq> None"
  shows "sys_inv (recv_step E A app sk ev s)"
proof (cases "ev = Gone")
  case False
  obtain l rx where f: "recv_frame ev (rx_buffer s sk) = (l, rx)" by fastforce
  define s1 where "s1 = s \<lparr> rx_buffer := (rx_buffer s)(sk := rx) \<rparr>"
  have "length (rx_buffer s sk) < TCP_RECEIVE_DATA_LENGTH" using assms(1) by (simp add: sys_inv_def)
  from length_recv_frame [OF this, of ev] have s1: "sys_inv s1" using assms(1) by (simp add: sys_inv_def s1_def f)
  have u: "sys_inv (set_core (snd (enc_frame_unwrap E line sk (core s1))) s1)" for line
    by (rule sys_inv_core [OF s1 dev_inv_unwrap calm_socks [OF unwrap_calm]]) (use s1 in \<open>simp add: sys_inv_def\<close>)
  show ?thesis
  proof (cases l)
    case (Some line)
    obtain p d where p: "enc_frame_unwrap E line sk (core s1) = (p, d)" by fastforce
    have "recv_step E A app sk ev s = (case p of None \<Rightarrow> set_core d s1 | Some plain \<Rightarrow> tcp_dispatch_line E A app plain sk (set_core d s1))"
      using False Some p f by (cases p) (simp_all add: recv_step_def Let_def s1_def)
    then show ?thesis
      using u [of line] p by (cases p) (simp_all add: sys_inv_dispatch [OF _ assms(2,3)])
  qed (use s1 False in \<open>simp add: recv_step_def f s1_def\<close>)
qed (use sys_inv_release [OF assms(1,4)] in \<open>simp add: recv_step_def\<close>)

lemma sys_inv_progress: "sys_inv s \<Longrightarrow> sys_inv (ota_progress sk n p rs s)"
  by (induction sk n p rs s rule: ota_progress.induct) (simp_all add: Let_def sys_inv_raw)

lemma sys_inv_step:
  assumes "sys_step E A app s s'" "sys_inv s" "nvs_reliable (nvs E)" "cry_sized (cry E)"
  shows "sys_inv s'"
  using assms
proof (cases rule: sys_step.cases)
  case (mqtt_drain n)
  then show ?thesis using assms(2) by (simp add: sys_inv_def rf.drain_keeps)
next
  case (pass_time t w)
  have "dev_inv ((core s) \<lparr> now_us := t, wall := w \<rparr>)" for t w
    by (rule dev_inv_same [of "core s"]) (use assms(2) in \<open>simp_all add: sys_inv_def\<close>)
  then show ?thesis unfolding pass_time(1) by (intro sys_inv_core [OF assms(2)]) simp_all
next
  case (pairing_timeout)
  then show ?thesis using assms(2) by (simp add: sys_inv_def pairing_timeout_cb_def Let_def)
next
  case (update sk h)
  then show ?thesis using assms(2) by (simp add: ota_task_def Let_def sys_inv_raw sys_inv_progress)
qed (use assms in \<open>simp_all add: sys_inv_accept sys_inv_receive sys_inv_unregister sys_inv_close sys_inv_send sys_inv_data\<close>)

section \<open>Rights are earned\<close>

lemma earned_tx: "earned E line l l' x s' \<Longrightarrow> tx_only s' y \<Longrightarrow> earned E line l l' x y"
  by (simp add: earned_def tx_onlyD)

lemma find_socks: "map sock q = map sock p \<Longrightarrow> local_session_find sk q = local_session_find sk p"
  by (simp only: local_session_find_def index_of_sock)

lemma sess_calm:
  assumes "calm p q" "sess q sk = Some y"
  shows "\<exists>x. sess p sk = Some x \<and> no_gain x y"
proof -
  from assms(2) obtain k where k: "local_session_find sk q = Some k" "y = q ! k" by (auto simp: sess_def)
  have "local_session_find sk p = Some k" using k(1) find_socks [OF calm_socks [OF assms(1)]] by simp
  moreover from this have "k < length p" by (auto dest: find_SomeD)
  ultimately show ?thesis using calmD(2) [OF assms(1), of k] k(2) by (auto simp: sess_def)
qed

lemma effect_rights:
  assumes "line_effect E line sk d d'" "sess (pool d') sk' = Some y"
  shows "\<exists>x. sess (pool d) sk' = Some x \<and> (no_gain x y \<or> sk' = sk \<and> earned E line (plist d) (plist d') x y)"
proof (cases "calm (pool d) (pool d')")
  case False
  with assms(1) obtain k s' where k: "local_session_find sk (pool d) = Some k" "earned E line (plist d) (plist d') (slot_at k d) s'"
    "pool_tx ((pool d)[k := s']) (pool d')" by (auto simp: line_effect_def)
  from assms(2) obtain j where j: "local_session_find sk' (pool d') = Some j" "y = pool d' ! j" by (auto simp: sess_def)
  have f: "local_session_find sk' (pool d) = Some j" using j(1) find_socks [OF effect_socks [OF assms(1)]] by simp
  have l: "j < length (pool d)" "sock (pool d ! j) = sk'" "sock (pool d ! k) = sk" using find_SomeD [OF f] find_SomeD [OF k(1)] by auto
  have t: "tx_only ((pool d)[k := s'] ! j) y" using pool_txD(2) [OF k(3), of j] l(1) j(2) by simp
  show ?thesis
  proof (cases "j = k")
    case True
    with t l(1) have "earned E line (plist d) (plist d') (pool d ! j) y" using earned_tx [OF k(2)] by simp
    with f True l show ?thesis by (auto simp: sess_def)
  next
    case False
    with t have "no_gain (pool d ! j) y" using tx_only_no_gain by simp
    with f show ?thesis by (auto simp: sess_def)
  qed
qed (use sess_calm [OF _ assms(2)] in blast)

lemma unwrap_sess:
  fixes d :: "('n, 'h) dev"
  assumes "sess (pool (snd (enc_frame_unwrap E line sk d))) sk' = Some y"
  shows "\<exists>x c e. sess (pool d) sk' = Some x \<and> y = x \<lparr> rx_ctr := c, rx_encrypted := e \<rparr>"
proof -
  have idle: "\<exists>c e. x = x \<lparr> rx_ctr := c, rx_encrypted := e \<rparr>" for x :: "'h local_session"
    by (intro exI [of _ "rx_ctr x"] exI [of _ "rx_encrypted x"]) simp
  have plain: "\<exists>c e. x \<lparr> rx_encrypted := b \<rparr> = x \<lparr> rx_ctr := c, rx_encrypted := e \<rparr>" for x :: "'h local_session" and b
    by (intro exI [of _ "rx_ctr x"] exI [of _ b]) simp
  have upd: "\<exists>x c e. sess (pool d) sk' = Some x \<and> y = x \<lparr> rx_ctr := c, rx_encrypted := e \<rparr>"
    if k: "local_session_find sk (pool d) = Some k" and y: "sess ((pool d)[k := f (pool d ! k)]) sk' = Some y"
      and f: "\<And>x. sock (f x) = sock x" "\<And>x. \<exists>c e. f x = x \<lparr> rx_ctr := c, rx_encrypted := e \<rparr>" for f k
  proof -
    have l: "k < length (pool d)" using find_SomeD [OF k] by simp
    obtain j where j: "local_session_find sk' (pool d) = Some j" "y = (pool d)[k := f (pool d ! k)] ! j"
      using y find_update_same [OF l f(1)] by (auto simp: sess_def)
    then have "j < length (pool d)" by (auto dest: find_SomeD)
    with j f(2) [of "pool d ! k"] idle [of "pool d ! j"] l show ?thesis by (cases "j = k") (auto simp: sess_def)
  qed
  show ?thesis
  proof (cases rule: unwrap_cases [of line E sk d])
    case p: plain
    show ?thesis
    proof (cases "local_session_find sk (pool d)")
      case (Some k)
      show ?thesis by (rule upd [OF Some, of "\<lambda>s. s \<lparr> rx_encrypted := False \<rparr>"]) (use assms p(3) Some plain in simp_all)
    next
      case None
      then have "sess (pool d) sk' = Some y" using assms p(3) by simp
      then show ?thesis using idle [of y] by blast
    qed
  next
    case dropped
    then have "sess (pool d) sk' = Some y" using assms by (simp add: send_plain_err_def)
    then show ?thesis using idle [of y] by blast
  next
    case (opened k nonce ct plain)
    show ?thesis
      by (rule upd [OF opened(2), of "\<lambda>s. s \<lparr> rx_ctr := get_u64 (drop 4 nonce), rx_encrypted := True \<rparr>"]) (use assms opened in \<open>simp_all, blast\<close>)
  qed
qed

text \<open>
  A line is complete when its newline arrives, and then it is what the receive task has collected, after
  \<open>enc_frame_unwrap\<close> has opened it.
\<close>

lemma frame_complete: "recv_frame ev rx = (Some raw, rx') \<Longrightarrow> ev = Byte LF \<and> raw = rx"
  by (cases ev) (auto simp: Let_def split: if_splits)

lemma receive_rights:
  fixes s :: "('n, 'h, 'p) sys"
  assumes "sess (pool (core (recv_step E A app sk ev s))) sk' = Some y" "ev \<noteq> Gone"
  shows "\<exists>x. sess (pool (core s)) sk' = Some x \<and>
    (no_gain x y \<or> sk' = sk \<and> ev = Byte LF \<and>
      (\<exists>line d x1. enc_frame_unwrap E (rx_buffer s sk) sk (core s) = (Some line, d) \<and> sess (pool d) sk = Some x1 \<and>
         earned E line (plist (core s)) (plist (core (recv_step E A app sk ev s))) x1 y))"
proof -
  obtain l rx where f: "recv_frame ev (rx_buffer s sk) = (l, rx)" by fastforce
  show ?thesis
  proof (cases l)
    case None
    then show ?thesis using assms f by (auto simp: recv_step_def Let_def)
  next
    case (Some line)
    with f have ev: "ev = Byte LF" "line = rx_buffer s sk" using frame_complete by blast+
    obtain p d where u: "enc_frame_unwrap E line sk (core s) = (p, d)" by fastforce
    note us = unwrap_sess [of E line sk "core s", unfolded u snd_conv]
    have rx: "no_gain x (x \<lparr> rx_ctr := c, rx_encrypted := e \<rparr>)" for x :: "'h local_session" and c e
      by (simp add: no_gain_def session_keyed_def)
    have pl: "plist d = plist (core s)" by (cases rule: unwrap_cases [of line E sk "core s"]) (use u in \<open>auto simp: send_plain_err_def split: option.splits\<close>)
    show ?thesis
    proof (cases p)
      case None
      then have "sess (pool d) sk' = Some y" using assms f Some u by (simp add: recv_step_def Let_def)
      from us [OF this] rx show ?thesis by blast
    next
      case (Some plain)
      define s1 where "s1 = set_core d (s \<lparr> rx_buffer := (rx_buffer s)(sk := rx) \<rparr>)"
      have r: "core s1 = d" "recv_step E A app sk ev s = tcp_dispatch_line E A app plain sk s1"
        using assms(2) f Some \<open>l = Some line\<close> u by (simp_all add: recv_step_def Let_def s1_def)
      with dispatch_effect [of E plain sk s1 A app] assms(1)
      obtain x1 where x1: "sess (pool d) sk' = Some x1"
          "no_gain x1 y \<or> sk' = sk \<and> earned E plain (plist d) (plist (core (recv_step E A app sk ev s))) x1 y"
        using effect_rights [of E plain sk d _ sk' y] by metis
      from us [OF x1(1)] obtain x c e where x: "sess (pool (core s)) sk' = Some x" "x1 = x \<lparr> rx_ctr := c, rx_encrypted := e \<rparr>" by blast
      from x1(2) show ?thesis
      proof
        assume "no_gain x1 y"
        with x rx no_gain_trans show ?thesis by blast
      next
        assume "sk' = sk \<and> earned E plain (plist d) (plist (core (recv_step E A app sk ev s))) x1 y"
        with x x1(1) u Some ev show ?thesis unfolding pl by blast
      qed
    qed
  qed
qed

lemma sess_other:
  fixes p :: "'h pool"
  assumes "pool_inv p" "0 \<le> sk"
  shows "sess (local_session_release sk p) sk' = Some y \<Longrightarrow> sess p sk' = Some y"
    and "sess p sk = None \<Longrightarrow> sess (snd (local_session_acquire sk ip p)) sk' = Some y \<Longrightarrow> session_keyed y \<Longrightarrow> sess p sk' = Some y"
proof -
  show "sess (local_session_release sk p) sk' = Some y \<Longrightarrow> sess p sk' = Some y"
    using release_spec [OF assms] by (auto split: if_splits)
  assume *: "sess p sk = None" "sess (snd (local_session_acquire sk ip p)) sk' = Some y" "session_keyed y"
  define f :: "'h local_session" where "f = session_zero \<lparr> sock := sk, peer_ip := ip \<rparr>"
  have "\<not> session_keyed f" by (simp add: f_def session_keyed_def session_zero_def)
  with * acquire_spec [OF assms *(1), of ip, folded f_def] show "sess p sk' = Some y"
    by (auto split: if_splits prod.splits option.splits)
qed

lemma progress_core [simp]: "core (ota_progress k n p rs s) = core s"
  by (induction k n p rs s rule: ota_progress.induct) (simp_all add: Let_def)

lemma accept_pool:
  "\<exists>p. pool (core (tcp_accept sk peer task_ok s)) = p \<and>
    (p = pool (core s) \<or> p = snd (local_session_acquire sk peer (pool (core s))) \<or>
     p = local_session_release sk (snd (local_session_acquire sk peer (pool (core s)))))"
  by (simp add: tcp_accept_def Let_def case_prod_beta add_account_def close_socket_def set_pool_def)

lemma accept_rights:
  assumes "sys_inv s" "0 \<le> sk" "sk \<notin> set (account_list s) \<union> set (unregistered s)"
    "sess (pool (core (tcp_accept sk peer task_ok s))) sk' = Some y" "session_keyed y"
  shows "sess (pool (core s)) sk' = Some y"
proof -
  let ?p = "pool (core s)" and ?q = "snd (local_session_acquire sk peer (pool (core s)))"
  have p: "pool_inv ?p" and g: "registry_ok (account_list s) (dom (sess ?p)) (released s) (unregistered s)"
    using assms(1) dev_invD(1) by (auto simp: sys_inv_def)
  have none: "sess ?p sk = None" using registry_okD(5) [OF g, of sk] assms(3) by auto
  have q: "pool_inv ?q" using acquire_spec [OF p assms(2) none, of peer] p by (auto split: prod.splits option.splits)
  show ?thesis
    using accept_pool [of sk peer task_ok s] sess_other(2) [OF p assms(2) none, of peer sk' y] sess_other(1) [OF q assms(2), of sk' y] assms(4,5)
    by auto
qed

text \<open>
  C2. Whatever clients and peers do, the server's state stays well-formed, provided the flash takes every
  write (without that, a row can go from the paired list while the sessions still count it) and the
  cryptographic functions return what they are documented to. Starting from a well-formed state, after any
  connections, bytes from any peers with the lines they complete, sends, firmware updates, timeouts and ends of
  connections in any order, each turn of a task's loop taken as one step: the sessions, the paired list and the
  event queue are consistent with each other; the registry of clients holds exactly the sockets that own a
  session and those whose task has just released it, each once; a socket that left the registry is not in it
  again before it is closed; at most eight sockets own a session; and every buffer and index is within its array.
\<close>

theorem reachable_well_formed:
  assumes "reachable E A app s0 s" "sys_inv s0" "nvs_reliable (nvs E)" "cry_sized (cry E)"
  shows "sys_inv s \<and> card (dom (sess (pool (core s)))) \<le> LOCAL_SESSION_MAX"
proof -
  have s: "sys_inv s"
    using assms(1) by (induction rule: reachable.induct) (use assms(2-4) sys_inv_step in blast)+
  let ?p = "pool (core s)"
  have "dom (sess ?p) \<subseteq> sock ` set ?p" by (auto simp: sess_def dest!: find_SomeD)
  then have "card (dom (sess ?p)) \<le> card (sock ` set ?p)" by (intro card_mono) auto
  also have "\<dots> \<le> length ?p" using card_image_le [of "set ?p" sock] card_length [of ?p] by simp
  also have "\<dots> = LOCAL_SESSION_MAX" using s by (simp add: sys_inv_def dev_inv_def pool_inv_def)
  finally show ?thesis using s by simp
qed

lemma bench_sys_inv: "sys_inv bench_sys"
proof -
  have "sess (pool bench_dev) sk = None" for sk
    by (auto simp: sess_def local_session_find_def bench_dev_def local_session_init_def session_zero_def index_of_None)
  then have "dom (sess (pool bench_dev)) = {}" by auto
  then show ?thesis using bench_dev_inv response_fifo_init_inv by (simp add: sys_inv_def bench_sys_def registry_ok_def)
qed

lemma bench_accept: "sess (pool (core (tcp_accept 5 7 True bench_sys))) 5 \<noteq> None"
  by (simp add: tcp_accept_def bench_sys_def bench_dev_def local_session_count_def local_session_init_def session_zero_def add_account_def
    local_session_acquire_def set_pool_def sess_def local_session_find_def eval_nat_numeral)

theorem reachable_well_formed_witness:
  "sys_inv (recv_task_unregister 5 (recv_step (bench True) bench_part (\<lambda>line sk. (False, [])) 5 Gone (tcp_accept 5 7 True bench_sys)))"
proof -
  let ?app = "\<lambda>line sk. (False, [])" and ?s = "tcp_accept 5 7 True bench_sys"
  let ?t = "recv_step (bench True) bench_part ?app 5 Gone ?s"
  have 1: "reachable (bench True) bench_part ?app bench_sys ?s"
    by (rule reachable.step [OF reachable.start sys_step.accept]) (simp_all add: bench_sys_def)
  have 2: "reachable (bench True) bench_part ?app bench_sys ?t"
    by (rule reachable.step [OF 1 sys_step.receive [OF bench_accept]])
  have "5 \<in> set (released ?t)" by (simp add: recv_step_def recv_task_release_def)
  then have 3: "reachable (bench True) bench_part ?app bench_sys (recv_task_unregister 5 ?t)"
    by (rule reachable.step [OF 2 sys_step.unregister])
  have "nvs_reliable (nvs (bench True))" "cry_sized (cry (bench True))" by (simp_all add: flash_nvs_reliable bench_cry_sized)
  from reachable_well_formed [OF 3 bench_sys_inv this] show ?thesis by blast
qed

text \<open>
  C1. Rights are earned on one's own connection. If after some step of the server a socket's session
  holds a key, then the same session held that key before, in the same state and with the same role and
  account or none, or the step was the newline that completed a line on that very socket, and that line,
  opened if it came encrypted, is what earned it: a \<open>PAKE3\<close> whose proof the SRP library verified for the
  handshake this session is in, an \<open>AUTH3\<close> whose 32 bytes are the MAC of the session's own nonces under the
  account's key it waits with, after which the key is the one derived from both, or an \<open>ENROLL\<close> that
  arrived encrypted on a session that had proved the password, after which role and row are those
  \<open>paired_list_add\<close> gave the account named in the line. A line with its whole handling is one step.
\<close>

theorem rights_earned:
  assumes "sys_step E A app s s'" "sys_inv s" "sess (pool (core s')) sk = Some y" "session_keyed y"
  shows "\<exists>x. sess (pool (core s)) sk = Some x \<and>
    (no_gain x y \<or>
     s' = recv_step E A app sk (Byte LF) s \<and>
     (\<exists>line d x1. enc_frame_unwrap E (rx_buffer s sk) sk (core s) = (Some line, d) \<and> sess (pool d) sk = Some x1 \<and>
        earned E line (plist (core s)) (plist (core s')) x1 y))"
  using assms(1)
proof (cases rule: sys_step.cases)
  case (accept sk0 peer task_ok)
  then show ?thesis using accept_rights [OF assms(2) accept(2,3)] assms(3,4) by auto
next
  case (receive sk0 ev)
  show ?thesis
  proof (cases "ev = Gone")
    case True
    have "0 \<le> sk0" by (rule sess_nonneg [OF receive(2)])
    moreover have "pool_inv (pool (core s))" using assms(2) dev_invD(1) by (auto simp: sys_inv_def)
    ultimately have "sess (pool (core s)) sk = Some y"
      using sess_other(1) [of "pool (core s)" sk0 sk y] assms(3) receive(1) True
      by (simp add: recv_step_def recv_task_release_def set_pool_def)
    then show ?thesis by auto
  next
    case False
    from receive_rights [OF _ False, of E A app sk0 s sk y] assms(3) receive(1) show ?thesis by blast
  qed
next
  case (unregister sk0)
  then show ?thesis using assms(3) by (simp add: recv_task_unregister_def)
next
  case (close sk0)
  then show ?thesis using assms(3) by (simp add: recv_task_close_def close_socket_def)
next
  case send
  obtain b f where "response_fifo_drain (tcp_fifo s) RESPONSE_FIFO_SIZE = (b, f)" by fastforce
  then have "calm (pool (core s)) (pool (core s'))"
    using pool_tx_calm [OF conjunct1 [OF route_lines_keeps]] send by (simp add: tcp_response_send_def)
  from sess_calm [OF this assms(3)] show ?thesis by blast
next
  case (respond sk0 data)
  then have "core s' = core s" using data_core [of "[(sk0, data)]" s] by simp
  then show ?thesis using assms(3) by auto
next
  case (update sk0 h)
  have "core s' = core s" using update by (simp add: ota_task_def Let_def reboot_after_ms_def)
  then show ?thesis using assms(3) by auto
next
  case pairing_timeout
  then have "core s' = core s" by (simp add: pairing_timeout_cb_def Let_def)
  then show ?thesis using assms(3) by auto
qed (use assms(3) in auto)

text \<open>A session on socket 5 that waits for the phone's proof, the line with that proof received up to its newline.\<close>

definition bench_mac :: bytes where
  "bench_mac = auth_proof bench_crypto (replicate 32 CHR ''k'') ''phn'' (replicate 16 CHR ''d'') (replicate 16 CHR ''p'')"

definition bench_waiting :: "(flash, bench_srp, part_id \<Rightarrow> nat \<Rightarrow> byte) sys" where
  "bench_waiting = bench_sys \<lparr> account_list := [5], rx_buffer := (\<lambda>sk. [])(5 := phone_auth3 bench_crypto bench_mac),
     core := bench_dev \<lparr> plist := ann_list, pool := session_zero \<lparr> sock := 5, ls_state := LS_AUTH_WAIT_PROOF,
       skey := replicate 32 CHR ''k'', nonce_dev := replicate 16 CHR ''d'', nonce_phone := replicate 16 CHR ''p'',
       paired_index := 0 \<rparr> # replicate 7 session_zero \<rparr> \<rparr>"

lemma length_bench_mac: "length bench_mac = 32"
  using bench_cry_sized by (simp add: bench_mac_def auth_proof_def local_auth_hmac_def)

lemma bench_waiting_inv: "sys_inv bench_waiting"
proof -
  let ?d = "core bench_waiting"
  have p: "pool_inv (pool ?d)"
    by (simp add: pool_inv_def bench_waiting_def session_wf_def session_zero_def list_all_iff live_socks_def)
  obtain e where "paired_list_get ann_list 0 = Some e" using ann_row(2) by blast
  then have d: "dev_inv ?d"
    using p ann_list_ok by (simp add: dev_inv_def bench_waiting_def bench_dev_def session_agrees_def session_zero_def list_all_iff)
  have "sess (pool ?d) sk \<noteq> None \<longleftrightarrow> sk = 5" for sk
    by (auto simp: sess_def local_session_find_def bench_waiting_def session_zero_def index_of_None split: if_splits)
  then have "dom (sess (pool ?d)) = {5}" by (auto simp: dom_def)
  moreover have "length (phone_auth3 bench_crypto bench_mac) < TCP_RECEIVE_DATA_LENGTH"
    using length_bench_mac by (simp add: phone_auth3_def length_b64_encode [OF bench_base64_lawful])
  ultimately show ?thesis
    using d response_fifo_init_inv by (simp add: sys_inv_def registry_ok_def bench_waiting_def bench_sys_def)
qed

text \<open>The newline that completes the line authenticates the session.\<close>

lemma bench_waiting_login:
  "\<exists>y. sess (pool (core (recv_step (bench True) bench_part (\<lambda>line sk. (False, [])) 5 (Byte LF) bench_waiting))) 5 = Some y \<and>
     ls_state y = LS_AUTH_OK"
proof -
  let ?line = "phone_auth3 bench_crypto bench_mac" and ?app = "\<lambda>line sk. (False, [])"
  define d where "d = upd 0 (\<lambda>s. s \<lparr> rx_encrypted := False \<rparr>) (core bench_waiting)"
  define s1 where "s1 = set_core d (bench_waiting \<lparr> rx_buffer := (rx_buffer bench_waiting)(5 := []) \<rparr>)"
  define d1 where "d1 = snd (local_auth_handle_line (bench True) ?line 5 d)"
  have rx: "rx_buffer bench_waiting 5 = ?line" by (simp add: bench_waiting_def)
  have "length ?line < 5119"
    using length_bench_mac by (simp add: phone_auth3_def length_b64_encode [OF bench_base64_lawful])
  then have f: "recv_frame (Byte LF) ?line = (Some ?line, [])" by (simp add: Let_def)
  have find0: "local_session_find 5 (pool (core bench_waiting)) = Some 0"
    by (simp add: bench_waiting_def local_session_find_def session_zero_def)
  have "\<not> memcmp_eq ?line ''ENC:''" by (simp add: phone_auth3_def memcmp_eq_def)
  then have u: "enc_frame_unwrap (bench True) ?line 5 (core bench_waiting) = (Some ?line, d)"
    using find0 by (simp add: enc_frame_unwrap_def d_def)
  have step: "recv_step (bench True) bench_part ?app 5 (Byte LF) bench_waiting = tcp_dispatch_line (bench True) bench_part ?app ?line 5 s1"
    by (simp add: recv_step_def rx f u s1_def Let_def del: recv_frame.simps)
  have h: "fst (access_policy_allow (bench True) ?line 5 d)" "\<not> fst (pake_handle_line (bench True) ?line 5 d)"
    "fst (local_auth_handle_line (bench True) ?line 5 d)"
    by (simp_all add: access_policy_allow_def is_public_def is_handshake_def has_prefix_def pake_handle_line_def local_auth_handle_line_def
      phone_auth3_def memcmp_eq_def split: option.split)
  have c: "core (recv_step (bench True) bench_part ?app 5 (Byte LF) bench_waiting) = d1"
    unfolding step dispatch_eq using h by (simp add: s1_def d1_def)
  have d: "local_session_find 5 (pool d) = Some 0" "slot_at 0 d = session_zero \<lparr> sock := 5, ls_state := LS_AUTH_WAIT_PROOF,
       skey := replicate 32 CHR ''k'', nonce_dev := replicate 16 CHR ''d'', nonce_phone := replicate 16 CHR ''p'', paired_index := 0,
       rx_encrypted := False \<rparr>"
    by (simp_all add: d_def bench_waiting_def local_session_find_def session_zero_def)
  have "slot_at 0 d1 = authenticated_session bench_crypto (plist d) (slot_at 0 d)"
    using auth3_run(1) [of "bench True" 5 d 0 bench_mac] d bench_base64_lawful bench_cry_sized length_bench_mac
    by (simp add: d1_def bench_mac_def)
  moreover have "local_session_find 5 (pool d1) = Some 0"
    using find_socks [OF effect_socks [OF auth_effect]] d(1) unfolding d1_def by metis
  ultimately show ?thesis unfolding c by (simp add: sess_def authenticated_session_simps)
qed

theorem rights_earned_witness:
  "\<exists>y line d x1. sess (pool (core (recv_step (bench True) bench_part (\<lambda>line sk. (False, [])) 5 (Byte LF) bench_waiting))) 5 = Some y \<and>
     session_keyed y \<and> enc_frame_unwrap (bench True) (rx_buffer bench_waiting 5) 5 (core bench_waiting) = (Some line, d) \<and>
     sess (pool d) 5 = Some x1 \<and> ls_state x1 = LS_AUTH_WAIT_PROOF \<and> memcmp_eq line ''AUTH3:''"
proof -
  let ?s = "recv_step (bench True) bench_part (\<lambda>line sk. (False, [])) 5 (Byte LF) bench_waiting"
  obtain y where y: "sess (pool (core ?s)) 5 = Some y" "ls_state y = LS_AUTH_OK" using bench_waiting_login by blast
  have w: "\<exists>x. sess (pool (core bench_waiting)) 5 = Some x \<and> ls_state x = LS_AUTH_WAIT_PROOF"
    by (simp add: sess_def bench_waiting_def local_session_find_def session_zero_def)
  then have "sys_step (bench True) bench_part (\<lambda>line sk. (False, [])) bench_waiting ?s" by (intro sys_step.receive) auto
  from rights_earned [OF this bench_waiting_inv y(1)] y w show ?thesis
    by (auto simp: session_keyed_def no_gain_def earned_def)
qed

text \<open>
  C3. While a password is set, a line that is neither part of a handshake nor public is refused unless it
  arrived encrypted on an authenticated session: the device answers with one error line and
  nothing else of its state changes.
\<close>

theorem protected_lines:
  assumes "device_password_is_set (pw (core s))" "\<not> is_handshake line" "\<not> has_prefix line (cy_scan_command (cfg E))" "\<not> app_public E line"
    "\<not> (access_policy_sock_authenticated sk (pool (core s)) \<and>
       (\<exists>k. local_session_find sk (pool (core s)) = Some k \<and> rx_encrypted (slot_at k (core s))))"
  shows "tcp_dispatch_line E A app line sk s =
    set_core (send_plain sk (if access_policy_sock_authenticated sk (pool (core s)) then ''ERR:ENC'' else ''ERR:AUTH'') (core s)) s"
proof -
  have "access_policy_allow E line sk (core s) =
      (False, send_plain sk (if access_policy_sock_authenticated sk (pool (core s)) then ''ERR:ENC'' else ''ERR:AUTH'') (core s))"
    using assms by (auto simp: access_policy_allow_def is_public_def Let_def split: option.splits)
  then show ?thesis by (simp add: dispatch_eq)
qed

theorem protected_lines_witness:
  "wire (core (tcp_dispatch_line (bench True) bench_part (\<lambda>line sk. (False, [])) ''RESET'' 5
     (bench_sys \<lparr> core := bench_keyed \<lparr> pw := pw_zero \<lparr> s_salt := ''s'', s_verifier := ''v'' \<rparr> \<rparr> \<rparr>))) = [(5, ''ERR:AUTH'' @ [LF])]"
proof -
  let ?s = "bench_sys \<lparr> core := bench_keyed \<lparr> pw := pw_zero \<lparr> s_salt := ''s'', s_verifier := ''v'' \<rparr> \<rparr> \<rparr>"
  have a: "\<not> access_policy_sock_authenticated 5 (pool (core ?s))"
    by (simp add: access_policy_sock_authenticated_def) (simp add: bench_keyed_def session_zero_def)
  have "device_password_is_set (pw (core ?s))" "\<not> is_handshake ''RESET''" "\<not> has_prefix ''RESET'' (cy_scan_command (cfg (bench True)))"
    "\<not> app_public (bench True) ''RESET''"
    by (simp_all add: device_password_is_set_def is_handshake_def has_prefix_def memcmp_eq_def bench_def bench_cfg_def)
  from protected_lines [OF this, of 5 bench_part "\<lambda>line sk. (False, [])"] a
  show ?thesis by (simp add: send_plain_def send_def snprintf_buf_def)
qed

end
