(* ===== verification/Mqtt_State.thy ===== *)
theory Mqtt_State
  imports Prelude
begin

text \<open>
  The publish state engine of the MQTT client, \<open>coreMQTT/core_mqtt_state.c\<close>: two arrays of
  records (outgoing and incoming publishes of QoS 1 and 2), the state each publish is in, the
  transitions an acknowledgement may cause, and the resend cursors. An array is a list of its
  capacity; a record with packet id 0 is a free slot. Pointers the functions check for NULL are
  not modelled (the model has no NULL), so the branches that reject them are absent.

  Shown: the records in use form a queue (addition at the end, removal anywhere, compaction
  invisible); every call keeps ids unique and states consistent with the direction and the
  QoS; only the transitions of MQTT 3.1.1 happen; a QoS 2 publish is delivered once; resending
  visits exactly the unacknowledged publishes in order.
\<close>

section \<open>Types\<close>

datatype mqtt_status = MQTTSuccess | MQTTBadParameter | MQTTNoMemory | MQTTSendFailed | MQTTRecvFailed
  | MQTTBadResponse | MQTTServerRefused | MQTTNoDataAvailable | MQTTIllegalState | MQTTStateCollision
  | MQTTKeepAliveTimeout | MQTTNeedMoreBytes

datatype qos = MQTTQoS0 | MQTTQoS1 | MQTTQoS2

datatype pub_state = MQTTStateNull | MQTTPublishSend | MQTTPubAckSend | MQTTPubRecSend | MQTTPubRelSend
  | MQTTPubCompSend | MQTTPubAckPending | MQTTPubRecPending | MQTTPubRelPending | MQTTPubCompPending
  | MQTTPublishDone

datatype ack_type = MQTTPuback | MQTTPubrec | MQTTPubrel | MQTTPubcomp

datatype state_op = MQTT_SEND | MQTT_RECEIVE

record pub_rec =
  packet_id :: "16 word"
  rec_qos :: qos
  publish_state :: pub_state

record mqtt_ctx =
  outgoing :: "pub_rec list"
  incoming :: "pub_rec list"

abbreviation (input) MQTT_PACKET_ID_INVALID :: "16 word" where "MQTT_PACKET_ID_INVALID \<equiv> 0"

definition free_rec :: pub_rec where
  "free_rec = \<lparr> packet_id = MQTT_PACKET_ID_INVALID, rec_qos = MQTTQoS0, publish_state = MQTTStateNull \<rparr>"

section \<open>Transitions\<close>

fun validateTransitionPublish :: "pub_state \<Rightarrow> pub_state \<Rightarrow> state_op \<Rightarrow> qos \<Rightarrow> bool" where
  "validateTransitionPublish MQTTStateNull new op q =
     (op = MQTT_RECEIVE \<and> (new = MQTTPubAckSend \<or> new = MQTTPubRecSend))"
| "validateTransitionPublish MQTTPublishSend new op q =
     (case q of MQTTQoS1 \<Rightarrow> new = MQTTPubAckPending | MQTTQoS2 \<Rightarrow> new = MQTTPubRecPending | MQTTQoS0 \<Rightarrow> False)"
| "validateTransitionPublish MQTTPubAckPending new op q = (new = MQTTPubAckPending)"
| "validateTransitionPublish MQTTPubRecPending new op q = (new = MQTTPubRecPending)"
| "validateTransitionPublish _ new op q = False"

fun validateTransitionAck :: "pub_state \<Rightarrow> pub_state \<Rightarrow> bool" where
  "validateTransitionAck MQTTPubAckSend new = (new = MQTTPublishDone)"
| "validateTransitionAck MQTTPubAckPending new = (new = MQTTPublishDone)"
| "validateTransitionAck MQTTPubRecSend new = (new = MQTTPubRelPending)"
| "validateTransitionAck MQTTPubRelPending new = (new = MQTTPubCompSend \<or> new = MQTTPubRelPending)"
| "validateTransitionAck MQTTPubCompSend new = (new = MQTTPublishDone \<or> new = MQTTPubCompSend)"
| "validateTransitionAck MQTTPubRecPending new = (new = MQTTPubRelSend)"
| "validateTransitionAck MQTTPubRelSend new = (new = MQTTPubCompPending)"
| "validateTransitionAck MQTTPubCompPending new = (new = MQTTPublishDone \<or> new = MQTTPubCompPending)"
| "validateTransitionAck _ new = False"

definition isPublishOutgoing :: "ack_type \<Rightarrow> state_op \<Rightarrow> bool" where
  "isPublishOutgoing t op = (case t of MQTTPuback \<Rightarrow> op = MQTT_RECEIVE | MQTTPubrec \<Rightarrow> op = MQTT_RECEIVE
     | MQTTPubcomp \<Rightarrow> op = MQTT_RECEIVE | MQTTPubrel \<Rightarrow> op = MQTT_SEND)"

definition MQTT_CalculateStateAck :: "ack_type \<Rightarrow> state_op \<Rightarrow> qos \<Rightarrow> pub_state" where
  "MQTT_CalculateStateAck t op q =
    (let (qosValid, calculated) = (case t of
         MQTTPuback \<Rightarrow> (q = MQTTQoS1, MQTTPublishDone)
       | MQTTPubrec \<Rightarrow> (q = MQTTQoS2, if op = MQTT_SEND then MQTTPubRelPending else MQTTPubRelSend)
       | MQTTPubrel \<Rightarrow> (q = MQTTQoS2, if op = MQTT_SEND then MQTTPubCompPending else MQTTPubCompSend)
       | MQTTPubcomp \<Rightarrow> (q = MQTTQoS2, MQTTPublishDone))
     in if qosValid then calculated else MQTTStateNull)"

definition MQTT_CalculateStatePublish :: "state_op \<Rightarrow> qos \<Rightarrow> pub_state" where
  "MQTT_CalculateStatePublish op q = (case q of
     MQTTQoS0 \<Rightarrow> MQTTPublishDone
   | MQTTQoS1 \<Rightarrow> if op = MQTT_SEND then MQTTPubAckPending else MQTTPubAckSend
   | MQTTQoS2 \<Rightarrow> if op = MQTT_SEND then MQTTPubRecPending else MQTTPubRecSend)"

section \<open>Records\<close>

text \<open>\<open>findInRecord\<close>: the index (\<open>None\<close> for \<open>MQTT_INVALID_STATE_COUNT\<close>), the QoS and the state found.\<close>

definition findInRecord :: "pub_rec list \<Rightarrow> 16 word \<Rightarrow> nat option \<times> qos \<times> pub_state" where
  "findInRecord rs pid = (case index_of (\<lambda>r. packet_id r = pid) rs of
     Some i \<Rightarrow> (Some i, rec_qos (rs ! i), publish_state (rs ! i))
   | None \<Rightarrow> (None, MQTTQoS0, MQTTStateNull))"

function compact_loop :: "nat \<Rightarrow> nat option \<Rightarrow> pub_rec list \<Rightarrow> pub_rec list" where
  "compact_loop index slot rs =
    (if index < length rs then
       if packet_id (rs ! index) = MQTT_PACKET_ID_INVALID then
         compact_loop (index + 1) (case slot of None \<Rightarrow> Some index | Some e \<Rightarrow> Some e) rs
       else (case slot of
           None \<Rightarrow> compact_loop (index + 1) None rs
         | Some e \<Rightarrow> compact_loop (index + 1) (Some (e + 1)) (rs[e := rs ! index, index := free_rec]))
     else rs)"
  by pat_completeness auto
termination
  by (relation "measure (\<lambda>(i, e, rs). length rs - i)") auto

declare compact_loop.simps [simp del]

definition compactRecords :: "pub_rec list \<Rightarrow> pub_rec list" where
  "compactRecords rs = compact_loop 0 None rs"

text \<open>The downward scan of \<open>addRecord\<close>: \<open>i\<close> is one more than the C index.\<close>

fun add_scan :: "pub_rec list \<Rightarrow> 16 word \<Rightarrow> nat \<Rightarrow> nat \<Rightarrow> bool \<Rightarrow> mqtt_status \<times> nat" where
  "add_scan rs pid 0 available found = (MQTTNoMemory, available)"
| "add_scan rs pid (Suc i) available found =
    (if packet_id (rs ! i) = MQTT_PACKET_ID_INVALID then
       add_scan rs pid i (if \<not> found then i else available) found
     else if packet_id (rs ! i) = pid then (MQTTStateCollision, length rs)
     else add_scan rs pid i available True)"

definition addRecord :: "pub_rec list \<Rightarrow> 16 word \<Rightarrow> qos \<Rightarrow> pub_state \<Rightarrow> mqtt_status \<times> pub_rec list" where
  "addRecord rs0 pid q st =
    (let rs = (if packet_id (rs0 ! (length rs0 - 1)) \<noteq> MQTT_PACKET_ID_INVALID then compactRecords rs0 else rs0);
         (status, available) = add_scan rs pid (length rs) (length rs) False
     in if available < length rs
        then (MQTTSuccess, rs[available := \<lparr> packet_id = pid, rec_qos = q, publish_state = st \<rparr>])
        else (status, rs))"

definition updateRecord :: "pub_rec list \<Rightarrow> nat \<Rightarrow> pub_state \<Rightarrow> bool \<Rightarrow> pub_rec list" where
  "updateRecord rs i new shouldDelete =
    (if shouldDelete then rs[i := free_rec] else rs[i := (rs ! i) \<lparr> publish_state := new \<rparr>])"

definition updateStateAck ::
  "pub_rec list \<Rightarrow> nat \<Rightarrow> 16 word \<Rightarrow> pub_state \<Rightarrow> pub_state \<Rightarrow> mqtt_status \<times> pub_rec list" where
  "updateStateAck rs i pid current new =
    (let shouldDelete = (new = MQTTPublishDone \<or> new = MQTTPubRelSend) in
     if validateTransitionAck current new then
       if current \<noteq> new then
         let rs' = updateRecord rs i new shouldDelete in
         if new = MQTTPubRelSend then addRecord rs' pid MQTTQoS2 MQTTPubRelSend else (MQTTSuccess, rs')
       else (MQTTSuccess, rs)
     else (MQTTIllegalState, rs))"

text \<open>The record index is only used for a send, where the lookup has found it.\<close>

definition updateStatePublish ::
  "mqtt_ctx \<Rightarrow> nat option \<Rightarrow> 16 word \<Rightarrow> state_op \<Rightarrow> qos \<Rightarrow> pub_state \<Rightarrow> pub_state \<Rightarrow> mqtt_status \<times> mqtt_ctx" where
  "updateStatePublish c i pid op q current new =
    (if validateTransitionPublish current new op q then
       if op = MQTT_RECEIVE then
         let (status, rs) = addRecord (incoming c) pid q new in (status, c \<lparr> incoming := rs \<rparr>)
       else if current \<noteq> new then
         (MQTTSuccess, c \<lparr> outgoing := updateRecord (outgoing c) (the i) new False \<rparr>)
       else (MQTTSuccess, c)
     else (MQTTIllegalState, c))"

section \<open>The interface\<close>

definition MQTT_ReserveState :: "mqtt_ctx \<Rightarrow> 16 word \<Rightarrow> qos \<Rightarrow> mqtt_status \<times> mqtt_ctx" where
  "MQTT_ReserveState c pid q =
    (if q = MQTTQoS0 then (MQTTSuccess, c)
     else if pid = MQTT_PACKET_ID_INVALID then (MQTTBadParameter, c)
     else let (status, rs) = addRecord (outgoing c) pid q MQTTPublishSend in (status, c \<lparr> outgoing := rs \<rparr>))"

text \<open>The last component is what is stored through \<open>pNewState\<close>, if anything.\<close>

definition MQTT_UpdateStatePublish ::
  "mqtt_ctx \<Rightarrow> 16 word \<Rightarrow> state_op \<Rightarrow> qos \<Rightarrow> mqtt_status \<times> mqtt_ctx \<times> pub_state option" where
  "MQTT_UpdateStatePublish c pid op q =
    (if q = MQTTQoS0 then (MQTTSuccess, c, Some MQTTPublishDone)
     else if pid = MQTT_PACKET_ID_INVALID then (MQTTBadParameter, c, None)
     else let (i, foundQoS, current) =
            (if op = MQTT_SEND then findInRecord (outgoing c) pid else (None, MQTTQoS0, MQTTStateNull)) in
       if op = MQTT_SEND \<and> (i = None \<or> foundQoS \<noteq> q) then (MQTTBadParameter, c, None)
       else let new = MQTT_CalculateStatePublish op q;
                (status, c') = updateStatePublish c i pid op q current new
            in (status, c', if status = MQTTSuccess then Some new else None))"

definition MQTT_RemoveStateRecord :: "mqtt_ctx \<Rightarrow> 16 word \<Rightarrow> mqtt_status \<times> mqtt_ctx" where
  "MQTT_RemoveStateRecord c pid =
    (let (i, q, current) = findInRecord (outgoing c) pid in
     if current = MQTTStateNull then (MQTTBadParameter, c)
     else if q \<noteq> MQTTQoS1 \<and> q \<noteq> MQTTQoS2 then (MQTTBadParameter, c)
     else (MQTTSuccess, c \<lparr> outgoing := updateRecord (outgoing c) (the i) MQTTStateNull True \<rparr>))"

definition MQTT_UpdateStateAck ::
  "mqtt_ctx \<Rightarrow> 16 word \<Rightarrow> ack_type \<Rightarrow> state_op \<Rightarrow> mqtt_status \<times> mqtt_ctx \<times> pub_state option" where
  "MQTT_UpdateStateAck c pid t op =
    (let isOut = isPublishOutgoing t op in
     if pid = MQTT_PACKET_ID_INVALID then (MQTTBadParameter, c, None)
     else let rs = (if isOut then outgoing c else incoming c);
              (i, q, current) = findInRecord rs pid in
       case i of
         None \<Rightarrow> (MQTTBadResponse, c, None)
       | Some k \<Rightarrow>
           let new = MQTT_CalculateStateAck t op q;
               (status, rs') = updateStateAck rs k pid current new
           in (status, if isOut then c \<lparr> outgoing := rs' \<rparr> else c \<lparr> incoming := rs' \<rparr>,
               if status = MQTTSuccess then Some new else None))"

section \<open>Resending\<close>

text \<open>The position of a state in the C enumeration, used as a bit of a 16-bit mask.\<close>

fun state_code :: "pub_state \<Rightarrow> nat" where
  "state_code MQTTStateNull = 0" | "state_code MQTTPublishSend = 1" | "state_code MQTTPubAckSend = 2"
| "state_code MQTTPubRecSend = 3" | "state_code MQTTPubRelSend = 4" | "state_code MQTTPubCompSend = 5"
| "state_code MQTTPubAckPending = 6" | "state_code MQTTPubRecPending = 7" | "state_code MQTTPubRelPending = 8"
| "state_code MQTTPubCompPending = 9" | "state_code MQTTPublishDone = 10"

definition UINT16_SET_BIT :: "16 word \<Rightarrow> nat \<Rightarrow> 16 word" where
  "UINT16_SET_BIT x p = or x (push_bit p 1)"

definition UINT16_CHECK_BIT :: "16 word \<Rightarrow> nat \<Rightarrow> bool" where
  "UINT16_CHECK_BIT x p \<longleftrightarrow> and x (push_bit p 1) = push_bit p 1"

text \<open>\<open>stateSelect\<close> returns the packet id (0 for none) and the advanced cursor.\<close>

function stateSelect :: "pub_rec list \<Rightarrow> 16 word \<Rightarrow> nat \<Rightarrow> 16 word \<times> nat" where
  "stateSelect rs searchStates cursor =
    (if cursor < length rs then
       if UINT16_CHECK_BIT searchStates (state_code (publish_state (rs ! cursor)))
       then (packet_id (rs ! cursor), cursor + 1)
       else stateSelect rs searchStates (cursor + 1)
     else (MQTT_PACKET_ID_INVALID, cursor))"
  by pat_completeness auto
termination
  by (relation "measure (\<lambda>(rs, s, c). length rs - c)") auto

declare stateSelect.simps [simp del]

definition MQTT_PubrelToResend :: "mqtt_ctx \<Rightarrow> nat \<Rightarrow> 16 word \<times> nat \<times> pub_state option" where
  "MQTT_PubrelToResend c cursor =
    (let s = UINT16_SET_BIT (UINT16_SET_BIT 0 (state_code MQTTPubCompPending)) (state_code MQTTPubRelSend);
         (pid, cursor') = stateSelect (outgoing c) s cursor
     in (pid, cursor', if pid \<noteq> MQTT_PACKET_ID_INVALID then Some MQTTPubRelSend else None))"

definition MQTT_PublishToResend :: "mqtt_ctx \<Rightarrow> nat \<Rightarrow> 16 word \<times> nat" where
  "MQTT_PublishToResend c cursor =
    (let s = UINT16_SET_BIT (UINT16_SET_BIT (UINT16_SET_BIT 0 (state_code MQTTPublishSend))
           (state_code MQTTPubAckPending)) (state_code MQTTPubRecPending)
     in stateSelect (outgoing c) s cursor)"

fun MQTT_State_strerror :: "pub_state \<Rightarrow> bytes" where
  "MQTT_State_strerror MQTTStateNull = ''MQTTStateNull''"
| "MQTT_State_strerror MQTTPublishSend = ''MQTTPublishSend''"
| "MQTT_State_strerror MQTTPubAckSend = ''MQTTPubAckSend''"
| "MQTT_State_strerror MQTTPubRecSend = ''MQTTPubRecSend''"
| "MQTT_State_strerror MQTTPubRelSend = ''MQTTPubRelSend''"
| "MQTT_State_strerror MQTTPubCompSend = ''MQTTPubCompSend''"
| "MQTT_State_strerror MQTTPubAckPending = ''MQTTPubAckPending''"
| "MQTT_State_strerror MQTTPubRecPending = ''MQTTPubRecPending''"
| "MQTT_State_strerror MQTTPubRelPending = ''MQTTPubRelPending''"
| "MQTT_State_strerror MQTTPubCompPending = ''MQTTPubCompPending''"
| "MQTT_State_strerror MQTTPublishDone = ''MQTTPublishDone''"

section \<open>The queue behind an array of records\<close>

text \<open>The publishes in flight, in the order of the array.\<close>

definition in_flight :: "pub_rec list \<Rightarrow> pub_rec list" where
  "in_flight rs = filter (\<lambda>r. packet_id r \<noteq> 0) rs"

definition free_slots_ok :: "pub_rec list \<Rightarrow> bool" where
  "free_slots_ok rs \<longleftrightarrow> list_all (\<lambda>r. packet_id r = 0 \<longrightarrow> r = free_rec) rs"

definition ids :: "pub_rec list \<Rightarrow> 16 word list" where
  "ids rs = map packet_id (in_flight rs)"

lemma free_rec_id [simp]: "packet_id free_rec = 0"
  by (simp add: free_rec_def)

lemma in_flight_simps [simp]:
  "in_flight [] = []" "in_flight (r # rs) = (if packet_id r \<noteq> 0 then r # in_flight rs else in_flight rs)"
  "in_flight (xs @ ys) = in_flight xs @ in_flight ys" "in_flight (replicate n free_rec) = []"
  by (simp_all add: in_flight_def)

lemma in_flight_id: "list_all (\<lambda>r. packet_id r \<noteq> 0) xs \<Longrightarrow> in_flight xs = xs"
  by (simp add: in_flight_def filter_id_conv list_all_iff)

lemma in_flight_nonzero: "list_all (\<lambda>r. packet_id r \<noteq> 0) (in_flight rs)"
  by (simp add: in_flight_def list_all_iff)

lemma length_in_flight_le: "length (in_flight rs) \<le> length rs"
  by (simp add: in_flight_def)

lemma set_in_flight: "r \<in> set (in_flight rs) \<longleftrightarrow> r \<in> set rs \<and> packet_id r \<noteq> 0"
  by (simp add: in_flight_def)

lemma free_slots_ok_simps [simp]:
  "free_slots_ok []" "free_slots_ok (r # rs) \<longleftrightarrow> (packet_id r = 0 \<longrightarrow> r = free_rec) \<and> free_slots_ok rs"
  "free_slots_ok (xs @ ys) \<longleftrightarrow> free_slots_ok xs \<and> free_slots_ok ys" "free_slots_ok (replicate n free_rec)"
  by (simp_all add: free_slots_ok_def) (simp add: list_all_iff)

lemma free_slots_ok_in_flight [simp]: "free_slots_ok (in_flight rs)"
  by (simp add: free_slots_ok_def list_all_iff in_flight_def)

subsection \<open>Compaction\<close>

lemma compact_loop_stop: "length rs \<le> i \<Longrightarrow> compact_loop i e rs = rs"
  by (subst compact_loop.simps) simp

lemma compact_loop_free:
  "i < length rs \<Longrightarrow> packet_id (rs ! i) = 0 \<Longrightarrow>
    compact_loop i e rs = compact_loop (i + 1) (Some (case e of None \<Rightarrow> i | Some k \<Rightarrow> k)) rs"
  by (subst compact_loop.simps) (auto split: option.splits)

lemma compact_loop_used_None:
  "i < length rs \<Longrightarrow> packet_id (rs ! i) \<noteq> 0 \<Longrightarrow> compact_loop i None rs = compact_loop (i + 1) None rs"
  by (subst compact_loop.simps) simp

lemma compact_loop_used_Some:
  "i < length rs \<Longrightarrow> packet_id (rs ! i) \<noteq> 0 \<Longrightarrow>
    compact_loop i (Some e) rs = compact_loop (i + 1) (Some (e + 1)) (rs[e := rs ! i, i := free_rec])"
  by (subst compact_loop.simps) simp

lemma compact_loop_Some:
  assumes "free_slots_ok T"
  shows "compact_loop (length L + Suc k) (Some (length L)) (L @ replicate (Suc k) free_rec @ T) =
    L @ in_flight T @ replicate (Suc k + length T - length (in_flight T)) free_rec"
  using assms
proof (induction T arbitrary: L k)
  case Nil
  then show ?case by (simp add: compact_loop_stop)
next
  case (Cons t T)
  let ?rs = "L @ replicate (Suc k) free_rec @ t # T"
  let ?i = "length L + Suc k"
  have i: "?i < length ?rs" "?rs ! ?i = t" by (simp_all add: nth_append)
  show ?case
  proof (cases "packet_id t = 0")
    case True
    then have t: "t = free_rec" using Cons.prems by simp
    have rs: "?rs = L @ replicate (Suc (Suc k)) free_rec @ T"
      by (simp add: t replicate_app_Cons_same)
    have "compact_loop ?i (Some (length L)) ?rs = compact_loop (length L + Suc (Suc k)) (Some (length L)) ?rs"
      using i True by (simp add: compact_loop_free)
    also have "\<dots> = L @ in_flight T @ replicate (Suc (Suc k) + length T - length (in_flight T)) free_rec"
      unfolding rs using Cons.prems by (intro Cons.IH) simp
    finally show ?thesis using True by simp
  next
    case False
    have "?rs[length L := t, ?i := free_rec] = (L @ [t]) @ replicate (Suc k) free_rec @ T"
      by (simp add: list_update_append replicate_app_Cons_same)
    then have "compact_loop ?i (Some (length L)) ?rs =
        compact_loop (length (L @ [t]) + Suc k) (Some (length (L @ [t]))) ((L @ [t]) @ replicate (Suc k) free_rec @ T)"
      using i False by (simp add: compact_loop_used_Some)
    also have "\<dots> = (L @ [t]) @ in_flight T @ replicate (Suc k + length T - length (in_flight T)) free_rec"
      using Cons.prems by (intro Cons.IH) simp
    finally show ?thesis using False by simp
  qed
qed

lemma compact_loop_None:
  assumes "free_slots_ok T"
  shows "compact_loop (length L) None (L @ T) =
    L @ in_flight T @ replicate (length T - length (in_flight T)) free_rec"
  using assms
proof (induction T arbitrary: L)
  case Nil
  then show ?case by (simp add: compact_loop_stop)
next
  case (Cons t T)
  show ?case
  proof (cases "packet_id t = 0")
    case True
    then have t: "t = free_rec" using Cons.prems by simp
    have "compact_loop (length L) None (L @ t # T) =
        compact_loop (length L + Suc 0) (Some (length L)) (L @ replicate (Suc 0) free_rec @ T)"
      using True by (simp add: compact_loop_free t)
    also have "\<dots> = L @ in_flight T @ replicate (Suc 0 + length T - length (in_flight T)) free_rec"
      using Cons.prems by (intro compact_loop_Some) simp
    finally show ?thesis using True by simp
  next
    case False
    have "compact_loop (length L) None (L @ t # T) = compact_loop (length (L @ [t])) None ((L @ [t]) @ T)"
      using False by (simp add: compact_loop_used_None)
    also have "\<dots> = (L @ [t]) @ in_flight T @ replicate (length T - length (in_flight T)) free_rec"
      using Cons.prems by (intro Cons.IH) simp
    finally show ?thesis using False by simp
  qed
qed

lemma compactRecords_eq:
  "free_slots_ok rs \<Longrightarrow> compactRecords rs = in_flight rs @ replicate (length rs - length (in_flight rs)) free_rec"
  using compact_loop_None [of rs "[]"] by (simp add: compactRecords_def)

subsection \<open>Adding a record\<close>

lemma add_scan_found:
  "pid \<noteq> 0 \<Longrightarrow> i \<le> length rs \<Longrightarrow> add_scan rs pid i av True =
    (if pid \<in> packet_id ` set (take i rs) then (MQTTStateCollision, length rs) else (MQTTNoMemory, av))"
proof (induction i arbitrary: av)
  case (Suc i)
  then have "take (Suc i) rs = take i rs @ [rs ! i]" by (simp add: take_Suc_conv_app_nth)
  with Suc show ?case by auto
qed simp

lemma add_scan_trailing:
  assumes "pid \<noteq> 0" "A = [] \<or> packet_id (last A) \<noteq> 0" "rs = A @ replicate n free_rec" "k \<le> n" "av = length A + k \<or> k = n"
  shows "add_scan rs pid (length A + k) av False =
    (if pid \<in> packet_id ` set A then (MQTTStateCollision, length rs)
     else (MQTTNoMemory, if k = 0 then av else length A))"
  using assms(4,5)
proof (induction k arbitrary: av)
  case 0
  show ?case
  proof (cases A rule: rev_cases)
    case (snoc B a)
    have "rs ! length B = a" using assms(3) snoc by (simp add: nth_append)
    moreover have "take (length B) rs = B" using assms(3) snoc by simp
    ultimately show ?thesis
      using assms(1,2) snoc add_scan_found [of pid "length B" rs av] by (auto simp: assms(3))
  qed simp
next
  case (Suc k)
  then have "rs ! (length A + k) = free_rec" using assms(3) by (simp add: nth_append)
  then show ?case using Suc by (cases k) auto
qed

lemma trailing_split:
  assumes "free_slots_ok rs"
  obtains A n where "rs = A @ replicate n free_rec" "A = [] \<or> packet_id (last A) \<noteq> 0" "in_flight A = in_flight rs"
proof -
  have "\<exists>A n. rs = A @ replicate n free_rec \<and> (A = [] \<or> packet_id (last A) \<noteq> 0)"
    using assms
  proof (induction rs rule: rev_induct)
    case (snoc r rs)
    show ?case
    proof (cases "packet_id r = 0")
      case True
      with snoc obtain A n where "rs = A @ replicate n free_rec" "A = [] \<or> packet_id (last A) \<noteq> 0" "r = free_rec"
        by auto
      then show ?thesis by (intro exI [of _ A] exI [of _ "Suc n"]) (simp add: replicate_append_same)
    qed (intro exI [of _ "rs @ [r]"] exI [of _ 0], simp)
  qed (intro exI [of _ "[]"] exI [of _ 0], simp)
  with that show thesis by auto
qed

lemma list_update_trailing:
  "0 < n \<Longrightarrow> (A @ replicate n z)[length A := r] = (A @ [r]) @ replicate (n - 1) z"
  by (cases n) (simp_all add: list_update_append)

lemma scan_and_store:
  assumes "free_slots_ok rs" "pid \<noteq> 0" "packet_id r = pid"
    and res: "(case add_scan rs pid (length rs) (length rs) False of (st, av) \<Rightarrow>
        if av < length rs then (MQTTSuccess, rs[av := r]) else (st, rs)) = (status, rs')"
  shows "length rs' = length rs \<and> free_slots_ok rs' \<and>
    (if pid \<in> set (ids rs) then status = MQTTStateCollision \<and> rs' = rs
     else if packet_id (last rs) = 0 \<and> rs \<noteq> [] then status = MQTTSuccess \<and> in_flight rs' = in_flight rs @ [r]
     else status = MQTTNoMemory \<and> rs' = rs)"
proof -
  obtain A n where rs: "rs = A @ replicate n free_rec" and A: "A = [] \<or> packet_id (last A) \<noteq> 0"
    and inf: "in_flight A = in_flight rs"
    using trailing_split [OF assms(1)] .
  have scan: "add_scan rs pid (length rs) (length rs) False =
      (if pid \<in> packet_id ` set A then (MQTTStateCollision, length rs)
       else (MQTTNoMemory, if n = 0 then length rs else length A))"
    using add_scan_trailing [OF assms(2) A rs, of n "length rs"] by (simp add: rs)
  have mem: "pid \<in> set (ids rs) \<longleftrightarrow> pid \<in> packet_id ` set A"
    using assms(2) by (auto simp: ids_def inf [symmetric] set_in_flight)
  have last: "packet_id (last rs) = 0 \<and> rs \<noteq> [] \<longleftrightarrow> 0 < n"
    using A by (cases n) (auto simp: rs)
  show ?thesis
  proof (cases "pid \<in> packet_id ` set A")
    case True
    then have "pid \<in> set (ids rs)" using mem by blast
    moreover have "status = MQTTStateCollision" "rs' = rs" using res True by (simp_all add: scan)
    ultimately show ?thesis using assms(1) by simp
  next
    case False
    show ?thesis
    proof (cases "n = 0")
      case True
      have "pid \<notin> set (ids rs)" using mem False by blast
      moreover have "status = MQTTNoMemory" "rs' = rs" using res True False by (simp_all add: scan)
      ultimately show ?thesis using assms(1) last True by auto
    next
      case n: False
      have free: "free_slots_ok A" using assms(1) by (simp add: rs)
      have "rs' = (A @ [r]) @ replicate (n - 1) free_rec" "status = MQTTSuccess"
        using False n res scan list_update_trailing [of n A free_rec r] by (auto simp: rs)
      moreover have "pid \<notin> set (ids rs)" using mem False by blast
      ultimately show ?thesis using n last free assms(2,3) inf by (auto simp: rs)
    qed
  qed
qed

lemma addRecord_spec:
  assumes ok: "free_slots_ok rs" "rs \<noteq> []" "pid \<noteq> 0" and res: "addRecord rs pid q st = (status, rs')"
  shows "length rs' = length rs \<and> free_slots_ok rs' \<and>
    (if pid \<in> set (ids rs) then status = MQTTStateCollision \<and> in_flight rs' = in_flight rs
     else if length (in_flight rs) < length rs
       then status = MQTTSuccess \<and> in_flight rs' = in_flight rs @ [\<lparr> packet_id = pid, rec_qos = q, publish_state = st \<rparr>]
     else status = MQTTNoMemory \<and> in_flight rs' = in_flight rs)"
proof -
  let ?r = "\<lparr> packet_id = pid, rec_qos = q, publish_state = st \<rparr>"
  define rs1 where "rs1 = (if packet_id (rs ! (length rs - 1)) \<noteq> 0 then compactRecords rs else rs)"
  have c: "compactRecords rs = in_flight rs @ replicate (length rs - length (in_flight rs)) free_rec"
    by (rule compactRecords_eq [OF ok(1)])
  have same: "in_flight rs1 = in_flight rs" "length rs1 = length rs" "free_slots_ok rs1"
    using ok(1) length_in_flight_le [of rs] in_flight_id [OF in_flight_nonzero [of rs]] by (auto simp: rs1_def c)
  have room: "packet_id (last rs1) = 0 \<longleftrightarrow> length (in_flight rs) < length rs"
  proof (cases "packet_id (rs ! (length rs - 1)) = 0")
    case True
    then have "rs1 = rs" "packet_id (last rs) = 0" using ok(2) by (simp_all add: rs1_def last_conv_nth)
    moreover have "length (in_flight rs) < length rs"
      using True ok(2) by (simp add: in_flight_def) (intro length_filter_less [of "rs ! (length rs - 1)"], auto)
    ultimately show ?thesis by simp
  next
    case False
    then have rs1: "rs1 = in_flight rs @ replicate (length rs - length (in_flight rs)) free_rec"
      by (simp add: rs1_def c)
    show ?thesis
    proof (cases "length (in_flight rs) < length rs")
      case True
      then show ?thesis by (simp add: rs1 last_append)
    next
      case full: False
      then have "rs1 = in_flight rs" using length_in_flight_le [of rs] by (simp add: rs1)
      moreover have "in_flight rs \<noteq> []" using full ok(2) by auto
      then have "last (in_flight rs) \<in> set (in_flight rs)" by (rule last_in_set)
      ultimately have "packet_id (last rs1) \<noteq> 0"
        by (simp add: set_in_flight)
      with full show ?thesis by simp
    qed
  qed
  have "(case add_scan rs1 pid (length rs1) (length rs1) False of (st, av) \<Rightarrow>
        if av < length rs1 then (MQTTSuccess, rs1[av := ?r]) else (st, rs1)) = (status, rs')"
    using res unfolding addRecord_def rs1_def Let_def .
  from scan_and_store [OF same(3) ok(3) _ this]
  have st: "length rs' = length rs1" "free_slots_ok rs'"
    "if pid \<in> set (ids rs1) then status = MQTTStateCollision \<and> rs' = rs1
     else if packet_id (last rs1) = 0 \<and> rs1 \<noteq> [] then status = MQTTSuccess \<and> in_flight rs' = in_flight rs1 @ [?r]
     else status = MQTTNoMemory \<and> rs' = rs1"
    by simp_all
  have "ids rs1 = ids rs" by (simp add: ids_def same)
  moreover have "rs1 \<noteq> []" using same(2) ok(2) by (metis length_0_conv)
  ultimately show ?thesis
    using st same room by (cases "pid \<in> set (ids rs)"; cases "packet_id (last rs1) = 0") simp_all
qed

section \<open>Well-formed records\<close>

text \<open>The states a publish can be in, by direction and QoS.\<close>

definition out_ok :: "pub_rec \<Rightarrow> bool" where
  "out_ok r \<longleftrightarrow> (case rec_qos r of
     MQTTQoS0 \<Rightarrow> False
   | MQTTQoS1 \<Rightarrow> publish_state r \<in> {MQTTPublishSend, MQTTPubAckPending}
   | MQTTQoS2 \<Rightarrow> publish_state r \<in> {MQTTPublishSend, MQTTPubRecPending, MQTTPubRelSend, MQTTPubCompPending})"

definition in_ok :: "pub_rec \<Rightarrow> bool" where
  "in_ok r \<longleftrightarrow> (case rec_qos r of
     MQTTQoS0 \<Rightarrow> False
   | MQTTQoS1 \<Rightarrow> publish_state r = MQTTPubAckSend
   | MQTTQoS2 \<Rightarrow> publish_state r \<in> {MQTTPubRecSend, MQTTPubRelPending, MQTTPubCompSend})"

definition records_ok :: "(pub_rec \<Rightarrow> bool) \<Rightarrow> pub_rec list \<Rightarrow> bool" where
  "records_ok P rs \<longleftrightarrow> rs \<noteq> [] \<and> free_slots_ok rs \<and> distinct (ids rs) \<and> list_all P (in_flight rs)"

definition ctx_ok :: "mqtt_ctx \<Rightarrow> bool" where
  "ctx_ok c \<longleftrightarrow> records_ok out_ok (outgoing c) \<and> records_ok in_ok (incoming c)"

lemma records_okD:
  assumes "records_ok P rs"
  shows "rs \<noteq> []" "free_slots_ok rs" "distinct (ids rs)" "list_all P (in_flight rs)"
  using assms by (auto simp: records_ok_def)

lemma ids_simps [simp]: "ids [] = []" "ids (xs @ ys) = ids xs @ ids ys"
  "ids (r # rs) = (if packet_id r \<noteq> 0 then packet_id r # ids rs else ids rs)"
  by (simp_all add: ids_def)

lemma zero_notin_ids [simp]: "0 \<notin> set (ids rs)"
  by (auto simp: ids_def set_in_flight)

lemma findInRecord_cases:
  assumes "pid \<noteq> 0"
  obtains (none) "findInRecord rs pid = (None, MQTTQoS0, MQTTStateNull)" "pid \<notin> set (ids rs)"
  | (found) X r Y where "rs = X @ r # Y" "packet_id r = pid" "pid \<notin> set (ids X)"
      "findInRecord rs pid = (Some (length X), rec_qos r, publish_state r)" "pid \<in> set (ids rs)"
proof (cases "index_of (\<lambda>r. packet_id r = pid) rs")
  case None
  then have "pid \<notin> set (ids rs)" by (auto simp: index_of_None ids_def set_in_flight)
  with None show thesis by (intro none) (simp_all add: findInRecord_def)
next
  case (Some i)
  then have i: "i < length rs" "packet_id (rs ! i) = pid" "\<forall>j < i. packet_id (rs ! j) \<noteq> pid"
    by (auto simp: index_of_Some)
  have split: "rs = take i rs @ rs ! i # drop (Suc i) rs" using i(1) by (rule id_take_nth_drop)
  have len: "length (take i rs) = i" using i(1) by simp
  have "pid \<notin> packet_id ` set (take i rs)"
    using i(1,3) by (auto simp: in_set_conv_nth) metis
  then have "pid \<notin> set (ids (take i rs))" by (auto simp: ids_def set_in_flight)
  moreover have "pid \<in> set (ids rs)"
    using i assms by (auto simp: ids_def set_in_flight intro!: image_eqI [of _ _ "rs ! i"])
  ultimately show thesis
    using Some i split len by (intro found [of "take i rs" "rs ! i" "drop (Suc i) rs"]) (simp_all add: findInRecord_def)
qed

lemma update_split: "(X @ r # Y)[length X := r'] = X @ r' # Y"
  by (simp add: list_update_append)

text \<open>The queue operations an acknowledgement amounts to.\<close>

definition queue_ack :: "16 word \<Rightarrow> pub_state \<Rightarrow> pub_rec list \<Rightarrow> pub_rec list" where
  "queue_ack pid new q =
    (if new = MQTTPublishDone then filter (\<lambda>r. packet_id r \<noteq> pid) q
     else if new = MQTTPubRelSend
       then filter (\<lambda>r. packet_id r \<noteq> pid) q @ [\<lparr> packet_id = pid, rec_qos = MQTTQoS2, publish_state = MQTTPubRelSend \<rparr>]
     else map (\<lambda>r. if packet_id r = pid then r \<lparr> publish_state := new \<rparr> else r) q)"

lemma filter_other_id: "pid \<notin> set (ids xs) \<Longrightarrow> filter (\<lambda>r. packet_id r \<noteq> pid) (in_flight xs) = in_flight xs"
  by (simp add: filter_id_conv ids_def image_iff) metis

lemma map_other_id:
  "pid \<notin> set (ids xs) \<Longrightarrow> map (\<lambda>r. if packet_id r = pid then f r else r) (in_flight xs) = in_flight xs"
  by (rule map_idI) (auto simp: ids_def)

lemma updateStateAck_spec:
  assumes ok: "records_ok P rs" and pid: "pid \<noteq> 0"
    and rs: "rs = X @ r # Y" "packet_id r = pid"
    and res: "updateStateAck rs (length X) pid (publish_state r) new = (status, rs')"
  shows "length rs' = length rs \<and> free_slots_ok rs' \<and>
    (if validateTransitionAck (publish_state r) new
     then status = MQTTSuccess \<and>
       in_flight rs' = (if publish_state r = new then in_flight rs else queue_ack pid new (in_flight rs))
     else status = MQTTIllegalState \<and> rs' = rs)"
proof -
  have free: "free_slots_ok X" "free_slots_ok Y" and dist: "distinct (ids X @ pid # ids Y)"
    using records_okD [OF ok] rs pid by auto
  have out: "pid \<notin> set (ids X)" "pid \<notin> set (ids Y)" using dist by auto
  have q: "in_flight rs = in_flight X @ r # in_flight Y" using rs pid by simp
  note other = filter_other_id [OF out(1)] filter_other_id [OF out(2)]
  show ?thesis
  proof (cases "validateTransitionAck (publish_state r) new \<and> publish_state r \<noteq> new")
    case False
    then show ?thesis using res records_okD(2) [OF ok] by (auto simp: updateStateAck_def split: if_splits)
  next
    case True
    consider (del) "new = MQTTPublishDone" | (rel) "new = MQTTPubRelSend"
      | (upd) "new \<noteq> MQTTPublishDone" "new \<noteq> MQTTPubRelSend" by blast
    then show ?thesis
    proof cases
      case del
      then have "rs' = X @ free_rec # Y" "status = MQTTSuccess"
        using res True rs by (auto simp: updateStateAck_def updateRecord_def update_split)
      then show ?thesis using True del rs q free other by (simp add: queue_ack_def)
    next
      case rel
      let ?rs1 = "X @ free_rec # Y"
      have add: "addRecord ?rs1 pid MQTTQoS2 MQTTPubRelSend = (status, rs')"
        using res True rel rs by (simp add: updateStateAck_def updateRecord_def update_split)
      have "length (in_flight ?rs1) < length ?rs1"
        using length_in_flight_le [of X] length_in_flight_le [of Y] by simp
      with addRecord_spec [OF _ _ pid add] free out
      have "length rs' = length rs" "free_slots_ok rs'" "status = MQTTSuccess"
        "in_flight rs' = in_flight X @ in_flight Y @ [\<lparr> packet_id = pid, rec_qos = MQTTQoS2, publish_state = MQTTPubRelSend \<rparr>]"
        by (auto simp: rs)
      then show ?thesis using True rel rs q other by (simp add: queue_ack_def)
    next
      case upd
      then have "rs' = X @ r \<lparr> publish_state := new \<rparr> # Y" "status = MQTTSuccess"
        using res True rs by (auto simp: updateStateAck_def updateRecord_def update_split)
      then show ?thesis
        using True upd rs q free pid map_other_id [OF out(1)] map_other_id [OF out(2)] by (simp add: queue_ack_def)
    qed
  qed
qed

lemma queue_ack_ids:
  assumes "distinct (map packet_id q)" "pid \<in> packet_id ` set q"
  shows "distinct (map packet_id (queue_ack pid new q))"
proof -
  have "map packet_id (map (\<lambda>r. if packet_id r = pid then r \<lparr> publish_state := new \<rparr> else r) q) = map packet_id q"
    by simp
  moreover have "distinct (map packet_id (filter (\<lambda>r. packet_id r \<noteq> pid) q))"
    using assms(1) by (rule distinct_map_filter)
  moreover have "pid \<notin> set (map packet_id (filter (\<lambda>r. packet_id r \<noteq> pid) q))" by auto
  ultimately show ?thesis unfolding queue_ack_def using assms(1) by (simp only: split: if_split) simp
qed

lemma queue_ack_all:
  assumes "list_all P q" "\<And>r. r \<in> set q \<Longrightarrow> packet_id r = pid \<Longrightarrow> new \<noteq> MQTTPublishDone \<Longrightarrow> new \<noteq> MQTTPubRelSend \<Longrightarrow>
      P (r \<lparr> publish_state := new \<rparr>)"
    "new = MQTTPubRelSend \<Longrightarrow> P \<lparr> packet_id = pid, rec_qos = MQTTQoS2, publish_state = MQTTPubRelSend \<rparr>"
  shows "list_all P (queue_ack pid new q)"
  using assms by (auto simp: queue_ack_def list_all_iff)

section \<open>Every call keeps the records well formed\<close>

lemma addRecord_ok:
  assumes ok: "records_ok P rs" and pid: "pid \<noteq> 0" and new: "P \<lparr> packet_id = pid, rec_qos = q, publish_state = st \<rparr>"
    and res: "addRecord rs pid q st = (status, rs')"
  shows "records_ok P rs'"
proof -
  note d = records_okD [OF ok]
  have s: "length rs' = length rs" "free_slots_ok rs'" and
    "in_flight rs' = in_flight rs \<or> pid \<notin> set (ids rs) \<and>
       in_flight rs' = in_flight rs @ [\<lparr> packet_id = pid, rec_qos = q, publish_state = st \<rparr>]"
    using addRecord_spec [OF d(2,1) pid res] by (auto split: if_splits)
  moreover have "rs' \<noteq> []" using s(1) d(1) by auto
  ultimately show ?thesis
    using d(3,4) new by (auto simp: records_ok_def ids_def)
qed

lemma updateStateAck_ok:
  assumes ok: "records_ok P rs" and pid: "pid \<noteq> 0" and rs: "rs = X @ r # Y" "packet_id r = pid"
    and res: "updateStateAck rs (length X) pid (publish_state r) new = (status, rs')"
    and P: "validateTransitionAck (publish_state r) new \<Longrightarrow> publish_state r \<noteq> new \<Longrightarrow> new \<noteq> MQTTPublishDone \<Longrightarrow>
       P (if new = MQTTPubRelSend then \<lparr> packet_id = pid, rec_qos = MQTTQoS2, publish_state = MQTTPubRelSend \<rparr>
          else r \<lparr> publish_state := new \<rparr>)"
  shows "records_ok P rs'"
proof (cases "validateTransitionAck (publish_state r) new \<and> publish_state r \<noteq> new")
  case True
  note d = records_okD [OF ok] and s = updateStateAck_spec [OF ok pid rs res]
  have q: "in_flight rs' = queue_ack pid new (in_flight rs)" using s True by simp
  have m: "r \<in> set (in_flight rs)" using rs pid by simp
  have uniq: "r' = r" if "r' \<in> set (in_flight rs)" "packet_id r' = pid" for r'
    using that m rs(2) d(3) by (auto simp: ids_def distinct_map inj_on_def)
  have "distinct (ids rs')"
    using d(3) m rs(2) unfolding ids_def q by (intro queue_ack_ids) auto
  moreover have "list_all P (in_flight rs')"
    unfolding q using d(4) P True uniq by (intro queue_ack_all) auto
  moreover have "rs' \<noteq> []" using s d(1) by auto
  ultimately show ?thesis using s by (simp add: records_ok_def)
next
  case False
  then have "rs' = rs" using res by (auto simp: updateStateAck_def split: if_splits)
  with ok show ?thesis by simp
qed

lemma updateRecord_ok:
  assumes ok: "records_ok P rs" and rs: "rs = X @ r # Y" "packet_id r \<noteq> 0"
    and P: "\<not> del \<Longrightarrow> P (r \<lparr> publish_state := new \<rparr>)"
  shows "records_ok P (updateRecord rs (length X) new del)"
proof -
  note d = records_okD [OF ok]
  show ?thesis
    using d rs P by (cases del) (auto simp: records_ok_def updateRecord_def update_split)
qed

lemma out_ack_ok:
  assumes "out_ok r" "validateTransitionAck (publish_state r) new" "publish_state r \<noteq> new" "new \<noteq> MQTTPublishDone"
  shows "out_ok (if new = MQTTPubRelSend then \<lparr> packet_id = pid, rec_qos = MQTTQoS2, publish_state = MQTTPubRelSend \<rparr>
          else r \<lparr> publish_state := new \<rparr>)"
  using assms by (cases "rec_qos r"; cases "publish_state r") (auto simp: out_ok_def)

lemma in_ack_ok:
  assumes "in_ok r" "validateTransitionAck (publish_state r) new" "publish_state r \<noteq> new" "new \<noteq> MQTTPublishDone"
  shows "in_ok (if new = MQTTPubRelSend then \<lparr> packet_id = pid, rec_qos = MQTTQoS2, publish_state = MQTTPubRelSend \<rparr>
          else r \<lparr> publish_state := new \<rparr>)"
  using assms by (cases "rec_qos r"; cases "publish_state r") (auto simp: in_ok_def)

lemma records_ok_mem: "records_ok P rs \<Longrightarrow> rs = X @ r # Y \<Longrightarrow> packet_id r \<noteq> 0 \<Longrightarrow> P r"
  by (auto simp: records_ok_def)

text \<open>The calls of the interface, as operations on the context that report a status.\<close>

datatype mqtt_call = Reserve "16 word" qos | Publish "16 word" state_op qos
  | Ack "16 word" ack_type state_op | Remove "16 word"

fun mqtt_exec :: "mqtt_call \<Rightarrow> mqtt_ctx \<Rightarrow> mqtt_status \<times> mqtt_ctx" where
  "mqtt_exec (Reserve pid q) c = MQTT_ReserveState c pid q"
| "mqtt_exec (Publish pid op q) c = (let (st, c', new) = MQTT_UpdateStatePublish c pid op q in (st, c'))"
| "mqtt_exec (Ack pid t op) c = (let (st, c', new) = MQTT_UpdateStateAck c pid t op in (st, c'))"
| "mqtt_exec (Remove pid) c = (if pid = 0 then (MQTTBadParameter, c) else MQTT_RemoveStateRecord c pid)"

fun mqtt_run :: "mqtt_call list \<Rightarrow> mqtt_ctx \<Rightarrow> mqtt_ctx" where
  "mqtt_run [] c = c"
| "mqtt_run (a # as) c = mqtt_run as (snd (mqtt_exec a c))"

definition mqtt_init :: "nat \<Rightarrow> nat \<Rightarrow> mqtt_ctx" where
  "mqtt_init o_max i_max = \<lparr> outgoing = replicate o_max free_rec, incoming = replicate i_max free_rec \<rparr>"

lemma mqtt_init_ok: "0 < o_max \<Longrightarrow> 0 < i_max \<Longrightarrow> ctx_ok (mqtt_init o_max i_max)"
  by (simp add: ctx_ok_def mqtt_init_def records_ok_def ids_def)

lemma reserve_ok:
  assumes "ctx_ok c"
  shows "ctx_ok (snd (MQTT_ReserveState c pid q))"
proof (cases "q = MQTTQoS0 \<or> pid = 0")
  case False
  obtain st rs where r: "addRecord (outgoing c) pid q MQTTPublishSend = (st, rs)" by fastforce
  have "out_ok \<lparr> packet_id = pid, rec_qos = q, publish_state = MQTTPublishSend \<rparr>"
    using False by (cases q) (auto simp: out_ok_def)
  with addRecord_ok [where P = out_ok, OF _ _ _ r] assms False show ?thesis
    by (simp add: MQTT_ReserveState_def r ctx_ok_def)
qed (use assms in \<open>auto simp: MQTT_ReserveState_def\<close>)

lemma publish_receive:
  assumes "q \<noteq> MQTTQoS0" "pid \<noteq> 0" "addRecord (incoming c) pid q (MQTT_CalculateStatePublish MQTT_RECEIVE q) = (st, rs)"
  shows "MQTT_UpdateStatePublish c pid MQTT_RECEIVE q =
    (st, c \<lparr> incoming := rs \<rparr>, if st = MQTTSuccess then Some (MQTT_CalculateStatePublish MQTT_RECEIVE q) else None)"
proof -
  have "validateTransitionPublish MQTTStateNull (MQTT_CalculateStatePublish MQTT_RECEIVE q) MQTT_RECEIVE q"
    using assms(1) by (cases q) (simp_all add: MQTT_CalculateStatePublish_def)
  with assms show ?thesis by (simp add: MQTT_UpdateStatePublish_def updateStatePublish_def)
qed

lemma publish_send_unknown:
  assumes "q \<noteq> MQTTQoS0" "pid \<noteq> 0" "findInRecord (outgoing c) pid = (i, q', cur)" "i = None \<or> q' \<noteq> q"
  shows "MQTT_UpdateStatePublish c pid MQTT_SEND q = (MQTTBadParameter, c, None)"
  using assms by (simp add: MQTT_UpdateStatePublish_def)

lemma publish_send:
  assumes "q \<noteq> MQTTQoS0" "pid \<noteq> 0" "findInRecord (outgoing c) pid = (Some i, q, cur)"
  shows "MQTT_UpdateStatePublish c pid MQTT_SEND q =
    (if validateTransitionPublish cur (MQTT_CalculateStatePublish MQTT_SEND q) MQTT_SEND q
     then (MQTTSuccess,
       if cur = MQTT_CalculateStatePublish MQTT_SEND q then c
       else c \<lparr> outgoing := updateRecord (outgoing c) i (MQTT_CalculateStatePublish MQTT_SEND q) False \<rparr>,
       Some (MQTT_CalculateStatePublish MQTT_SEND q))
     else (MQTTIllegalState, c, None))"
  using assms by (auto simp: MQTT_UpdateStatePublish_def updateStatePublish_def Let_def)

lemma out_publish_ok:
  assumes "out_ok r" "rec_qos r = q"
  shows "out_ok (r \<lparr> publish_state := MQTT_CalculateStatePublish MQTT_SEND q \<rparr>)"
  using assms by (cases q) (simp_all add: out_ok_def MQTT_CalculateStatePublish_def)

lemma publish_ok:
  assumes "ctx_ok c"
  shows "ctx_ok (fst (snd (MQTT_UpdateStatePublish c pid op q)))"
proof (cases "q = MQTTQoS0 \<or> pid = 0")
  case False
  then have pid: "pid \<noteq> 0" and q: "q \<noteq> MQTTQoS0" by auto
  show ?thesis
  proof (cases op)
    case MQTT_RECEIVE
    obtain st rs where r: "addRecord (incoming c) pid q (MQTT_CalculateStatePublish MQTT_RECEIVE q) = (st, rs)" by fastforce
    have "in_ok \<lparr> packet_id = pid, rec_qos = q, publish_state = MQTT_CalculateStatePublish MQTT_RECEIVE q \<rparr>"
      using q by (cases q) (simp_all add: in_ok_def MQTT_CalculateStatePublish_def)
    from addRecord_ok [where P = in_ok, OF _ pid this r] assms have "records_ok in_ok rs" by (simp add: ctx_ok_def)
    with assms publish_receive [OF q pid r] MQTT_RECEIVE show ?thesis by (simp add: ctx_ok_def)
  next
    case MQTT_SEND
    from pid show ?thesis
    proof (cases rule: findInRecord_cases [where rs = "outgoing c"])
      case none
      then show ?thesis using assms MQTT_SEND publish_send_unknown [OF q pid none(1)] by simp
    next
      case (found X r Y)
      show ?thesis
      proof (cases "rec_qos r = q")
        case True
        let ?new = "MQTT_CalculateStatePublish MQTT_SEND q"
        have "out_ok r"
          using records_ok_mem [of out_ok "outgoing c" X r Y] assms found(1,2) pid by (simp add: ctx_ok_def)
        from out_publish_ok [OF this True] updateRecord_ok [of out_ok "outgoing c" X r Y False ?new] found(1,2) pid assms
        have "records_ok out_ok (updateRecord (outgoing c) (length X) ?new False)"
          by (simp add: ctx_ok_def)
        then show ?thesis
          using assms MQTT_SEND publish_send [OF q pid found(4) [unfolded True]] by (simp add: ctx_ok_def)
      next
        case False
        then show ?thesis using assms MQTT_SEND publish_send_unknown [OF q pid found(4)] by simp
      qed
    qed
  qed
qed (use assms in \<open>auto simp: MQTT_UpdateStatePublish_def\<close>)

lemma ack_ok:
  assumes "ctx_ok c"
  shows "ctx_ok (fst (snd (MQTT_UpdateStateAck c pid t op)))"
proof (cases "pid = 0")
  case False
  define rs where "rs = (if isPublishOutgoing t op then outgoing c else incoming c)"
  define P where "P = (if isPublishOutgoing t op then out_ok else in_ok)"
  have ok: "records_ok P rs" using assms by (auto simp: rs_def P_def ctx_ok_def)
  from False show ?thesis
  proof (cases rule: findInRecord_cases [where rs = rs])
    case none
    then show ?thesis using assms False by (simp add: MQTT_UpdateStateAck_def Let_def rs_def [symmetric])
  next
    case (found X r Y)
    have r: "P r" using records_ok_mem [OF ok found(1)] found(2) False by simp
    define new where "new = MQTT_CalculateStateAck t op (rec_qos r)"
    obtain st rs' where u: "updateStateAck rs (length X) pid (publish_state r) new = (st, rs')" by fastforce
    have "records_ok P rs'"
    proof (rule updateStateAck_ok [OF ok False found(1,2) u])
      assume "validateTransitionAck (publish_state r) new" "publish_state r \<noteq> new" "new \<noteq> MQTTPublishDone"
      then show "P (if new = MQTTPubRelSend then \<lparr> packet_id = pid, rec_qos = MQTTQoS2, publish_state = MQTTPubRelSend \<rparr>
          else r \<lparr> publish_state := new \<rparr>)"
        using r out_ack_ok [of r new pid] in_ack_ok [of r new pid] by (auto simp: P_def split: if_splits)
    qed
    moreover have "fst (snd (MQTT_UpdateStateAck c pid t op)) =
        (if isPublishOutgoing t op then c \<lparr> outgoing := rs' \<rparr> else c \<lparr> incoming := rs' \<rparr>)"
      using False found(4) u by (simp add: MQTT_UpdateStateAck_def Let_def rs_def [symmetric] new_def [symmetric])
    ultimately show ?thesis using assms by (auto simp: ctx_ok_def P_def)
  qed
qed (use assms in \<open>auto simp: MQTT_UpdateStateAck_def Let_def\<close>)

lemma remove_ok:
  assumes "ctx_ok c" "pid \<noteq> 0"
  shows "ctx_ok (snd (MQTT_RemoveStateRecord c pid))"
  using assms(2)
proof (cases rule: findInRecord_cases [where rs = "outgoing c"])
  case none
  then show ?thesis using assms by (simp add: MQTT_RemoveStateRecord_def)
next
  case (found X r Y)
  then have "records_ok out_ok (updateRecord (outgoing c) (length X) MQTTStateNull True)"
    using assms by (intro updateRecord_ok [of _ _ X r Y]) (auto simp: ctx_ok_def)
  then show ?thesis using assms found(4) by (auto simp: MQTT_RemoveStateRecord_def ctx_ok_def)
qed

lemma exec_ok: "ctx_ok c \<Longrightarrow> ctx_ok (snd (mqtt_exec a c))"
  using reserve_ok publish_ok ack_ok remove_ok by (cases a) (simp_all add: case_prod_beta)

lemma run_ok: "ctx_ok c \<Longrightarrow> ctx_ok (mqtt_run as c)"
  by (induction as arbitrary: c) (simp_all add: exec_ok)

section \<open>Resend cursors\<close>

lemma check_set_bit:
  "p < 16 \<Longrightarrow> UINT16_CHECK_BIT x p \<longleftrightarrow> bit x p"
proof -
  assume p: "p < 16"
  have "and x (push_bit p 1) = push_bit p 1 \<longleftrightarrow> bit x p"
  proof
    assume "and x (push_bit p 1) = push_bit p 1"
    then have "bit (and x (push_bit p 1)) p = bit (push_bit p (1 :: 16 word)) p" by simp
    then show "bit x p" using p by (simp add: bit_simps)
  next
    assume "bit x p"
    then show "and x (push_bit p 1) = push_bit p 1"
      by (intro bit_word_eqI) (auto simp: bit_simps)
  qed
  then show ?thesis by (simp add: UINT16_CHECK_BIT_def)
qed

lemma bit_set_bit: "p < 16 \<Longrightarrow> bit (UINT16_SET_BIT x p) i \<longleftrightarrow> bit x i \<or> i = p"
  by (auto simp: UINT16_SET_BIT_def bit_simps)

lemma state_code_lt: "state_code s < 16"
  by (cases s) simp_all

lemma state_code_inj [simp]: "state_code s = state_code t \<longleftrightarrow> s = t"
  by (cases s; cases t; simp)

lemma stateSelect_skip:
  "c < length rs \<Longrightarrow> \<not> UINT16_CHECK_BIT s (state_code (publish_state (rs ! c))) \<Longrightarrow>
    stateSelect rs s c = stateSelect rs s (c + 1)"
  by (subst stateSelect.simps) simp

lemma stateSelect_hit:
  "c < length rs \<Longrightarrow> UINT16_CHECK_BIT s (state_code (publish_state (rs ! c))) \<Longrightarrow>
    stateSelect rs s c = (packet_id (rs ! c), c + 1)"
  by (subst stateSelect.simps) simp

lemma stateSelect_end: "length rs \<le> c \<Longrightarrow> stateSelect rs s c = (0, c)"
  by (subst stateSelect.simps) simp

lemma stateSelect_result:
  "c \<le> length rs \<Longrightarrow> list_all (\<lambda>r. UINT16_CHECK_BIT s (state_code (publish_state r)) \<longrightarrow> packet_id r \<noteq> 0) rs \<Longrightarrow>
   (case filter (\<lambda>r. UINT16_CHECK_BIT s (state_code (publish_state r))) (drop c rs) of
      [] \<Rightarrow> stateSelect rs s c = (0, length rs)
    | r # _ \<Rightarrow> \<exists>k. c < k \<and> k \<le> length rs \<and> stateSelect rs s c = (packet_id r, k) \<and>
        filter (\<lambda>r. UINT16_CHECK_BIT s (state_code (publish_state r))) (drop c rs) =
          r # filter (\<lambda>r. UINT16_CHECK_BIT s (state_code (publish_state r))) (drop k rs))"
proof (induction "length rs - c" arbitrary: c)
  case 0
  then show ?case by (simp add: stateSelect_end)
next
  case (Suc n)
  then have c: "c < length rs" by simp
  have d: "drop c rs = rs ! c # drop (c + 1) rs" using c by (simp add: Cons_nth_drop_Suc)
  show ?case
  proof (cases "UINT16_CHECK_BIT s (state_code (publish_state (rs ! c)))")
    case True
    with c d show ?thesis by (simp add: stateSelect_hit)
  next
    case False
    have ih: "case filter (\<lambda>r. UINT16_CHECK_BIT s (state_code (publish_state r))) (drop (c + 1) rs) of
        [] \<Rightarrow> stateSelect rs s (c + 1) = (0, length rs)
      | r # _ \<Rightarrow> \<exists>k. c + 1 < k \<and> k \<le> length rs \<and> stateSelect rs s (c + 1) = (packet_id r, k) \<and>
        filter (\<lambda>r. UINT16_CHECK_BIT s (state_code (publish_state r))) (drop (c + 1) rs) =
          r # filter (\<lambda>r. UINT16_CHECK_BIT s (state_code (publish_state r))) (drop k rs)"
      using Suc by (intro Suc(1)) auto
    have f: "filter (\<lambda>r. UINT16_CHECK_BIT s (state_code (publish_state r))) (drop c rs) =
        filter (\<lambda>r. UINT16_CHECK_BIT s (state_code (publish_state r))) (drop (c + 1) rs)"
      using False d by simp
    show ?thesis
      unfolding f stateSelect_skip [OF c False] using ih
      by (auto split: list.splits)
  qed
qed

definition pubrel_mask :: "16 word" where
  "pubrel_mask = UINT16_SET_BIT (UINT16_SET_BIT 0 (state_code MQTTPubCompPending)) (state_code MQTTPubRelSend)"

definition publish_mask :: "16 word" where
  "publish_mask = UINT16_SET_BIT (UINT16_SET_BIT (UINT16_SET_BIT 0 (state_code MQTTPublishSend))
     (state_code MQTTPubAckPending)) (state_code MQTTPubRecPending)"

lemma pubrel_mask: "UINT16_CHECK_BIT pubrel_mask (state_code st) \<longleftrightarrow> st \<in> {MQTTPubCompPending, MQTTPubRelSend}"
  by (simp add: check_set_bit state_code_lt pubrel_mask_def bit_set_bit del: state_code.simps)

lemma publish_mask:
  "UINT16_CHECK_BIT publish_mask (state_code st) \<longleftrightarrow> st \<in> {MQTTPublishSend, MQTTPubAckPending, MQTTPubRecPending}"
  by (simp add: check_set_bit state_code_lt publish_mask_def bit_set_bit del: state_code.simps)

lemma stateSelect_advances:
  "fst (stateSelect rs s c) \<noteq> 0 \<Longrightarrow> c < snd (stateSelect rs s c) \<and> snd (stateSelect rs s c) \<le> length rs"
proof (induction rs s c rule: stateSelect.induct)
  case (1 rs s c)
  consider (over) "length rs \<le> c" | (hit) "c < length rs" "UINT16_CHECK_BIT s (state_code (publish_state (rs ! c)))"
    | (skip) "c < length rs" "\<not> UINT16_CHECK_BIT s (state_code (publish_state (rs ! c)))" by linarith
  then show ?case
  proof cases
    case skip
    then show ?thesis using 1 by (auto simp: stateSelect_skip)
  qed (use 1(2) in \<open>auto simp: stateSelect_end stateSelect_hit\<close>)
qed

text \<open>The loops that read a cursor until it reports no more packets.\<close>

function drain_cursor :: "pub_rec list \<Rightarrow> 16 word \<Rightarrow> nat \<Rightarrow> 16 word list" where
  "drain_cursor rs s cursor =
    (if fst (stateSelect rs s cursor) = 0 then []
     else fst (stateSelect rs s cursor) # drain_cursor rs s (snd (stateSelect rs s cursor)))"
  by pat_completeness auto
termination
  by (relation "measure (\<lambda>(rs, s, c). length rs - c)") (use stateSelect_advances in \<open>fastforce+\<close>)

declare drain_cursor.simps [simp del]

lemma drain_cursor_eq:
  assumes "list_all (\<lambda>r. UINT16_CHECK_BIT s (state_code (publish_state r)) \<longrightarrow> packet_id r \<noteq> 0) rs" "c \<le> length rs"
  shows "drain_cursor rs s c =
    map packet_id (filter (\<lambda>r. UINT16_CHECK_BIT s (state_code (publish_state r))) (drop c rs))"
  using assms(2)
proof (induction "length rs - c" arbitrary: c rule: less_induct)
  case less
  let ?f = "\<lambda>c. filter (\<lambda>r. UINT16_CHECK_BIT s (state_code (publish_state r))) (drop c rs)"
  note res = stateSelect_result [OF less(2) assms(1)]
  show ?case
  proof (cases "?f c")
    case Nil
    with res show ?thesis by (subst drain_cursor.simps) simp
  next
    case (Cons r rest)
    with res obtain k where k: "c < k" "k \<le> length rs" "stateSelect rs s c = (packet_id r, k)" "?f c = r # ?f k"
      by auto
    have "r \<in> set (?f c)" using Cons by simp
    then have "packet_id r \<noteq> 0" using assms(1) by (auto simp: list_all_iff dest: in_set_dropD)
    moreover have "drain_cursor rs s k = map packet_id (?f k)" using k by (intro less(1)) auto
    ultimately show ?thesis using k by (subst drain_cursor.simps) simp
  qed
qed

lemma resend_mask:
  assumes "records_ok out_ok rs"
    and "\<And>st. UINT16_CHECK_BIT s (state_code st) \<longleftrightarrow> st \<in> S" "MQTTStateNull \<notin> S"
  shows "drain_cursor rs s 0 = map packet_id (filter (\<lambda>r. publish_state r \<in> S) (in_flight rs))"
proof -
  have "list_all (\<lambda>r. UINT16_CHECK_BIT s (state_code (publish_state r)) \<longrightarrow> packet_id r \<noteq> 0) rs"
    using records_okD(2) [OF assms(1)] assms(2,3) by (auto simp: free_slots_ok_def list_all_iff free_rec_def)
  from drain_cursor_eq [OF this, of 0]
  have "drain_cursor rs s 0 = map packet_id (filter (\<lambda>r. publish_state r \<in> S) rs)"
    by (simp add: assms(2))
  also have "filter (\<lambda>r. publish_state r \<in> S) rs = filter (\<lambda>r. publish_state r \<in> S) (in_flight rs)"
    using records_okD(2) [OF assms(1)] assms(3)
    by (auto simp: in_flight_def free_slots_ok_def list_all_iff free_rec_def intro!: filter_cong)
  finally show ?thesis .
qed

lemma PubrelToResend_eq:
  "MQTT_PubrelToResend c cursor =
    (fst (stateSelect (outgoing c) pubrel_mask cursor), snd (stateSelect (outgoing c) pubrel_mask cursor),
     if fst (stateSelect (outgoing c) pubrel_mask cursor) \<noteq> 0 then Some MQTTPubRelSend else None)"
  by (simp add: MQTT_PubrelToResend_def pubrel_mask_def [symmetric] case_prod_beta Let_def del: state_code.simps)

lemma PublishToResend_eq: "MQTT_PublishToResend c cursor = stateSelect (outgoing c) publish_mask cursor"
  by (simp add: MQTT_PublishToResend_def publish_mask_def Let_def)

function pubrels_to_resend :: "mqtt_ctx \<Rightarrow> nat \<Rightarrow> 16 word list" where
  "pubrels_to_resend c cursor =
    (let (pid, cursor', state) = MQTT_PubrelToResend c cursor
     in if pid = 0 then [] else pid # pubrels_to_resend c cursor')"
  by pat_completeness auto
termination
  by (relation "measure (\<lambda>(c, cur). length (outgoing c) - cur)")
    (use stateSelect_advances in \<open>fastforce simp: PubrelToResend_eq\<close>)+

function publishes_to_resend :: "mqtt_ctx \<Rightarrow> nat \<Rightarrow> 16 word list" where
  "publishes_to_resend c cursor =
    (let (pid, cursor') = MQTT_PublishToResend c cursor
     in if pid = 0 then [] else pid # publishes_to_resend c cursor')"
  by pat_completeness auto
termination
proof (relation "measure (\<lambda>(c, cur). length (outgoing c) - cur)", goal_cases)
  case (2 c cursor x pid cursor')
  then show ?case using stateSelect_advances [of "outgoing c" publish_mask cursor]
    by (cases "stateSelect (outgoing c) publish_mask cursor") (auto simp: PublishToResend_eq)
qed simp

declare pubrels_to_resend.simps [simp del] publishes_to_resend.simps [simp del]

lemma pubrels_to_resend_eq: "pubrels_to_resend c cursor = drain_cursor (outgoing c) pubrel_mask cursor"
  by (induction c cursor rule: pubrels_to_resend.induct)
    (subst pubrels_to_resend.simps, subst drain_cursor.simps, simp add: PubrelToResend_eq)

lemma publishes_to_resend_eq: "publishes_to_resend c cursor = drain_cursor (outgoing c) publish_mask cursor"
proof (induction c cursor rule: publishes_to_resend.induct)
  case (1 c cursor)
  then show ?case
    by (subst publishes_to_resend.simps, subst drain_cursor.simps,
        cases "stateSelect (outgoing c) publish_mask cursor") (auto simp: PublishToResend_eq)
qed

lemma find_append_None: "find P xs = None \<Longrightarrow> find P (xs @ ys) = find P ys"
  by (induction xs) (auto split: if_splits)

lemma update_state_ack_spec:
  assumes "ctx_ok c" "pid \<noteq> 0"
  shows "case MQTT_UpdateStateAck c pid t op of (status, c', new) \<Rightarrow>
    let out = isPublishOutgoing t op;
        rs = (if out then outgoing c else incoming c);
        rs' = (if out then outgoing c' else incoming c')
    in (if out then incoming c' = incoming c else outgoing c' = outgoing c) \<and>
       (case find (\<lambda>r. packet_id r = pid) (in_flight rs) of
          None \<Rightarrow> status = MQTTBadResponse \<and> c' = c
        | Some r \<Rightarrow>
            let s' = MQTT_CalculateStateAck t op (rec_qos r) in
            if validateTransitionAck (publish_state r) s'
            then status = MQTTSuccess \<and> new = Some s' \<and>
              in_flight rs' = (if publish_state r = s' then in_flight rs else queue_ack pid s' (in_flight rs))
            else status = MQTTIllegalState \<and> c' = c)"
proof -
  define out where "out = isPublishOutgoing t op"
  define rs where "rs = (if out then outgoing c else incoming c)"
  define P where "P = (if out then out_ok else in_ok)"
  have ok: "records_ok P rs" using assms(1) by (auto simp: rs_def P_def ctx_ok_def)
  from assms(2) show ?thesis
  proof (cases rule: findInRecord_cases [where rs = rs])
    case none
    have "MQTT_UpdateStateAck c pid t op = (MQTTBadResponse, c, None)"
      using assms(2) none(1) by (simp add: MQTT_UpdateStateAck_def out_def [symmetric] rs_def [symmetric] Let_def)
    moreover have "find (\<lambda>r. packet_id r = pid) (in_flight rs) = None"
      using none(2) by (auto simp: find_None_iff ids_def)
    ultimately show ?thesis by (simp add: out_def [symmetric] rs_def [symmetric] Let_def)
  next
    case (found X r Y)
    define s' where "s' = MQTT_CalculateStateAck t op (rec_qos r)"
    obtain st rs' where u: "updateStateAck rs (length X) pid (publish_state r) s' = (st, rs')" by fastforce
    have call: "MQTT_UpdateStateAck c pid t op = (st, if out then c \<lparr> outgoing := rs' \<rparr> else c \<lparr> incoming := rs' \<rparr>,
        if st = MQTTSuccess then Some s' else None)"
      using assms(2) found(4) u
      by (simp add: MQTT_UpdateStateAck_def out_def [symmetric] rs_def [symmetric] s'_def [symmetric] Let_def)
    have f: "find (\<lambda>r. packet_id r = pid) (in_flight rs) = Some r"
    proof -
      have "find (\<lambda>r. packet_id r = pid) (in_flight X) = None"
        using found(3) by (auto simp: find_None_iff ids_def)
      then show ?thesis using found(1,2) assms(2) by (simp add: find_append_None)
    qed
    note s = updateStateAck_spec [OF ok assms(2) found(1,2) u]
    have same: "(if out then c \<lparr> outgoing := rs \<rparr> else c \<lparr> incoming := rs \<rparr>) = c" by (simp add: rs_def)
    show ?thesis
      unfolding call prod.case Let_def out_def [symmetric] rs_def [symmetric] f option.case s'_def [symmetric]
      using s same by (auto split: if_splits)
  qed
qed

section \<open>Properties\<close>

text \<open>
  C31. Whatever the sequence of calls, with whatever packet ids, acknowledgement types and
  outcomes, the records stay well formed: free slots are clean, no packet id occurs twice in a
  direction, and every publish is in a state its direction and QoS allow.
\<close>

theorem mqtt_records_invariant:
  assumes "0 < o_max" "0 < i_max"
  shows "ctx_ok (mqtt_run calls (mqtt_init o_max i_max))"
  by (rule run_ok [OF mqtt_init_ok [OF assms]])

theorem mqtt_records_invariant_witness:
  "ctx_ok (mqtt_run [Reserve 5 MQTTQoS2, Publish 5 MQTT_SEND MQTTQoS2, Ack 5 MQTTPubrec MQTT_RECEIVE]
     (mqtt_init 2 2)) \<and>
   in_flight (outgoing (mqtt_run [Reserve 5 MQTTQoS2, Publish 5 MQTT_SEND MQTTQoS2, Ack 5 MQTTPubrec MQTT_RECEIVE]
     (mqtt_init 2 2))) = [\<lparr> packet_id = 5, rec_qos = MQTTQoS2, publish_state = MQTTPubRelSend \<rparr>]"
  using mqtt_records_invariant [of 2 2 "[Reserve 5 MQTTQoS2, Publish 5 MQTT_SEND MQTTQoS2, Ack 5 MQTTPubrec MQTT_RECEIVE]"]
  by simp code_simp

text \<open>
  C34. \<open>compactRecords\<close> is a stable partition: the records in use move to the front in their
  order, everything after them is free. Adding a record behaves as a bounded queue: it is
  refused as a collision if the id is in use, refused for lack of memory only if every slot is in
  use, and otherwise appended behind all records in use, however the array is fragmented.
\<close>

theorem mqtt_add_record_queue:
  assumes "free_slots_ok rs" "rs \<noteq> []" "pid \<noteq> 0"
  shows "compactRecords rs = in_flight rs @ replicate (length rs - length (in_flight rs)) free_rec \<and>
    (case addRecord rs pid q st of (status, rs') \<Rightarrow>
       length rs' = length rs \<and> free_slots_ok rs' \<and>
       (if pid \<in> set (ids rs) then status = MQTTStateCollision \<and> in_flight rs' = in_flight rs
        else if length (in_flight rs) < length rs
          then status = MQTTSuccess \<and> in_flight rs' = in_flight rs @ [\<lparr> packet_id = pid, rec_qos = q, publish_state = st \<rparr>]
        else status = MQTTNoMemory \<and> in_flight rs' = in_flight rs))"
  using compactRecords_eq [OF assms(1)] addRecord_spec [OF assms, of q st] by (auto split: prod.split)

theorem mqtt_add_record_queue_witness:
  "map packet_id (compactRecords [free_rec, free_rec \<lparr> packet_id := 7 \<rparr>]) = [7, 0] \<and>
   map packet_id (snd (addRecord [free_rec, free_rec \<lparr> packet_id := 7 \<rparr>] 9 MQTTQoS1 MQTTPublishSend)) = [7, 9]"
  using mqtt_add_record_queue [of "[free_rec, free_rec \<lparr> packet_id := 7 \<rparr>]" 9 MQTTQoS1 MQTTPublishSend]
  by simp code_simp

text \<open>
  The delivery protocols of MQTT 3.1.1, section 4.3, as a table: the QoS of a publish, what is awaited
  for it, the acknowledgement that is sent or received, and what is awaited then. A row that stays where
  it is repeats a packet after a reconnection (section 4.4): PUBREL is sent again, or the peer sent its
  PUBLISH or PUBREL again. Whatever has no row violates the protocol.
\<close>

definition delivery_protocol :: "((qos \<times> pub_state \<times> ack_type \<times> state_op) \<times> pub_state) list" where
  "delivery_protocol =
    [((MQTTQoS1, MQTTPubAckPending, MQTTPuback, MQTT_RECEIVE), MQTTPublishDone),
     ((MQTTQoS2, MQTTPubRecPending, MQTTPubrec, MQTT_RECEIVE), MQTTPubRelSend),
     ((MQTTQoS2, MQTTPubRelSend, MQTTPubrel, MQTT_SEND), MQTTPubCompPending),
     ((MQTTQoS2, MQTTPubCompPending, MQTTPubrel, MQTT_SEND), MQTTPubCompPending),
     ((MQTTQoS2, MQTTPubCompPending, MQTTPubcomp, MQTT_RECEIVE), MQTTPublishDone),
     ((MQTTQoS1, MQTTPubAckSend, MQTTPuback, MQTT_SEND), MQTTPublishDone),
     ((MQTTQoS2, MQTTPubRecSend, MQTTPubrec, MQTT_SEND), MQTTPubRelPending),
     ((MQTTQoS2, MQTTPubRelPending, MQTTPubrec, MQTT_SEND), MQTTPubRelPending),
     ((MQTTQoS2, MQTTPubRelPending, MQTTPubrel, MQTT_RECEIVE), MQTTPubCompSend),
     ((MQTTQoS2, MQTTPubCompSend, MQTTPubrel, MQTT_RECEIVE), MQTTPubCompSend),
     ((MQTTQoS2, MQTTPubCompSend, MQTTPubcomp, MQTT_SEND), MQTTPublishDone)]"

text \<open>The sender of a publish receives PUBACK, PUBREC and PUBCOMP and sends PUBREL.\<close>

definition of_sender :: "(ack_type \<times> state_op) set" where
  "of_sender = {(MQTTPuback, MQTT_RECEIVE), (MQTTPubrec, MQTT_RECEIVE), (MQTTPubrel, MQTT_SEND), (MQTTPubcomp, MQTT_RECEIVE)}"

lemma outgoing_of_sender: "isPublishOutgoing t op \<longleftrightarrow> (t, op) \<in> of_sender"
  by (cases t; cases op) (simp_all add: isPublishOutgoing_def of_sender_def)

lemma ack_follows_protocol:
  assumes "if (t, op) \<in> of_sender then out_ok r else in_ok r"
  shows "map_of delivery_protocol (rec_qos r, publish_state r, t, op) =
    (if validateTransitionAck (publish_state r) (MQTT_CalculateStateAck t op (rec_qos r))
     then Some (MQTT_CalculateStateAck t op (rec_qos r)) else None)"
  using assms
  by (cases "rec_qos r"; cases "publish_state r"; cases t; cases op)
    (simp_all add: delivery_protocol_def of_sender_def out_ok_def in_ok_def MQTT_CalculateStateAck_def)

lemma queue_ack_same:
  assumes "distinct (map packet_id q)" "r \<in> set q" "packet_id r = pid" "validateTransitionAck (publish_state r) (publish_state r)"
  shows "queue_ack pid (publish_state r) q = q"
proof -
  have "map (\<lambda>x. if packet_id x = pid then x \<lparr> publish_state := publish_state r \<rparr> else x) q = q"
    using assms(1-3) by (intro map_idI) (auto simp: distinct_map inj_on_def)
  moreover have "publish_state r \<noteq> MQTTPublishDone" "publish_state r \<noteq> MQTTPubRelSend" using assms(4) by auto
  ultimately show ?thesis by (simp add: queue_ack_def)
qed

text \<open>
  C30. An acknowledgement does to the queue of publishes what MQTT 3.1.1 prescribes and nothing
  else, the protocol being the table \<open>delivery_protocol\<close>. The queue is the one of the publishes
  the device sent if the sender of a publish handles this acknowledgement, else the one of those it received;
  the other queue is untouched. If the id is unknown the call reports a bad response. If the
  protocol has no row for the publish and the acknowledgement nothing changes. Otherwise it succeeds with the state
  of the row: a final acknowledgement removes the publish, PUBREC received moves it
  behind all others (it never fails for lack of room), any other one updates its state in place.
\<close>

theorem mqtt_ack_refines_queue:
  assumes "ctx_ok c" "pid \<noteq> 0"
  shows "case MQTT_UpdateStateAck c pid t op of (status, c', new) \<Rightarrow>
    let out = ((t, op) \<in> of_sender);
        rs = (if out then outgoing c else incoming c);
        rs' = (if out then outgoing c' else incoming c')
    in (if out then incoming c' = incoming c else outgoing c' = outgoing c) \<and>
       (case find (\<lambda>r. packet_id r = pid) (in_flight rs) of
          None \<Rightarrow> status = MQTTBadResponse \<and> c' = c
        | Some r \<Rightarrow>
            (case map_of delivery_protocol (rec_qos r, publish_state r, t, op) of
               Some s' \<Rightarrow> status = MQTTSuccess \<and> new = Some s' \<and> in_flight rs' = queue_ack pid s' (in_flight rs)
             | None \<Rightarrow> status = MQTTIllegalState \<and> c' = c))"
proof -
  obtain status c' new where u: "MQTT_UpdateStateAck c pid t op = (status, c', new)" by (metis prod_cases3)
  define rs where "rs = (if (t, op) \<in> of_sender then outgoing c else incoming c)"
  note s = update_state_ack_spec [OF assms, of t op, unfolded u prod.case Let_def outgoing_of_sender rs_def [symmetric]]
  show ?thesis
  proof (cases "find (\<lambda>r. packet_id r = pid) (in_flight rs)")
    case None
    with s show ?thesis by (simp add: u rs_def [symmetric])
  next
    case (Some r)
    then have r: "r \<in> set (in_flight rs)" "packet_id r = pid" by (auto simp: find_Some_iff)
    have ok: "if (t, op) \<in> of_sender then out_ok r else in_ok r" "distinct (map packet_id (in_flight rs))"
      using assms(1) r(1) by (auto simp: rs_def ctx_ok_def records_ok_def list_all_iff ids_def)
    note p = ack_follows_protocol [OF ok(1)] and same = queue_ack_same [OF ok(2) r]
    show ?thesis
      using s same unfolding Some option.case u prod.case Let_def rs_def [symmetric] p
      by (auto split: if_splits)
  qed
qed

theorem mqtt_ack_refines_queue_witness:
  "let c = mqtt_run [Publish 4 MQTT_RECEIVE MQTTQoS2] (mqtt_init 1 1) in
   ctx_ok c \<and> fst (MQTT_UpdateStateAck c 4 MQTTPubrec MQTT_SEND) = MQTTSuccess \<and>
   map publish_state (in_flight (incoming (fst (snd (MQTT_UpdateStateAck c 4 MQTTPubrec MQTT_SEND))))) = [MQTTPubRelPending]"
proof -
  define c where "c = mqtt_run [Publish 4 MQTT_RECEIVE MQTTQoS2] (mqtt_init 1 1)"
  have ok: "ctx_ok c" unfolding c_def by (rule run_ok [OF mqtt_init_ok]) simp_all
  have i: "in_flight (incoming c) = [\<lparr> packet_id = 4, rec_qos = MQTTQoS2, publish_state = MQTTPubRecSend \<rparr>]"
    unfolding c_def by code_simp
  obtain status c' new where u: "MQTT_UpdateStateAck c 4 MQTTPubrec MQTT_SEND = (status, c', new)" by (metis prod_cases3)
  from mqtt_ack_refines_queue [OF ok, of 4 MQTTPubrec MQTT_SEND] show ?thesis
    unfolding c_def [symmetric] using ok
    by (simp add: u i of_sender_def delivery_protocol_def queue_ack_def Let_def)
qed

text \<open>An incoming QoS 2 publish with this packet id is being tracked.\<close>

definition holds_qos2 :: "16 word \<Rightarrow> mqtt_ctx \<Rightarrow> bool" where
  "holds_qos2 pid c \<longleftrightarrow> (\<exists>r \<in> set (in_flight (incoming c)). packet_id r = pid \<and> rec_qos r = MQTTQoS2)"

lemma holds_publish:
  assumes "ctx_ok c" "holds_qos2 pid c"
  shows "holds_qos2 pid (fst (snd (MQTT_UpdateStatePublish c p op q)))"
proof (cases "q = MQTTQoS0 \<or> p = 0")
  case False
  then have p: "p \<noteq> 0" "q \<noteq> MQTTQoS0" by auto
  show ?thesis
  proof (cases op)
    case MQTT_RECEIVE
    obtain st rs where r: "addRecord (incoming c) p q (MQTT_CalculateStatePublish MQTT_RECEIVE q) = (st, rs)" by fastforce
    have "incoming c \<noteq> []" "free_slots_ok (incoming c)" using assms(1) by (auto simp: ctx_ok_def records_ok_def)
    from addRecord_spec [OF this(2,1) p(1) r] have "set (in_flight (incoming c)) \<subseteq> set (in_flight rs)"
      by (auto split: if_splits)
    with assms(2) publish_receive [OF p(2,1) r] MQTT_RECEIVE show ?thesis by (auto simp: holds_qos2_def)
  next
    case MQTT_SEND
    have "incoming (fst (snd (MQTT_UpdateStatePublish c p MQTT_SEND q))) = incoming c"
      using p by (auto simp: MQTT_UpdateStatePublish_def updateStatePublish_def Let_def split: prod.splits if_splits)
    with assms(2) MQTT_SEND show ?thesis by (simp add: holds_qos2_def)
  qed
qed (use assms in \<open>auto simp: MQTT_UpdateStatePublish_def\<close>)

lemma queue_ack_keeps:
  assumes "r \<in> set q" "packet_id r \<noteq> pid' \<or> new \<noteq> MQTTPublishDone \<and> new \<noteq> MQTTPubRelSend"
  shows "\<exists>r' \<in> set (queue_ack pid' new q). packet_id r' = packet_id r \<and> rec_qos r' = rec_qos r"
proof (cases "packet_id r = pid'")
  case True
  with assms show ?thesis
    by (auto simp: queue_ack_def intro!: bexI [of _ "r \<lparr> publish_state := new \<rparr>"])
next
  case False
  with assms(1) show ?thesis by (auto simp: queue_ack_def intro!: bexI [of _ r])
qed

lemma holds_ack:
  assumes ok: "ctx_ok c" and h: "holds_qos2 pid c" and a: "\<not> (p = pid \<and> t = MQTTPubcomp \<and> op = MQTT_SEND)"
  shows "holds_qos2 pid (fst (snd (MQTT_UpdateStateAck c p t op)))"
proof (cases "p = 0 \<or> isPublishOutgoing t op")
  case True
  then have "incoming (fst (snd (MQTT_UpdateStateAck c p t op))) = incoming c"
    by (auto simp: MQTT_UpdateStateAck_def Let_def split: prod.splits option.splits)
  with h show ?thesis by (simp add: holds_qos2_def)
next
  case False
  obtain st c' new where u: "MQTT_UpdateStateAck c p t op = (st, c', new)" by (metis prod_cases3)
  obtain r0 where r0: "r0 \<in> set (in_flight (incoming c))" "packet_id r0 = pid" "rec_qos r0 = MQTTQoS2"
    using h by (auto simp: holds_qos2_def)
  note s = update_state_ack_spec [OF ok, of p t op, unfolded u prod.case Let_def]
  show ?thesis
  proof (cases "find (\<lambda>r. packet_id r = p) (in_flight (incoming c))")
    case None
    with s False h show ?thesis by (simp add: u)
  next
    case (Some r)
    then have r: "r \<in> set (in_flight (incoming c))" "packet_id r = p"
      by (auto simp: find_Some_iff)
    let ?new = "MQTT_CalculateStateAck t op (rec_qos r)"
    have keep: "packet_id r0 \<noteq> p \<or> ?new \<noteq> MQTTPublishDone \<and> ?new \<noteq> MQTTPubRelSend"
    proof (cases "pid = p")
      case True
      have "distinct (map packet_id (in_flight (incoming c)))"
        using ok by (simp add: ctx_ok_def records_ok_def ids_def)
      then have "r = r0" using r r0 True by (auto simp: distinct_map inj_on_def)
      with a r0 True False show ?thesis
        by (cases t; cases op) (simp_all add: MQTT_CalculateStateAck_def isPublishOutgoing_def)
    qed (use r0 in simp)
    have "\<exists>r' \<in> set (in_flight (incoming c')). packet_id r' = packet_id r0 \<and> rec_qos r' = rec_qos r0"
      using s False Some queue_ack_keeps [OF r0(1) keep] r0(1) by (auto split: if_splits)
    with r0 show ?thesis by (auto simp: u holds_qos2_def)
  qed
qed

lemma holds_exec:
  assumes "ctx_ok c" "holds_qos2 pid c" "a \<noteq> Ack pid MQTTPubcomp MQTT_SEND"
  shows "holds_qos2 pid (snd (mqtt_exec a c))"
proof (cases a)
  case (Reserve p q)
  then show ?thesis using assms(2)
    by (auto simp: MQTT_ReserveState_def holds_qos2_def split: prod.splits)
next
  case (Publish p op q)
  then show ?thesis using holds_publish [OF assms(1,2), of p op q] by (simp add: case_prod_beta)
next
  case (Ack p t op)
  then show ?thesis using holds_ack [OF assms(1,2), of p t op] assms(3) by (simp add: case_prod_beta)
next
  case (Remove p)
  then show ?thesis using assms(2)
    by (auto simp: MQTT_RemoveStateRecord_def holds_qos2_def split: prod.splits)
qed

lemma holds_run:
  "ctx_ok c \<Longrightarrow> holds_qos2 pid c \<Longrightarrow> Ack pid MQTTPubcomp MQTT_SEND \<notin> set calls \<Longrightarrow> holds_qos2 pid (mqtt_run calls c)"
  by (induction calls arbitrary: c) (auto simp: exec_ok holds_exec)

lemma collision_when_held:
  assumes "ctx_ok c" "holds_qos2 pid c" "q \<noteq> MQTTQoS0"
  shows "fst (mqtt_exec (Publish pid MQTT_RECEIVE q) c) = MQTTStateCollision"
proof -
  obtain r where r: "r \<in> set (in_flight (incoming c))" "packet_id r = pid" using assms(2) by (auto simp: holds_qos2_def)
  then have pid: "pid \<noteq> 0" and m: "pid \<in> set (ids (incoming c))" by (auto simp: ids_def set_in_flight)
  obtain st rs where a: "addRecord (incoming c) pid q (MQTT_CalculateStatePublish MQTT_RECEIVE q) = (st, rs)" by fastforce
  have "incoming c \<noteq> []" "free_slots_ok (incoming c)" using assms(1) by (auto simp: ctx_ok_def records_ok_def)
  from addRecord_spec [OF this(2,1) pid a] m have "st = MQTTStateCollision" by simp
  with publish_receive [OF assms(3) pid a] show ?thesis by simp
qed

text \<open>
  C29. Exactly-once delivery of QoS 2. Once an incoming QoS 2 publish has been accepted, every
  further copy of it is recognised as a duplicate (a state collision), whatever calls happen in
  between, as long as its PUBCOMP has not been sent.
\<close>

theorem mqtt_qos2_exactly_once:
  assumes "ctx_ok c" "mqtt_exec (Publish pid MQTT_RECEIVE MQTTQoS2) c = (MQTTSuccess, c1)" "pid \<noteq> 0"
    "Ack pid MQTTPubcomp MQTT_SEND \<notin> set calls"
  shows "fst (mqtt_exec (Publish pid MQTT_RECEIVE MQTTQoS2) (mqtt_run calls c1)) = MQTTStateCollision"
proof -
  obtain st rs where a: "addRecord (incoming c) pid MQTTQoS2 (MQTT_CalculateStatePublish MQTT_RECEIVE MQTTQoS2) = (st, rs)" by fastforce
  have ne: "incoming c \<noteq> []" "free_slots_ok (incoming c)" using assms(1) by (auto simp: ctx_ok_def records_ok_def)
  have st: "st = MQTTSuccess" "c1 = c \<lparr> incoming := rs \<rparr>"
    using assms(2) publish_receive [OF _ assms(3) a] by auto
  with addRecord_spec [OF ne(2,1) assms(3) a] have "holds_qos2 pid c1"
    by (auto simp: holds_qos2_def split: if_splits)
  moreover have ok: "ctx_ok c1" using exec_ok [OF assms(1), of "Publish pid MQTT_RECEIVE MQTTQoS2"] assms(2) by simp
  ultimately have "holds_qos2 pid (mqtt_run calls c1)" using holds_run assms(4) by blast
  then show ?thesis using run_ok [OF ok] by (intro collision_when_held) simp_all
qed

theorem mqtt_qos2_exactly_once_witness:
  "fst (mqtt_exec (Publish 3 MQTT_RECEIVE MQTTQoS2)
     (mqtt_run [Ack 3 MQTTPubrec MQTT_SEND, Ack 3 MQTTPubrel MQTT_RECEIVE]
       (snd (mqtt_exec (Publish 3 MQTT_RECEIVE MQTTQoS2) (mqtt_init 1 1))))) = MQTTStateCollision"
proof (rule mqtt_qos2_exactly_once)
  show "ctx_ok (mqtt_init 1 1)" by (rule mqtt_init_ok) simp_all
  show "mqtt_exec (Publish 3 MQTT_RECEIVE MQTTQoS2) (mqtt_init 1 1) =
      (MQTTSuccess, snd (mqtt_exec (Publish 3 MQTT_RECEIVE MQTTQoS2) (mqtt_init 1 1)))" by code_simp
qed simp_all

text \<open>
  C32. Resuming a session resends exactly what is unacknowledged, in order: reading the PUBREL
  cursor to its end yields the ids of the publishes awaiting PUBCOMP or about to send PUBREL,
  reading the publish cursor yields those never acknowledged, both in the order of the queue.
\<close>

theorem mqtt_resend_complete:
  assumes "ctx_ok c"
  shows "pubrels_to_resend c 0 =
      map packet_id (filter (\<lambda>r. publish_state r \<in> {MQTTPubCompPending, MQTTPubRelSend}) (in_flight (outgoing c))) \<and>
    publishes_to_resend c 0 =
      map packet_id (filter (\<lambda>r. publish_state r \<in> {MQTTPublishSend, MQTTPubAckPending, MQTTPubRecPending})
        (in_flight (outgoing c)))"
proof -
  have ok: "records_ok out_ok (outgoing c)" using assms by (simp add: ctx_ok_def)
  show ?thesis
    using resend_mask [OF ok, of pubrel_mask "{MQTTPubCompPending, MQTTPubRelSend}"]
      resend_mask [OF ok, of publish_mask "{MQTTPublishSend, MQTTPubAckPending, MQTTPubRecPending}"]
    by (simp add: pubrels_to_resend_eq publishes_to_resend_eq pubrel_mask publish_mask)
qed

theorem mqtt_resend_complete_witness:
  "publishes_to_resend (mqtt_run [Reserve 2 MQTTQoS1, Reserve 9 MQTTQoS2] (mqtt_init 4 1)) 0 = [2, 9]"
proof -
  have "ctx_ok (mqtt_run [Reserve 2 MQTTQoS1, Reserve 9 MQTTQoS2] (mqtt_init 4 1))"
    by (rule run_ok [OF mqtt_init_ok]) simp_all
  from mqtt_resend_complete [OF this] show ?thesis by simp code_simp
qed

end
