(* ===== verification/Mqtt_Serializer.thy ===== *)
theory Mqtt_Serializer
  imports Prelude Mqtt_State "HOL-Library.Word" "HOL-Library.Monad_Syntax"
begin

text \<open>
  The MQTT 3.1.1 packet serializer, \<open>src/src/coreMQTT/core_mqtt_serializer.c\<close>.

  A byte is an \<open>8 word\<close>. Writing goes through a cursor, a buffer with the index of the next
  byte; a write outside the buffer and a copy from beyond a source region have no value
  (\<^const>\<open>None\<close>), so a theorem that a serializer returns \<^const>\<open>Some\<close> includes that it stays
  inside its buffer. In the same way reading a byte that is not there is \<^const>\<open>None\<close>. A
  pointer field of a structure is an option, \<^const>\<open>None\<close> for NULL, otherwise the bytes it
  points to. Pointers to the structures themselves are taken to be valid, so the branches that
  refuse NULL structures are absent, as are the log statements. \<open>size_t\<close> has 32 bits on the
  target: sizes are natural numbers, reduced by \<open>szt\<close> where an addition can wrap.

  Shown: the remaining length has exactly one encoding of the computed size and both decoders
  invert it; every serializer fills exactly the size announced for the packet; PUBLISH packets
  and acknowledgements read back as what was written; no byte sequence makes a parser read
  outside the packet; the parser that pulls bytes from the transport agrees with the one that
  works on a buffer.
\<close>

unbundle bit_operations_syntax

type_synonym byte = "8 word"

section \<open>Bits, bytes and sizes\<close>

definition UINT8_SET_BIT :: "byte \<Rightarrow> nat \<Rightarrow> byte" where
  "UINT8_SET_BIT x position = x OR push_bit position 1"

definition UINT8_CHECK_BIT :: "byte \<Rightarrow> nat \<Rightarrow> bool" where
  "UINT8_CHECK_BIT x position \<longleftrightarrow> x AND push_bit position 1 = push_bit position 1"

definition UINT16_HIGH_BYTE :: "16 word \<Rightarrow> byte" where
  "UINT16_HIGH_BYTE x = ucast (drop_bit 8 x)"

definition UINT16_LOW_BYTE :: "16 word \<Rightarrow> byte" where
  "UINT16_LOW_BYTE x = ucast (x AND 0x00ff)"

definition rd :: "byte list \<Rightarrow> nat \<Rightarrow> byte option" where
  "rd buf i = (if i < length buf then Some (buf ! i) else None)"

definition UINT16_DECODE :: "byte list \<Rightarrow> nat \<Rightarrow> 16 word option" where
  "UINT16_DECODE ptr i = do {
     hi \<leftarrow> rd ptr i;
     lo \<leftarrow> rd ptr (i + 1);
     Some (push_bit 8 (ucast hi) OR ucast lo) }"

definition szt :: "nat \<Rightarrow> nat" where
  "szt n = n mod 2 ^ 32"

abbreviation (input) MQTT_MAX_REMAINING_LENGTH :: nat where "MQTT_MAX_REMAINING_LENGTH \<equiv> 268435455"
abbreviation (input) MQTT_REMAINING_LENGTH_INVALID :: nat where "MQTT_REMAINING_LENGTH_INVALID \<equiv> 268435456"

abbreviation (input) MQTT_PACKET_TYPE_CONNECT :: byte where "MQTT_PACKET_TYPE_CONNECT \<equiv> 0x10"
abbreviation (input) MQTT_PACKET_TYPE_CONNACK :: byte where "MQTT_PACKET_TYPE_CONNACK \<equiv> 0x20"
abbreviation (input) MQTT_PACKET_TYPE_PUBLISH :: byte where "MQTT_PACKET_TYPE_PUBLISH \<equiv> 0x30"
abbreviation (input) MQTT_PACKET_TYPE_PUBACK :: byte where "MQTT_PACKET_TYPE_PUBACK \<equiv> 0x40"
abbreviation (input) MQTT_PACKET_TYPE_PUBREC :: byte where "MQTT_PACKET_TYPE_PUBREC \<equiv> 0x50"
abbreviation (input) MQTT_PACKET_TYPE_PUBREL :: byte where "MQTT_PACKET_TYPE_PUBREL \<equiv> 0x62"
abbreviation (input) MQTT_PACKET_TYPE_PUBCOMP :: byte where "MQTT_PACKET_TYPE_PUBCOMP \<equiv> 0x70"
abbreviation (input) MQTT_PACKET_TYPE_SUBSCRIBE :: byte where "MQTT_PACKET_TYPE_SUBSCRIBE \<equiv> 0x82"
abbreviation (input) MQTT_PACKET_TYPE_SUBACK :: byte where "MQTT_PACKET_TYPE_SUBACK \<equiv> 0x90"
abbreviation (input) MQTT_PACKET_TYPE_UNSUBSCRIBE :: byte where "MQTT_PACKET_TYPE_UNSUBSCRIBE \<equiv> 0xA2"
abbreviation (input) MQTT_PACKET_TYPE_UNSUBACK :: byte where "MQTT_PACKET_TYPE_UNSUBACK \<equiv> 0xB0"
abbreviation (input) MQTT_PACKET_TYPE_PINGREQ :: byte where "MQTT_PACKET_TYPE_PINGREQ \<equiv> 0xC0"
abbreviation (input) MQTT_PACKET_TYPE_PINGRESP :: byte where "MQTT_PACKET_TYPE_PINGRESP \<equiv> 0xD0"
abbreviation (input) MQTT_PACKET_TYPE_DISCONNECT :: byte where "MQTT_PACKET_TYPE_DISCONNECT \<equiv> 0xE0"

section \<open>Structures\<close>

record pub_info =
  pi_qos :: qos
  retain :: bool
  dup :: bool
  pTopicName :: "byte list option"
  topicNameLength :: "16 word"
  pPayload :: "byte list option"
  payloadLength :: nat

record connect_info =
  cleanSession :: bool
  keepAliveSeconds :: "16 word"
  pClientIdentifier :: "byte list option"
  clientIdentifierLength :: "16 word"
  pUserName :: "byte list option"
  userNameLength :: "16 word"
  pPassword :: "byte list option"
  passwordLength :: "16 word"

record sub_info =
  sub_qos :: qos
  pTopicFilter :: "byte list option"
  topicFilterLength :: "16 word"

record packet_info =
  packet_type :: byte
  pRemainingData :: "byte list option"
  remainingLength :: nat
  headerLength :: nat

datatype subscription_type = MQTT_SUBSCRIBE | MQTT_UNSUBSCRIBE

section \<open>Writing\<close>

type_synonym cursor = "byte list \<times> nat"

definition put8 :: "byte \<Rightarrow> cursor \<Rightarrow> cursor option" where
  "put8 b c = (if snd c < length (fst c) then Some ((fst c)[snd c := b], snd c + 1) else None)"

definition put_block :: "byte list \<Rightarrow> cursor \<Rightarrow> cursor option" where
  "put_block bs c =
    (if snd c + length bs \<le> length (fst c)
     then Some (take (snd c) (fst c) @ bs @ drop (snd c + length bs) (fst c), snd c + length bs)
     else None)"

definition put_from :: "byte list \<Rightarrow> nat \<Rightarrow> cursor \<Rightarrow> cursor option" where
  "put_from src n c = (if n \<le> length src then put_block (take n src) c else None)"

definition put16 :: "16 word \<Rightarrow> cursor \<Rightarrow> cursor option" where
  "put16 x c = do { c \<leftarrow> put8 (UINT16_HIGH_BYTE x) c; put8 (UINT16_LOW_BYTE x) c }"

definition remainingLengthEncodedSize :: "nat \<Rightarrow> nat" where
  "remainingLengthEncodedSize len =
    (if len < 128 then 1 else if len < 16384 then 2 else if len < 2097152 then 3 else 4)"

function encodeRemainingLength :: "nat \<Rightarrow> cursor \<Rightarrow> cursor option" where
  "encodeRemainingLength len c =
    (let lengthByte = of_nat (len mod 128) :: byte;
         rest = len div 128;
         lengthByte = (if rest > 0 then UINT8_SET_BIT lengthByte 7 else lengthByte)
     in do {
       c \<leftarrow> put8 lengthByte c;
       (if rest > 0 then encodeRemainingLength rest c else Some c) })"
  by pat_completeness auto
termination
  by (relation "measure fst") auto

declare encodeRemainingLength.simps [simp del]

definition encodeString :: "byte list option \<Rightarrow> 16 word \<Rightarrow> cursor \<Rightarrow> cursor option" where
  "encodeString src n c = do {
     c \<leftarrow> put8 (UINT16_HIGH_BYTE n) c;
     c \<leftarrow> put8 (UINT16_LOW_BYTE n) c;
     (case src of
        Some s \<Rightarrow> put_from s (unat n) c
      | None \<Rightarrow> Some (fst c, snd c + unat n)) }"

section \<open>PUBLISH\<close>

text \<open>
  The sums stay far below the width of \<open>size_t\<close> here: the topic length has 16 bits and the
  payload is added only after it has been compared with the limit.
\<close>

definition calculatePublishPacketSize :: "pub_info \<Rightarrow> (nat \<times> nat) option" where
  "calculatePublishPacketSize i =
    (let packetSize = unat (topicNameLength i) + 2;
         packetSize = (if pi_qos i \<noteq> MQTTQoS0 then packetSize + 2 else packetSize);
         payloadLimit = MQTT_MAX_REMAINING_LENGTH - packetSize - 1
     in if payloadLength i > payloadLimit then None
        else
          let packetSize = packetSize + payloadLength i;
              payloadLimit = payloadLimit - remainingLengthEncodedSize packetSize
          in if payloadLength i > payloadLimit then None
             else Some (packetSize, packetSize + (1 + remainingLengthEncodedSize packetSize)))"

definition publish_flags :: "pub_info \<Rightarrow> byte" where
  "publish_flags i =
    (let f = MQTT_PACKET_TYPE_PUBLISH;
         f = (if pi_qos i = MQTTQoS1 then UINT8_SET_BIT f 1
              else if pi_qos i = MQTTQoS2 then UINT8_SET_BIT f 2 else f);
         f = (if retain i then UINT8_SET_BIT f 0 else f)
     in if dup i then UINT8_SET_BIT f 3 else f)"

definition MQTT_SerializePublishHeaderWithoutTopic ::
    "pub_info \<Rightarrow> nat \<Rightarrow> byte list \<Rightarrow> (mqtt_status \<times> byte list \<times> nat) option" where
  "MQTT_SerializePublishHeaderWithoutTopic i remLen buf = do {
     let hdr = 1 + remainingLengthEncodedSize remLen + 2;
     c \<leftarrow> put8 (publish_flags i) (buf, 0);
     c \<leftarrow> encodeRemainingLength remLen c;
     c \<leftarrow> put16 (topicNameLength i) c;
     Some (MQTTSuccess, fst c, hdr) }"

definition serializePublishCommon ::
    "pub_info \<Rightarrow> nat \<Rightarrow> 16 word \<Rightarrow> byte list \<Rightarrow> bool \<Rightarrow> cursor option" where
  "serializePublishCommon i remLen packetId buf serializePayload = do {
     c \<leftarrow> put8 (publish_flags i) (buf, 0);
     c \<leftarrow> encodeRemainingLength remLen c;
     c \<leftarrow> encodeString (pTopicName i) (topicNameLength i) c;
     c \<leftarrow> (if pi_qos i \<noteq> MQTTQoS0 then put16 packetId c else Some c);
     (if payloadLength i > 0 \<and> serializePayload then
        do { p \<leftarrow> pPayload i; put_from p (payloadLength i) c }
      else Some c) }"

definition MQTT_GetPublishPacketSize :: "pub_info \<Rightarrow> mqtt_status \<times> (nat \<times> nat) option" where
  "MQTT_GetPublishPacketSize i =
    (if pTopicName i = None \<or> topicNameLength i = 0 then (MQTTBadParameter, None)
     else case calculatePublishPacketSize i of
       None \<Rightarrow> (MQTTBadParameter, None)
     | Some sizes \<Rightarrow> (MQTTSuccess, Some sizes))"

definition MQTT_SerializePublish ::
    "pub_info \<Rightarrow> 16 word \<Rightarrow> nat \<Rightarrow> byte list \<Rightarrow> (mqtt_status \<times> byte list) option" where
  "MQTT_SerializePublish i packetId remLen buf =
    (if payloadLength i > 0 \<and> pPayload i = None then Some (MQTTBadParameter, buf)
     else if pTopicName i = None \<or> topicNameLength i = 0 then Some (MQTTBadParameter, buf)
     else if pi_qos i \<noteq> MQTTQoS0 \<and> packetId = 0 then Some (MQTTBadParameter, buf)
     else if dup i \<and> pi_qos i = MQTTQoS0 then Some (MQTTBadParameter, buf)
     else if szt (1 + remainingLengthEncodedSize remLen + remLen) > length buf then Some (MQTTNoMemory, buf)
     else do {
       c \<leftarrow> serializePublishCommon i remLen packetId buf True;
       Some (MQTTSuccess, fst c) })"

definition MQTT_SerializePublishHeader ::
    "pub_info \<Rightarrow> 16 word \<Rightarrow> nat \<Rightarrow> byte list \<Rightarrow> (mqtt_status \<times> byte list \<times> nat option) option" where
  "MQTT_SerializePublishHeader i packetId remLen buf =
    (let packetSize = szt (1 + remainingLengthEncodedSize remLen + remLen + (2 ^ 32 - szt (payloadLength i)))
     in if pTopicName i = None \<or> topicNameLength i = 0 then Some (MQTTBadParameter, buf, None)
        else if pi_qos i \<noteq> MQTTQoS0 \<and> packetId = 0 then Some (MQTTBadParameter, buf, None)
        else if dup i \<and> pi_qos i = MQTTQoS0 then Some (MQTTBadParameter, buf, None)
        else if packetSize > length buf then Some (MQTTNoMemory, buf, None)
        else do {
          c \<leftarrow> serializePublishCommon i remLen packetId buf False;
          Some (MQTTSuccess, fst c, Some packetSize) })"

section \<open>CONNECT\<close>

definition connect_flags :: "connect_info \<Rightarrow> pub_info option \<Rightarrow> byte" where
  "connect_flags ci will =
    (let f = 0 :: byte;
         f = (if cleanSession ci then UINT8_SET_BIT f 1 else f);
         f = (if pUserName ci \<noteq> None then UINT8_SET_BIT f 7 else f);
         f = (if pPassword ci \<noteq> None then UINT8_SET_BIT f 6 else f)
     in case will of
          None \<Rightarrow> f
        | Some w \<Rightarrow>
            let f = UINT8_SET_BIT f 2;
                f = (if pi_qos w = MQTTQoS1 then UINT8_SET_BIT f 3
                     else if pi_qos w = MQTTQoS2 then UINT8_SET_BIT f 4 else f)
            in if retain w then UINT8_SET_BIT f 5 else f)"

definition MQTT_SerializeConnectFixedHeader ::
    "cursor \<Rightarrow> connect_info \<Rightarrow> pub_info option \<Rightarrow> nat \<Rightarrow> cursor option" where
  "MQTT_SerializeConnectFixedHeader c ci will remLen = do {
     c \<leftarrow> put8 MQTT_PACKET_TYPE_CONNECT c;
     c \<leftarrow> encodeRemainingLength remLen c;
     c \<leftarrow> encodeString (Some [0x4D, 0x51, 0x54, 0x54]) 4 c;
     c \<leftarrow> put8 4 c;
     c \<leftarrow> put8 (connect_flags ci will) c;
     put16 (keepAliveSeconds ci) c }"

definition serializeConnectPacket ::
    "connect_info \<Rightarrow> pub_info option \<Rightarrow> nat \<Rightarrow> byte list \<Rightarrow> cursor option" where
  "serializeConnectPacket ci will remLen buf = do {
     c \<leftarrow> MQTT_SerializeConnectFixedHeader (buf, 0) ci will remLen;
     c \<leftarrow> encodeString (pClientIdentifier ci) (clientIdentifierLength ci) c;
     c \<leftarrow> (case will of
            None \<Rightarrow> Some c
          | Some w \<Rightarrow> do {
              c \<leftarrow> encodeString (pTopicName w) (topicNameLength w) c;
              encodeString (pPayload w) (of_nat (payloadLength w)) c });
     c \<leftarrow> (if pUserName ci \<noteq> None then encodeString (pUserName ci) (userNameLength ci) c else Some c);
     (if pPassword ci \<noteq> None then encodeString (pPassword ci) (passwordLength ci) c else Some c) }"

definition MQTT_GetConnectPacketSize :: "connect_info \<Rightarrow> pub_info option \<Rightarrow> mqtt_status \<times> (nat \<times> nat) option" where
  "MQTT_GetConnectPacketSize ci will =
    (if clientIdentifierLength ci = 0 \<or> pClientIdentifier ci = None then (MQTTBadParameter, None)
     else if (case will of None \<Rightarrow> False | Some w \<Rightarrow> payloadLength w > 65535) then (MQTTBadParameter, None)
     else
       let size = 10;
           size = size + (unat (clientIdentifierLength ci) + 2);
           size = size + (case will of None \<Rightarrow> 0
                          | Some w \<Rightarrow> unat (topicNameLength w) + 2 + payloadLength w + 2);
           size = size + (if pUserName ci \<noteq> None then unat (userNameLength ci) + 2 else 0);
           size = size + (if pPassword ci \<noteq> None then unat (passwordLength ci) + 2 else 0)
       in (MQTTSuccess, Some (size, size + (1 + remainingLengthEncodedSize size))))"

definition MQTT_SerializeConnect ::
    "connect_info \<Rightarrow> pub_info option \<Rightarrow> nat \<Rightarrow> byte list \<Rightarrow> (mqtt_status \<times> byte list) option" where
  "MQTT_SerializeConnect ci will remLen buf =
    (if (case will of None \<Rightarrow> False | Some w \<Rightarrow> pTopicName w = None) then Some (MQTTBadParameter, buf)
     else if szt (remLen + remainingLengthEncodedSize remLen + 1) > length buf then Some (MQTTNoMemory, buf)
     else do {
       c \<leftarrow> serializeConnectPacket ci will remLen buf;
       Some (MQTTSuccess, fst c) })"

section \<open>SUBSCRIBE and UNSUBSCRIBE\<close>

fun subscription_size :: "subscription_type \<Rightarrow> sub_info list \<Rightarrow> mqtt_status \<Rightarrow> nat \<Rightarrow> mqtt_status \<times> nat" where
  "subscription_size ty [] status packetSize = (status, packetSize)"
| "subscription_size ty (s # ss) status packetSize =
    (let packetSize = szt (packetSize + (unat (topicFilterLength s) + 2));
         packetSize = (if ty = MQTT_SUBSCRIBE then szt (packetSize + 1) else packetSize);
         status = (if topicFilterLength s = 0 \<or> pTopicFilter s = None then MQTTBadParameter else status)
     in subscription_size ty ss status packetSize)"

definition calculateSubscriptionPacketSize ::
    "sub_info list \<Rightarrow> subscription_type \<Rightarrow> mqtt_status \<times> (nat \<times> nat) option" where
  "calculateSubscriptionPacketSize subs ty =
    (let (status, packetSize) = subscription_size ty subs MQTTSuccess 2;
         status = (if packetSize > MQTT_MAX_REMAINING_LENGTH then MQTTBadParameter else status)
     in if status = MQTTSuccess
        then (status, Some (packetSize, packetSize + (1 + remainingLengthEncodedSize packetSize)))
        else (status, None))"

definition validateSubscriptionSerializeParams :: "sub_info list \<Rightarrow> 16 word \<Rightarrow> nat \<Rightarrow> byte list \<Rightarrow> mqtt_status" where
  "validateSubscriptionSerializeParams subs packetId remLen buf =
    (if subs = [] then MQTTBadParameter
     else if packetId = 0 then MQTTBadParameter
     else if szt (1 + remainingLengthEncodedSize remLen + remLen) > length buf then MQTTNoMemory
     else MQTTSuccess)"

definition MQTT_GetSubscribePacketSize :: "sub_info list \<Rightarrow> mqtt_status \<times> (nat \<times> nat) option" where
  "MQTT_GetSubscribePacketSize subs =
    (if subs = [] then (MQTTBadParameter, None) else calculateSubscriptionPacketSize subs MQTT_SUBSCRIBE)"

definition MQTT_SerializeSubscribeHeader :: "nat \<Rightarrow> cursor \<Rightarrow> 16 word \<Rightarrow> cursor option" where
  "MQTT_SerializeSubscribeHeader remLen c packetId = do {
     c \<leftarrow> put8 MQTT_PACKET_TYPE_SUBSCRIBE c;
     c \<leftarrow> encodeRemainingLength remLen c;
     put16 packetId c }"

definition MQTT_SerializeUnsubscribeHeader :: "nat \<Rightarrow> cursor \<Rightarrow> 16 word \<Rightarrow> cursor option" where
  "MQTT_SerializeUnsubscribeHeader remLen c packetId = do {
     c \<leftarrow> put8 MQTT_PACKET_TYPE_UNSUBSCRIBE c;
     c \<leftarrow> encodeRemainingLength remLen c;
     put16 packetId c }"

fun qos_code :: "qos \<Rightarrow> byte" where
  "qos_code MQTTQoS0 = 0"
| "qos_code MQTTQoS1 = 1"
| "qos_code MQTTQoS2 = 2"

fun put_subscriptions :: "sub_info list \<Rightarrow> cursor \<Rightarrow> cursor option" where
  "put_subscriptions [] c = Some c"
| "put_subscriptions (s # ss) c = do {
     c \<leftarrow> encodeString (pTopicFilter s) (topicFilterLength s) c;
     c \<leftarrow> put8 (qos_code (sub_qos s)) c;
     put_subscriptions ss c }"

fun put_filters :: "sub_info list \<Rightarrow> cursor \<Rightarrow> cursor option" where
  "put_filters [] c = Some c"
| "put_filters (s # ss) c = do {
     c \<leftarrow> encodeString (pTopicFilter s) (topicFilterLength s) c;
     put_filters ss c }"

definition MQTT_SerializeSubscribe ::
    "sub_info list \<Rightarrow> 16 word \<Rightarrow> nat \<Rightarrow> byte list \<Rightarrow> (mqtt_status \<times> byte list) option" where
  "MQTT_SerializeSubscribe subs packetId remLen buf =
    (let status = validateSubscriptionSerializeParams subs packetId remLen buf
     in if status = MQTTSuccess then do {
          c \<leftarrow> MQTT_SerializeSubscribeHeader remLen (buf, 0) packetId;
          c \<leftarrow> put_subscriptions subs c;
          Some (status, fst c) }
        else Some (status, buf))"

definition MQTT_GetUnsubscribePacketSize :: "sub_info list \<Rightarrow> mqtt_status \<times> (nat \<times> nat) option" where
  "MQTT_GetUnsubscribePacketSize subs =
    (if subs = [] then (MQTTBadParameter, None) else calculateSubscriptionPacketSize subs MQTT_UNSUBSCRIBE)"

definition MQTT_SerializeUnsubscribe ::
    "sub_info list \<Rightarrow> 16 word \<Rightarrow> nat \<Rightarrow> byte list \<Rightarrow> (mqtt_status \<times> byte list) option" where
  "MQTT_SerializeUnsubscribe subs packetId remLen buf =
    (let status = validateSubscriptionSerializeParams subs packetId remLen buf
     in if status = MQTTSuccess then do {
          c \<leftarrow> MQTT_SerializeUnsubscribeHeader remLen (buf, 0) packetId;
          c \<leftarrow> put_filters subs c;
          Some (status, fst c) }
        else Some (status, buf))"

section \<open>Acknowledgements, DISCONNECT and PINGREQ\<close>

definition MQTT_SerializeAck :: "byte list \<Rightarrow> byte \<Rightarrow> 16 word \<Rightarrow> (mqtt_status \<times> byte list) option" where
  "MQTT_SerializeAck buf ty packetId =
    (if length buf < 4 then Some (MQTTNoMemory, buf)
     else if packetId = 0 then Some (MQTTBadParameter, buf)
     else if ty = MQTT_PACKET_TYPE_PUBACK \<or> ty = MQTT_PACKET_TYPE_PUBREC \<or>
         ty = MQTT_PACKET_TYPE_PUBREL \<or> ty = MQTT_PACKET_TYPE_PUBCOMP then do {
       c \<leftarrow> put8 ty (buf, 0);
       c \<leftarrow> put8 2 c;
       c \<leftarrow> put16 packetId c;
       Some (MQTTSuccess, fst c) }
     else Some (MQTTBadParameter, buf))"

definition MQTT_GetDisconnectPacketSize :: nat where
  "MQTT_GetDisconnectPacketSize = 2"

definition MQTT_SerializeDisconnect :: "byte list \<Rightarrow> (mqtt_status \<times> byte list) option" where
  "MQTT_SerializeDisconnect buf =
    (if length buf < 2 then Some (MQTTNoMemory, buf)
     else do {
       c \<leftarrow> put8 MQTT_PACKET_TYPE_DISCONNECT (buf, 0);
       c \<leftarrow> put8 0 c;
       Some (MQTTSuccess, fst c) })"

definition MQTT_GetPingreqPacketSize :: nat where
  "MQTT_GetPingreqPacketSize = 2"

definition MQTT_SerializePingreq :: "byte list \<Rightarrow> (mqtt_status \<times> byte list) option" where
  "MQTT_SerializePingreq buf =
    (if length buf < 2 then Some (MQTTNoMemory, buf)
     else do {
       c \<leftarrow> put8 MQTT_PACKET_TYPE_PINGREQ (buf, 0);
       c \<leftarrow> put8 0 c;
       Some (MQTTSuccess, fst c) })"

section \<open>Reading the fixed header\<close>

text \<open>
  In both loops \<open>multiplier\<close> is \<open>128 ^ bytesDecoded\<close>: the two are advanced together. The
  transport is a parameter: \<open>recv1\<close> asks it for one byte and gives the number of bytes received
  (negative for an error), the byte, and the state of the network afterwards.
\<close>

lemma multiplier_le: "(128::nat) ^ k \<le> 2097152 \<longleftrightarrow> k \<le> 3"
proof -
  have "(2097152::nat) = 128 ^ 3" by simp
  then show ?thesis by (simp only: power_increasing_iff)
qed

function get_length_loop :: "('net \<Rightarrow> int \<times> byte \<times> 'net) \<Rightarrow> 'net \<Rightarrow> nat \<Rightarrow> nat \<Rightarrow> nat \<times> nat \<times> 'net" where
  "get_length_loop recv1 net remLen bytesDecoded =
    (if 128 ^ bytesDecoded > (2097152::nat) then (MQTT_REMAINING_LENGTH_INVALID, bytesDecoded, net)
     else let (bytesReceived, encodedByte, net) = recv1 net
       in if bytesReceived = 1 then
            let remLen = remLen + unat (encodedByte AND 0x7F) * 128 ^ bytesDecoded;
                bytesDecoded' = bytesDecoded + 1
            in if remLen = MQTT_REMAINING_LENGTH_INVALID then (remLen, bytesDecoded', net)
               else if encodedByte AND 0x80 \<noteq> 0 then get_length_loop recv1 net remLen bytesDecoded'
               else (remLen, bytesDecoded', net)
          else (MQTT_REMAINING_LENGTH_INVALID, bytesDecoded, net))"
  by pat_completeness auto
termination
  by (relation "measure (\<lambda>(_, _, _, k). 4 - k)") (auto simp: multiplier_le not_less)

declare get_length_loop.simps [simp del]

definition getRemainingLength :: "('net \<Rightarrow> int \<times> byte \<times> 'net) \<Rightarrow> 'net \<Rightarrow> nat \<times> 'net" where
  "getRemainingLength recv1 net =
    (let (remLen, bytesDecoded, net) = get_length_loop recv1 net 0 0
     in if remLen \<noteq> MQTT_REMAINING_LENGTH_INVALID \<and> bytesDecoded \<noteq> remainingLengthEncodedSize remLen
        then (MQTT_REMAINING_LENGTH_INVALID, net)
        else (remLen, net))"

function process_length_loop ::
    "byte list \<Rightarrow> nat \<Rightarrow> nat \<Rightarrow> nat \<Rightarrow> (mqtt_status \<times> nat \<times> nat) option" where
  "process_length_loop buf index remLen bytesDecoded =
    (if 128 ^ bytesDecoded > (2097152::nat)
     then Some (MQTTBadResponse, MQTT_REMAINING_LENGTH_INVALID, bytesDecoded)
     else if index > bytesDecoded + 1 then
       (case rd buf (bytesDecoded + 1) of
          None \<Rightarrow> None
        | Some encodedByte \<Rightarrow>
            let remLen = remLen + unat (encodedByte AND 0x7F) * 128 ^ bytesDecoded;
                bytesDecoded' = bytesDecoded + 1
            in if remLen = MQTT_REMAINING_LENGTH_INVALID then Some (MQTTSuccess, remLen, bytesDecoded')
               else if encodedByte AND 0x80 \<noteq> 0 then process_length_loop buf index remLen bytesDecoded'
               else Some (MQTTSuccess, remLen, bytesDecoded'))
     else Some (MQTTNeedMoreBytes, remLen, bytesDecoded))"
  by pat_completeness auto
termination
  by (relation "measure (\<lambda>(_, _, _, k). 4 - k)") (auto simp: multiplier_le not_less)

declare process_length_loop.simps [simp del]

definition processRemainingLength ::
    "byte list \<Rightarrow> nat \<Rightarrow> packet_info \<Rightarrow> (mqtt_status \<times> packet_info) option" where
  "processRemainingLength buf index p = do {
     (status, remLen, bytesDecoded) \<leftarrow> process_length_loop buf index 0 0;
     (if status = MQTTSuccess then
        if bytesDecoded \<noteq> remainingLengthEncodedSize remLen then Some (MQTTBadResponse, p)
        else Some (status, p \<lparr> remainingLength := remLen, headerLength := bytesDecoded + 1 \<rparr>)
      else Some (status, p)) }"

definition incomingPacketValid :: "byte \<Rightarrow> bool" where
  "incomingPacketValid ty =
    (let m = ty AND 0xF0
     in if m = MQTT_PACKET_TYPE_CONNACK \<or> m = MQTT_PACKET_TYPE_PUBLISH \<or> m = MQTT_PACKET_TYPE_PUBACK \<or>
          m = MQTT_PACKET_TYPE_PUBREC \<or> m = MQTT_PACKET_TYPE_PUBCOMP \<or> m = MQTT_PACKET_TYPE_SUBACK \<or>
          m = MQTT_PACKET_TYPE_UNSUBACK \<or> m = MQTT_PACKET_TYPE_PINGRESP then True
        else if m = MQTT_PACKET_TYPE_PUBREL AND 0xF0 then ty AND 0x02 > 0
        else False)"

definition MQTT_GetIncomingPacketTypeAndLength ::
    "('net \<Rightarrow> int \<times> byte \<times> 'net) \<Rightarrow> 'net \<Rightarrow> packet_info \<Rightarrow> mqtt_status \<times> packet_info \<times> 'net" where
  "MQTT_GetIncomingPacketTypeAndLength recv1 net p =
    (let (bytesReceived, b, net) = recv1 net
     in if bytesReceived = 1 then
          let p = p \<lparr> packet_type := b \<rparr>
          in if incomingPacketValid b then
               let (remLen, net) = getRemainingLength recv1 net;
                   p = p \<lparr> remainingLength := remLen \<rparr>
               in (if remLen = MQTT_REMAINING_LENGTH_INVALID then MQTTBadResponse else MQTTSuccess, p, net)
             else (MQTTBadResponse, p, net)
        else if bytesReceived = 0 then (MQTTNoDataAvailable, p, net)
        else (MQTTRecvFailed, p, net))"

definition MQTT_ProcessIncomingPacketTypeAndLength ::
    "byte list \<Rightarrow> nat \<Rightarrow> packet_info \<Rightarrow> (mqtt_status \<times> packet_info) option" where
  "MQTT_ProcessIncomingPacketTypeAndLength buf index p =
    (if index < 1 then Some (MQTTNoDataAvailable, p)
     else do {
       b \<leftarrow> rd buf 0;
       let p = p \<lparr> packet_type := b \<rparr>;
       (if incomingPacketValid b then processRemainingLength buf index p
        else Some (MQTTBadResponse, p)) })"

section \<open>Reading packets\<close>

definition checkPublishRemainingLength :: "nat \<Rightarrow> qos \<Rightarrow> nat \<Rightarrow> mqtt_status" where
  "checkPublishRemainingLength remLen q qos0Minimum =
    (if q = MQTTQoS0 then (if remLen < qos0Minimum then MQTTBadResponse else MQTTSuccess)
     else if remLen < qos0Minimum + 2 then MQTTBadResponse else MQTTSuccess)"

definition processPublishFlags :: "byte \<Rightarrow> pub_info \<Rightarrow> mqtt_status \<times> pub_info" where
  "processPublishFlags flags i =
    (let (status, i) =
       (if UINT8_CHECK_BIT flags 2 then
          if UINT8_CHECK_BIT flags 1 then (MQTTBadResponse, i) else (MQTTSuccess, i \<lparr> pi_qos := MQTTQoS2 \<rparr>)
        else if UINT8_CHECK_BIT flags 1 then (MQTTSuccess, i \<lparr> pi_qos := MQTTQoS1 \<rparr>)
        else (MQTTSuccess, i \<lparr> pi_qos := MQTTQoS0 \<rparr>))
     in if status = MQTTSuccess
        then (status, i \<lparr> retain := UINT8_CHECK_BIT flags 0, dup := UINT8_CHECK_BIT flags 3 \<rparr>)
        else (status, i))"

definition deserializeConnack :: "packet_info \<Rightarrow> byte list \<Rightarrow> bool \<Rightarrow> (mqtt_status \<times> bool) option" where
  "deserializeConnack p rdata sp =
    (if remainingLength p \<noteq> 2 then Some (MQTTBadResponse, sp)
     else do {
       b0 \<leftarrow> rd rdata 0;
       (status, sp) \<leftarrow>
         (if b0 OR 0x01 \<noteq> 0x01 then Some (MQTTBadResponse, sp)
          else if b0 AND 0x01 = 0x01 then do {
            b1 \<leftarrow> rd rdata 1;
            Some (if b1 \<noteq> 0 then MQTTBadResponse else MQTTSuccess, True) }
          else Some (MQTTSuccess, False));
       (if status = MQTTSuccess then do {
          b1 \<leftarrow> rd rdata 1;
          (if b1 > 5 then Some (MQTTBadResponse, sp)
           else Some (if b1 > 0 then MQTTServerRefused else status, sp)) }
        else Some (status, sp)) })"

fun readSubackStatus :: "nat \<Rightarrow> byte list \<Rightarrow> mqtt_status \<Rightarrow> mqtt_status option" where
  "readSubackStatus 0 statuses status = Some status"
| "readSubackStatus (Suc n) [] status = None"
| "readSubackStatus (Suc n) (s # ss) status =
    (if s = 0x00 \<or> s = 0x01 \<or> s = 0x02 then readSubackStatus n ss status
     else if s = 0x80 then readSubackStatus n ss MQTTServerRefused
     else Some MQTTBadResponse)"

definition deserializeSuback :: "packet_info \<Rightarrow> byte list \<Rightarrow> 16 word \<Rightarrow> (mqtt_status \<times> 16 word) option" where
  "deserializeSuback p rdata packetId =
    (if remainingLength p < 3 then Some (MQTTBadResponse, packetId)
     else do {
       packetId \<leftarrow> UINT16_DECODE rdata 0;
       (if packetId = 0 then Some (MQTTBadResponse, packetId)
        else do {
          status \<leftarrow> readSubackStatus (remainingLength p - 2) (drop 2 rdata) MQTTSuccess;
          Some (status, packetId) }) })"

definition deserializePublish ::
    "packet_info \<Rightarrow> byte list \<Rightarrow> 16 word \<Rightarrow> pub_info \<Rightarrow> (mqtt_status \<times> 16 word \<times> pub_info) option" where
  "deserializePublish p rdata packetId i =
    (let (status, i) = processPublishFlags (packet_type p AND 0x0F) i
     in if status \<noteq> MQTTSuccess then Some (status, packetId, i)
        else if checkPublishRemainingLength (remainingLength p) (pi_qos i) 3 \<noteq> MQTTSuccess
        then Some (MQTTBadResponse, packetId, i)
        else do {
          topicLen \<leftarrow> UINT16_DECODE rdata 0;
          let i = i \<lparr> topicNameLength := topicLen \<rparr>;
          (if checkPublishRemainingLength (remainingLength p) (pi_qos i) (unat topicLen + 2) \<noteq> MQTTSuccess
           then Some (MQTTBadResponse, packetId, i)
           else do {
             let i = i \<lparr> pTopicName := Some (drop 2 rdata) \<rparr>;
             let at = 2 + unat topicLen;
             (packetId, at) \<leftarrow>
               (if pi_qos i \<noteq> MQTTQoS0 then do { pid \<leftarrow> UINT16_DECODE rdata at; Some (pid, at + 2) }
                else Some (packetId, at));
             (if pi_qos i \<noteq> MQTTQoS0 \<and> packetId = 0 then Some (MQTTBadResponse, packetId, i)
              else
                let len = remainingLength p - unat topicLen - 2;
                    len = (if pi_qos i \<noteq> MQTTQoS0 then len - 2 else len)
                in Some (MQTTSuccess, packetId,
                     i \<lparr> payloadLength := len, pPayload := (if len \<noteq> 0 then Some (drop at rdata) else None) \<rparr>)) }) })"

definition deserializeSimpleAck :: "packet_info \<Rightarrow> byte list \<Rightarrow> 16 word \<Rightarrow> (mqtt_status \<times> 16 word) option" where
  "deserializeSimpleAck p rdata packetId =
    (if remainingLength p \<noteq> 2 then Some (MQTTBadResponse, packetId)
     else do {
       packetId \<leftarrow> UINT16_DECODE rdata 0;
       Some (if packetId = 0 then MQTTBadResponse else MQTTSuccess, packetId) })"

definition deserializePingresp :: "packet_info \<Rightarrow> mqtt_status" where
  "deserializePingresp p = (if remainingLength p \<noteq> 0 then MQTTBadResponse else MQTTSuccess)"

definition MQTT_DeserializePublish ::
    "packet_info \<Rightarrow> 16 word \<Rightarrow> pub_info \<Rightarrow> (mqtt_status \<times> 16 word \<times> pub_info) option" where
  "MQTT_DeserializePublish p packetId i =
    (if packet_type p AND 0xF0 \<noteq> MQTT_PACKET_TYPE_PUBLISH then Some (MQTTBadParameter, packetId, i)
     else case pRemainingData p of
       None \<Rightarrow> Some (MQTTBadParameter, packetId, i)
     | Some rdata \<Rightarrow> deserializePublish p rdata packetId i)"

definition MQTT_DeserializeAck ::
    "packet_info \<Rightarrow> 16 word \<Rightarrow> bool \<Rightarrow> (mqtt_status \<times> 16 word \<times> bool) option" where
  "MQTT_DeserializeAck p packetId sp =
    (if packet_type p = MQTT_PACKET_TYPE_PINGRESP then Some (deserializePingresp p, packetId, sp)
     else case pRemainingData p of
       None \<Rightarrow> Some (MQTTBadParameter, packetId, sp)
     | Some rdata \<Rightarrow>
         (if packet_type p = MQTT_PACKET_TYPE_CONNACK then do {
            (status, sp) \<leftarrow> deserializeConnack p rdata sp;
            Some (status, packetId, sp) }
          else if packet_type p = MQTT_PACKET_TYPE_SUBACK then do {
            (status, packetId) \<leftarrow> deserializeSuback p rdata packetId;
            Some (status, packetId, sp) }
          else if packet_type p = MQTT_PACKET_TYPE_UNSUBACK \<or> packet_type p = MQTT_PACKET_TYPE_PUBACK \<or>
              packet_type p = MQTT_PACKET_TYPE_PUBREC \<or> packet_type p = MQTT_PACKET_TYPE_PUBREL \<or>
              packet_type p = MQTT_PACKET_TYPE_PUBCOMP then do {
            (status, packetId) \<leftarrow> deserializeSimpleAck p rdata packetId;
            Some (status, packetId, sp) }
          else Some (MQTTBadResponse, packetId, sp)))"

section \<open>The writer\<close>

text \<open>
  Consecutive writes compose to one block write, so a serializer is described by the bytes it
  produces.
\<close>

lemma put8_block: "put8 b = put_block [b]"
  by (rule ext) (auto simp: put8_def put_block_def upd_conv_take_nth_drop)

lemma put_block_append: "put_block xs c \<bind> put_block ys = put_block (xs @ ys) c"
  by (auto simp: put_block_def ac_simps)

lemma put_block_bind [simp]: "(put_block xs c \<bind> (\<lambda>c. put_block ys c \<bind> f)) = (put_block (xs @ ys) c \<bind> f)"
  unfolding put_block_append [symmetric] by (simp add: Option.bind_assoc)

lemma put_block_bind_last [simp]: "(put_block xs c \<bind> (\<lambda>c. put_block ys c)) = put_block (xs @ ys) c"
  by (rule put_block_append)

lemma put_block_exact:
  "length bs \<le> length buf \<Longrightarrow> put_block bs (buf, 0) = Some (bs @ drop (length bs) buf, length bs)"
  by (simp add: put_block_def)

definition u16_bytes :: "16 word \<Rightarrow> byte list" where
  "u16_bytes x = [UINT16_HIGH_BYTE x, UINT16_LOW_BYTE x]"

lemma length_u16_bytes [simp]: "length (u16_bytes x) = 2"
  by (simp add: u16_bytes_def)

lemma put16_block: "put16 x = put_block (u16_bytes x)"
  by (rule ext) (simp add: put16_def put8_block u16_bytes_def)

fun length_bytes :: "nat \<Rightarrow> byte list" where
  "length_bytes len =
    (if len div 128 > 0 then UINT8_SET_BIT (of_nat (len mod 128)) 7 # length_bytes (len div 128)
     else [of_nat (len mod 128)])"

declare length_bytes.simps [simp del]

lemma encodeRemainingLength_block: "encodeRemainingLength len c = put_block (length_bytes len) c"
proof (induction len arbitrary: c rule: length_bytes.induct)
  case (1 len)
  show ?case
  proof (cases "len div 128 > 0")
    case True
    then show ?thesis
      using 1 by (subst encodeRemainingLength.simps, subst length_bytes.simps)
        (simp add: put8_block Let_def)
  next
    case False
    then show ?thesis
      by (subst encodeRemainingLength.simps, subst length_bytes.simps) (simp add: put8_block Let_def)
  qed
qed

definition str_bytes :: "byte list \<Rightarrow> 16 word \<Rightarrow> byte list" where
  "str_bytes s n = u16_bytes n @ take (unat n) s"

lemma encodeString_block:
  "unat n \<le> length s \<Longrightarrow> encodeString (Some s) n = put_block (str_bytes s n)"
  by (rule ext) (simp add: encodeString_def put8_block put_from_def str_bytes_def u16_bytes_def)

lemma length_str_bytes [simp]: "unat n \<le> length s \<Longrightarrow> length (str_bytes s n) = unat n + 2"
  by (simp add: str_bytes_def)

lemma length_length_bytes:
  "len \<le> 268435455 \<Longrightarrow> length (length_bytes len) = remainingLengthEncodedSize len"
proof -
  assume "len \<le> 268435455"
  then consider "len < 128" | "128 \<le> len" "len < 16384" | "16384 \<le> len" "len < 2097152"
    | "2097152 \<le> len" "len \<le> 268435455" by linarith
  then show ?thesis
  proof cases
    case 1
    then show ?thesis by (subst length_bytes.simps) (simp add: remainingLengthEncodedSize_def)
  next
    case 2
    then have "len div 128 > 0" "len div 128 div 128 = 0" by auto
    with 2 show ?thesis
      by (subst length_bytes.simps, subst length_bytes.simps) (simp add: remainingLengthEncodedSize_def)
  next
    case 3
    then have "len div 128 > 0" "len div 128 div 128 > 0" "len div 128 div 128 div 128 = 0" by auto
    with 3 show ?thesis
      by (subst length_bytes.simps, subst length_bytes.simps, subst length_bytes.simps)
        (simp add: remainingLengthEncodedSize_def)
  next
    case 4
    then have "len div 128 > 0" "len div 128 div 128 > 0" "len div 128 div 128 div 128 > 0"
      "len div 128 div 128 div 128 div 128 = 0" by auto
    with 4 show ?thesis
      by (subst length_bytes.simps, subst length_bytes.simps, subst length_bytes.simps, subst length_bytes.simps)
        (simp add: remainingLengthEncodedSize_def)
  qed
qed

lemma encoded_size_bounds: "1 \<le> remainingLengthEncodedSize n" "remainingLengthEncodedSize n \<le> 4"
  by (simp_all add: remainingLengthEncodedSize_def)

section \<open>Bits of bytes\<close>

lemma low_byte: "UINT16_LOW_BYTE x = ucast (take_bit 8 x)"
proof -
  have "(0xff :: 16 word) = mask 8" by (simp add: mask_eq_exp_minus_1)
  then show ?thesis by (simp add: UINT16_LOW_BYTE_def take_bit_eq_mask)
qed

lemma decode_u16: "push_bit 8 (ucast (UINT16_HIGH_BYTE x)) OR ucast (UINT16_LOW_BYTE x) = (x :: 16 word)"
  by (rule bit_word_eqI) (auto simp: UINT16_HIGH_BYTE_def low_byte bit_simps)

lemma decode_at:
  "drop k data = u16_bytes x @ rest \<Longrightarrow> UINT16_DECODE data k = Some x"
proof -
  assume d: "drop k data = u16_bytes x @ rest"
  then have l: "length data - k = 2 + length rest" by (metis length_append length_drop length_u16_bytes)
  then have k: "k + 1 < length data" by linarith
  have "data ! k = UINT16_HIGH_BYTE x" "data ! (k + 1) = UINT16_LOW_BYTE x"
    using d k nth_drop [of k data 0] nth_drop [of k data 1] by (auto simp: u16_bytes_def)
  then show ?thesis using k by (simp add: UINT16_DECODE_def rd_def decode_u16)
qed

lemma and_7F: "(b :: byte) AND 0x7F = take_bit 7 b"
proof -
  have "(0x7F :: byte) = mask 7" by (simp add: mask_eq_exp_minus_1)
  then show ?thesis by (simp add: take_bit_eq_mask)
qed

lemma and_80: "(b :: byte) AND 0x80 \<noteq> 0 \<longleftrightarrow> bit b 7"
  using and_exp_eq_0_iff_not_bit [of b 7] by simp

lemma take_bit_7:
  assumes "n < 128"
  shows "take_bit 7 (of_nat n :: byte) = of_nat n" "unat (of_nat n :: byte) = n"
proof -
  show n: "unat (of_nat n :: byte) = n" using assms by (simp add: unat_of_nat)
  have "unat (take_bit 7 (of_nat n :: byte)) = n"
    unfolding unsigned_take_bit_eq n using assms by (simp add: take_bit_eq_mod)
  with n show "take_bit 7 (of_nat n :: byte) = of_nat n" by (simp add: word_unat_eq_iff)
qed

lemma length_byte_last:
  assumes "n < 128"
  shows "unat ((of_nat n :: byte) AND 0x7F) = n" "(of_nat n :: byte) AND 0x80 = 0"
proof -
  show "unat ((of_nat n :: byte) AND 0x7F) = n" by (simp add: and_7F take_bit_7 [OF assms])
  have "\<not> bit (take_bit 7 (of_nat n :: byte)) 7" by (simp add: bit_simps)
  then show "(of_nat n :: byte) AND 0x80 = 0" using and_80 take_bit_7(1) [OF assms] by metis
qed

lemma length_byte_more:
  assumes "n < 128"
  shows "unat (UINT8_SET_BIT (of_nat n :: byte) 7 AND 0x7F) = n" "UINT8_SET_BIT (of_nat n :: byte) 7 AND 0x80 \<noteq> 0"
proof -
  have "take_bit 7 (UINT8_SET_BIT (of_nat n :: byte) 7) = take_bit 7 (of_nat n)"
    by (rule bit_word_eqI) (auto simp: UINT8_SET_BIT_def bit_simps)
  then show "unat (UINT8_SET_BIT (of_nat n :: byte) 7 AND 0x7F) = n" by (simp add: and_7F take_bit_7 [OF assms])
  show "UINT8_SET_BIT (of_nat n :: byte) 7 AND 0x80 \<noteq> 0"
    unfolding and_80 by (simp add: UINT8_SET_BIT_def bit_simps)
qed

section \<open>The remaining length\<close>

lemma process_loop_step:
  assumes "k \<le> 3" "k + 1 < index" "drop (k + 1) buf = b # rest"
    "remLen + unat (b AND 0x7F) * 128 ^ k \<noteq> MQTT_REMAINING_LENGTH_INVALID"
  shows "process_length_loop buf index remLen k =
    (if b AND 0x80 \<noteq> 0 then process_length_loop buf index (remLen + unat (b AND 0x7F) * 128 ^ k) (k + 1)
     else Some (MQTTSuccess, remLen + unat (b AND 0x7F) * 128 ^ k, k + 1))"
proof -
  have "k + 1 < length buf" using assms(3) by (metis drop_all list.simps(3) not_le_imp_less)
  moreover have "buf ! (k + 1) = b" using assms(3) calculation by (metis hd_drop_conv_nth list.sel(1))
  ultimately have "rd buf (k + 1) = Some b" by (simp add: rd_def)
  then show ?thesis
    using assms(1,2,4) multiplier_le [of k] by (subst process_length_loop.simps) (simp add: Let_def not_less)
qed

lemma decoded_bound: "remLen < 128 ^ k \<Longrightarrow> d < 128 \<Longrightarrow> remLen + d * 128 ^ k < (128::nat) ^ (k + 1)"
proof -
  assume r: "remLen < 128 ^ k" and d: "d < 128"
  have "remLen + d * 128 ^ k < (d + 1) * 128 ^ k" using r by simp
  also have "\<dots> \<le> 128 * 128 ^ k" using d by (intro mult_le_mono1) simp
  finally show ?thesis by simp
qed

lemma not_invalid: "k \<le> 3 \<Longrightarrow> n < (128::nat) ^ (k + 1) \<Longrightarrow> n \<noteq> MQTT_REMAINING_LENGTH_INVALID"
proof -
  assume "k \<le> 3" "n < (128::nat) ^ (k + 1)"
  moreover have "(128::nat) ^ (k + 1) \<le> 128 ^ 4" using \<open>k \<le> 3\<close> by (intro power_increasing) simp_all
  ultimately show ?thesis by simp
qed

lemma digit_lt: "unat ((b :: byte) AND 0x7F) < 128"
proof -
  have "unat (b AND 0x7F) = take_bit 7 (unat b)" by (simp add: and_7F unsigned_take_bit_eq)
  then show ?thesis using take_bit_nat_less_exp [of 7 "unat b"] by simp
qed

lemma process_loop_bytes:
  assumes "drop (k + 1) buf = length_bytes n @ rest" "k + 1 + length (length_bytes n) \<le> index"
    "k \<le> 3" "n < 128 ^ (4 - k)" "remLen < 128 ^ k"
  shows "process_length_loop buf index remLen k =
    Some (MQTTSuccess, remLen + n * 128 ^ k, k + length (length_bytes n))"
  using assms
proof (induction n arbitrary: k remLen rule: length_bytes.induct)
  case (1 n)
  let ?d = "n mod 128"
  have bound: "remLen + ?d * 128 ^ k < 128 ^ (k + 1)" using 1(6) by (intro decoded_bound) simp_all
  have d: "?d < 128" by simp
  show ?case
  proof (cases "n div 128 > 0")
    case True
    let ?b = "UINT8_SET_BIT (of_nat ?d) 7 :: byte"
    have b: "unat (?b AND 0x7F) = ?d" "?b AND 0x80 \<noteq> 0" using length_byte_more [OF d] by auto
    have e: "length_bytes n = ?b # length_bytes (n div 128)" using True by (subst length_bytes.simps) simp
    have k: "k < 3"
    proof (rule ccontr)
      assume "\<not> k < 3"
      then have "k = 3" using 1(4) by simp
      with 1(5) True show False by simp
    qed
    have n: "n div 128 < 128 ^ (4 - (k + 1))"
    proof (rule less_mult_imp_div_less)
      have "4 - k = Suc (4 - (k + 1))" using k by simp
      then have "(128::nat) ^ (4 - k) = 128 ^ (4 - (k + 1)) * 128" by (simp only: power_Suc mult.commute)
      with 1(5) show "n < 128 ^ (4 - (k + 1)) * 128" by simp
    qed
    have dr: "drop (k + 1) buf = ?b # length_bytes (n div 128) @ rest" using 1(2) e by simp
    then have dr2: "drop (k + 1 + 1) buf = length_bytes (n div 128) @ rest"
      by (metis drop_Suc_Cons drop_drop drop0 add.commute plus_1_eq_Suc One_nat_def)
    have idx: "k + 1 < index" "k + 1 + 1 + length (length_bytes (n div 128)) \<le> index" using 1(3) e by auto
    have ih: "process_length_loop buf index (remLen + ?d * 128 ^ k) (k + 1) =
      Some (MQTTSuccess, remLen + ?d * 128 ^ k + n div 128 * 128 ^ (k + 1), k + 1 + length (length_bytes (n div 128)))"
      using 1(1) [OF True dr2 idx(2) _ n bound] k by simp
    have "a * 128 ^ k + q * 128 ^ (k + 1) = (128 * q + a) * 128 ^ k" for a q :: nat by (simp add: algebra_simps)
    from this [of ?d "n div 128"]
    have "remLen + ?d * 128 ^ k + n div 128 * 128 ^ (k + 1) = remLen + n * 128 ^ k" by simp
    then show ?thesis
      using ih process_loop_step [OF 1(4) idx(1) dr, of remLen] b not_invalid [OF 1(4) bound] e by simp
  next
    case False
    let ?b = "of_nat ?d :: byte"
    have b: "unat (?b AND 0x7F) = ?d" "?b AND 0x80 = 0" using length_byte_last [OF d] by auto
    have e: "length_bytes n = [?b]" using False by (subst length_bytes.simps) simp
    have n: "?d = n" using False by (simp add: div_eq_0_iff)
    have "k + 1 < index" "drop (k + 1) buf = ?b # rest" using 1(2,3) e by auto
    from process_loop_step [OF 1(4) this, of remLen] show ?thesis
      using b not_invalid [OF 1(4) bound] e n by simp
  qed
qed

text \<open>A fixed number of digits, every one but the last with the continuation bit.\<close>

fun digits :: "nat \<Rightarrow> nat \<Rightarrow> byte list" where
  "digits 0 n = []"
| "digits (Suc 0) n = [of_nat n]"
| "digits (Suc m) n = UINT8_SET_BIT (of_nat (n mod 128)) 7 # digits m (n div 128)"

lemma byte_of_digit:
  "(b :: byte) AND 0x80 \<noteq> 0 \<Longrightarrow> UINT8_SET_BIT (of_nat (unat (b AND 0x7F))) 7 = b"
  "b AND 0x80 = 0 \<Longrightarrow> of_nat (unat (b AND 0x7F)) = b"
proof -
  show "UINT8_SET_BIT (of_nat (unat (b AND 0x7F))) 7 = b" if "b AND 0x80 \<noteq> 0"
    using that unfolding and_80 and_7F
    by (intro bit_word_eqI) (auto simp: UINT8_SET_BIT_def bit_simps less_Suc_eq numeral_eq_Suc)
  show "of_nat (unat (b AND 0x7F)) = b" if "b AND 0x80 = 0"
  proof -
    have "\<not> bit b 7" using that and_80 by blast
    then show ?thesis unfolding and_7F
      by (intro bit_word_eqI) (auto simp: bit_simps less_Suc_eq numeral_eq_Suc)
  qed
qed

lemma process_loop_total: "index \<le> length buf \<Longrightarrow> process_length_loop buf index remLen k \<noteq> None"
  by (induction buf index remLen k rule: process_length_loop.induct)
    (subst process_length_loop.simps, simp add: rd_def Let_def)

lemma process_loop_digits:
  assumes "process_length_loop buf index remLen k = Some (MQTTSuccess, r, d)" "remLen < 128 ^ k" "index \<le> length buf"
  shows "k < d \<and> d \<le> 4 \<and> d < index \<and>
    (\<exists>n < 128 ^ (d - k). r = remLen + n * 128 ^ k \<and> take (d - k) (drop (k + 1) buf) = digits (d - k) n)"
  using assms
proof (induction buf index remLen k rule: process_length_loop.induct)
  case (1 buf index remLen k)
  have k: "k \<le> 3" "k + 1 < index"
    using 1(2) multiplier_le [of k] by (subst (asm) process_length_loop.simps; simp split: if_splits)+
  obtain b rest where b: "drop (k + 1) buf = b # rest" using 1(4) k by (cases "drop (k + 1) buf") auto
  let ?d = "unat (b AND 0x7F)" and ?r = "remLen + unat (b AND 0x7F) * 128 ^ k"
  have bound: "?r < 128 ^ (k + 1)" using 1(3) digit_lt by (rule decoded_bound)
  have ninv: "?r \<noteq> MQTT_REMAINING_LENGTH_INVALID" by (rule not_invalid [OF k(1) bound])
  note step = process_loop_step [OF k b ninv]
  show ?case
  proof (cases "b AND 0x80 \<noteq> 0")
    case True
    have rdb: "rd buf (k + 1) = Some b"
      using b k 1(4) by (simp add: rd_def) (metis Cons_nth_drop_Suc One_nat_def Suc_eq_plus1 less_le_trans list.inject)
    from 1(2) step True have "process_length_loop buf index ?r (k + 1) = Some (MQTTSuccess, r, d)" by simp
    from 1(1) [OF _ k(2) rdb refl refl ninv True this bound 1(4)] multiplier_le [of k] k(1)
    obtain n where n: "k + 1 < d" "d \<le> 4" "d < index" "n < 128 ^ (d - (k + 1))" "r = ?r + n * 128 ^ (k + 1)"
      "take (d - (k + 1)) (drop (k + 1 + 1) buf) = digits (d - (k + 1)) n" by auto
    let ?n = "?d + 128 * n"
    obtain m where m: "d - k = Suc (Suc m)" "d - (k + 1) = Suc m" using n(1) by (metis Suc_diff_Suc Suc_eq_plus1 Suc_lessD)
    have "drop (k + 1 + 1) buf = rest" using b by (metis drop_Suc_Cons drop_drop drop0 add.commute plus_1_eq_Suc One_nat_def)
    then have "take (d - k) (drop (k + 1) buf) = b # digits (Suc m) n" using b n(6) m by simp
    also have "\<dots> = digits (d - k) ?n" using m byte_of_digit(1) [OF True] digit_lt [of b] by simp
    finally have "take (d - k) (drop (k + 1) buf) = digits (d - k) ?n" .
    moreover have "?n < 128 ^ (d - k)"
    proof -
      have "?n < 128 * (n + 1)" using digit_lt [of b] by simp
      also have "\<dots> \<le> 128 * 128 ^ (d - (k + 1))" using n(4) by simp
      finally show ?thesis using m by simp
    qed
    moreover have "r = remLen + ?n * 128 ^ k" using n(5) by (simp add: algebra_simps)
    ultimately show ?thesis using n(1-3) by (intro conjI exI [of _ ?n]) auto
  next
    case False
    with 1(2) step have "r = ?r" "d = k + 1" by auto
    then show ?thesis using k b byte_of_digit(2) [of b] False digit_lt [of b] by auto
  qed
qed

lemma digits_length_bytes:
  "n < 128 ^ m \<Longrightarrow> remainingLengthEncodedSize n = m \<Longrightarrow> n \<le> 268435455 \<Longrightarrow> digits m n = length_bytes n"
proof -
  have dig: "0 < m \<Longrightarrow> length (length_bytes n) = m \<Longrightarrow> digits m n = length_bytes n" for m n
  proof (induction m arbitrary: n)
    case (Suc m)
    show ?case
    proof (cases "n div 128 > 0")
      case True
      then have l: "length_bytes n = UINT8_SET_BIT (of_nat (n mod 128)) 7 # length_bytes (n div 128)"
        by (subst length_bytes.simps) simp
      with Suc(3) have m: "length (length_bytes (n div 128)) = m" by simp
      then have "0 < m" by (subst (asm) length_bytes.simps) (auto split: if_splits)
      with Suc(1) [OF this m] l show ?thesis by (cases m) simp_all
    next
      case False
      then have "length_bytes n = [of_nat n]" by (subst length_bytes.simps) simp
      with Suc(3) show ?thesis by simp
    qed
  qed simp
  assume "n < 128 ^ m" "remainingLengthEncodedSize n = m" "n \<le> 268435455"
  then show ?thesis using dig length_length_bytes encoded_size_bounds(1) [of n] by simp
qed

section \<open>The fixed header\<close>

lemma process_header_ok:
  assumes "rl \<le> MQTT_MAX_REMAINING_LENGTH" "incomingPacketValid t" "1 + remainingLengthEncodedSize rl \<le> index"
  shows "MQTT_ProcessIncomingPacketTypeAndLength (t # length_bytes rl @ rest) index p =
    Some (MQTTSuccess, p \<lparr> packet_type := t, remainingLength := rl, headerLength := remainingLengthEncodedSize rl + 1 \<rparr>)"
proof -
  have l: "length (length_bytes rl) = remainingLengthEncodedSize rl" by (rule length_length_bytes [OF assms(1)])
  have "process_length_loop (t # length_bytes rl @ rest) index 0 0 =
      Some (MQTTSuccess, 0 + rl * 128 ^ 0, 0 + length (length_bytes rl))"
    using assms l by (intro process_loop_bytes) simp_all
  then show ?thesis
    using assms l by (simp add: MQTT_ProcessIncomingPacketTypeAndLength_def processRemainingLength_def rd_def)
qed

lemma process_header_inv:
  assumes "MQTT_ProcessIncomingPacketTypeAndLength buf index p = Some (MQTTSuccess, q)" "index \<le> length buf"
  obtains t rl rest where "buf = t # length_bytes rl @ rest" "rl \<le> MQTT_MAX_REMAINING_LENGTH" "incomingPacketValid t"
    "1 + remainingLengthEncodedSize rl \<le> index"
    "q = p \<lparr> packet_type := t, remainingLength := rl, headerLength := remainingLengthEncodedSize rl + 1 \<rparr>"
proof -
  obtain t bs where buf: "buf = t # bs"
    using assms by (cases buf) (auto simp: MQTT_ProcessIncomingPacketTypeAndLength_def split: if_splits)
  obtain rl d where loop: "process_length_loop buf index 0 0 = Some (MQTTSuccess, rl, d)"
    and d: "d = remainingLengthEncodedSize rl" and v: "incomingPacketValid t"
    and q: "q = p \<lparr> packet_type := t, remainingLength := rl, headerLength := d + 1 \<rparr>"
    using assms(1) buf
    by (auto simp: MQTT_ProcessIncomingPacketTypeAndLength_def processRemainingLength_def rd_def Let_def
        split: if_splits bind_splits)
  from process_loop_digits [OF loop _ assms(2)]
  have dg: "d \<le> 4" "d < index" "rl < 128 ^ d" "take d bs = digits d rl" by (auto simp: buf)
  have "(128::nat) ^ d \<le> 128 ^ 4" using dg(1) by (intro power_increasing) simp_all
  with dg(3) have rl: "rl \<le> MQTT_MAX_REMAINING_LENGTH" by simp
  with dg d have "take d bs = length_bytes rl" by (simp add: digits_length_bytes)
  then have "bs = length_bytes rl @ drop d bs" by (metis append_take_drop_id)
  with that [of t rl "drop d bs"] show thesis using buf rl v q d dg(2) by simp
qed

lemma put_block_same:
  "put_block bs (buf, i) = Some (buf, h) \<longleftrightarrow> (\<exists>pre rest. buf = pre @ bs @ rest \<and> length pre = i \<and> h = i + length bs)"
proof
  assume "put_block bs (buf, i) = Some (buf, h)"
  then have "i + length bs \<le> length buf" "h = i + length bs" "take i buf @ bs @ drop h buf = buf"
    by (auto simp: put_block_def split: if_splits)
  then show "\<exists>pre rest. buf = pre @ bs @ rest \<and> length pre = i \<and> h = i + length bs"
    by (intro exI [of _ "take i buf"] exI [of _ "drop h buf"]) auto
qed (auto simp: put_block_def)

text \<open>A transport whose pending bytes are a list.\<close>

fun stream_recv :: "byte list \<Rightarrow> int \<times> byte \<times> byte list" where
  "stream_recv [] = (0, 0, [])"
| "stream_recv (b # bs) = (1, b, bs)"

lemma stream_loop:
  assumes "remLen < 128 ^ k" "k + 1 \<le> length buf"
  shows "\<exists>st r d. process_length_loop buf (length buf) remLen k = Some (st, r, d) \<and>
    (st = MQTTSuccess \<longrightarrow> get_length_loop stream_recv (drop (k + 1) buf) remLen k = (r, d, drop (d + 1) buf)) \<and>
    (st \<noteq> MQTTSuccess \<longrightarrow> st \<in> {MQTTBadResponse, MQTTNeedMoreBytes} \<and>
      fst (get_length_loop stream_recv (drop (k + 1) buf) remLen k) = MQTT_REMAINING_LENGTH_INVALID)"
  using assms
proof (induction "4 - k" arbitrary: k remLen)
  case 0
  then have "\<not> k \<le> 3" by simp
  then have "(2097152::nat) < 128 ^ k" using multiplier_le [of k] by simp
  then show ?case
    by (subst process_length_loop.simps, subst (1 2) get_length_loop.simps) simp
next
  case (Suc m)
  then have k: "k \<le> 3" by simp
  then have mult: "\<not> (2097152::nat) < 128 ^ k" using multiplier_le [of k] by simp
  show ?case
  proof (cases "drop (k + 1) buf")
    case Nil
    then have "\<not> k + 1 < length buf" by simp
    then show ?thesis using mult Nil
      by (subst process_length_loop.simps, subst (1 2) get_length_loop.simps) simp
  next
    case (Cons b rest)
    then have idx: "k + 1 < length buf" by (metis drop_all list.simps(3) not_le_imp_less)
    let ?r = "remLen + unat (b AND 0x7F) * 128 ^ k"
    have bound: "?r < 128 ^ (k + 1)" using Suc(3) digit_lt by (rule decoded_bound)
    have ninv: "?r \<noteq> MQTT_REMAINING_LENGTH_INVALID" by (rule not_invalid [OF k bound])
    have rest: "drop (k + 1 + 1) buf = rest"
      using Cons by (metis drop_Suc_Cons drop_drop drop0 add.commute plus_1_eq_Suc One_nat_def)
    have g: "get_length_loop stream_recv (drop (k + 1) buf) remLen k =
        (if b AND 0x80 \<noteq> 0 then get_length_loop stream_recv rest ?r (k + 1) else (?r, k + 1, rest))"
      using mult ninv Cons by (subst get_length_loop.simps) (simp add: Let_def)
    show ?thesis
    proof (cases "b AND 0x80 \<noteq> 0")
      case True
      have "m = 4 - (k + 1)" using Suc(2) by simp
      from Suc(1) [OF this bound] idx rest True g process_loop_step [OF k idx Cons ninv]
      show ?thesis by simp
    next
      case False
      with g process_loop_step [OF k idx Cons ninv] rest show ?thesis by simp
    qed
  qed
qed

section \<open>PUBLISH\<close>

definition pub_wf :: "pub_info \<Rightarrow> bool" where
  "pub_wf i \<longleftrightarrow>
    (case pTopicName i of None \<Rightarrow> False | Some t \<Rightarrow> unat (topicNameLength i) \<le> length t) \<and>
    (payloadLength i > 0 \<longrightarrow> (case pPayload i of None \<Rightarrow> False | Some p \<Rightarrow> payloadLength i \<le> length p))"

definition topic :: "pub_info \<Rightarrow> byte list" where
  "topic i = take (unat (topicNameLength i)) (case pTopicName i of None \<Rightarrow> [] | Some t \<Rightarrow> t)"

definition payload :: "pub_info \<Rightarrow> byte list" where
  "payload i = take (payloadLength i) (case pPayload i of None \<Rightarrow> [] | Some p \<Rightarrow> p)"

definition publish_body :: "pub_info \<Rightarrow> 16 word \<Rightarrow> byte list" where
  "publish_body i pid = u16_bytes (topicNameLength i) @ topic i @ (if pi_qos i \<noteq> MQTTQoS0 then u16_bytes pid else [])"

lemma pub_wfE:
  assumes "pub_wf i"
  obtains t where "pTopicName i = Some t" "unat (topicNameLength i) \<le> length t"
    "str_bytes t (topicNameLength i) = u16_bytes (topicNameLength i) @ topic i" "length (topic i) = unat (topicNameLength i)"
    "payloadLength i = 0 \<and> payload i = [] \<or>
     (\<exists>p. pPayload i = Some p \<and> payloadLength i \<le> length p \<and> payload i = take (payloadLength i) p)"
  using assms that by (auto simp: pub_wf_def topic_def payload_def str_bytes_def split: option.splits)

lemma length_payload: "pub_wf i \<Longrightarrow> length (payload i) = payloadLength i"
  by (erule pub_wfE) auto

lemma length_publish_body:
  "pub_wf i \<Longrightarrow> length (publish_body i pid) = unat (topicNameLength i) + 2 + (if pi_qos i \<noteq> MQTTQoS0 then 2 else 0)"
  by (erule pub_wfE) (simp add: publish_body_def)

lemma serializePublishCommon_block:
  assumes "pub_wf i"
  shows "serializePublishCommon i rl pid buf sp =
    put_block (publish_flags i # length_bytes rl @ publish_body i pid @ (if sp then payload i else [])) (buf, 0)"
proof -
  from assms show ?thesis
  proof (cases rule: pub_wfE)
    case (1 t)
    let ?h = "publish_flags i # length_bytes rl @ str_bytes t (topicNameLength i)"
    have e: "serializePublishCommon i rl pid buf sp =
        put_block ?h (buf, 0) \<bind> (\<lambda>c. (if pi_qos i \<noteq> MQTTQoS0 then put16 pid c else Some c) \<bind>
          (\<lambda>c. if payloadLength i > 0 \<and> sp then pPayload i \<bind> (\<lambda>p. put_from p (payloadLength i) c) else Some c))"
      using 1(1,2) by (simp add: serializePublishCommon_def put8_block encodeRemainingLength_block encodeString_block)
    also have "\<dots> = put_block (?h @ (if pi_qos i \<noteq> MQTTQoS0 then u16_bytes pid else [])) (buf, 0) \<bind>
          (\<lambda>c. if payloadLength i > 0 \<and> sp then put_block (payload i) c else Some c)"
      using 1(5) by (auto simp: put16_block put_from_def intro!: Option.bind_cong)
    also have "\<dots> = put_block (?h @ (if pi_qos i \<noteq> MQTTQoS0 then u16_bytes pid else []) @ (if sp then payload i else [])) (buf, 0)"
      using 1(5) by (cases "payloadLength i > 0") auto
    finally show ?thesis using 1(3) by (simp add: publish_body_def)
  qed
qed

lemma publish_size:
  assumes "MQTT_GetPublishPacketSize i = (MQTTSuccess, Some (rl, sz))" "pub_wf i"
  shows "rl = length (publish_body i pid) + payloadLength i" "rl \<le> MQTT_MAX_REMAINING_LENGTH"
    "sz = 1 + remainingLengthEncodedSize rl + rl" "topicNameLength i \<noteq> 0" "sz < 2 ^ 32"
proof -
  have t: "unat (topicNameLength i) < 2 ^ 16" using unsigned_less [where ?'a = nat, of "topicNameLength i"] by simp
  from assms(1) have c: "calculatePublishPacketSize i = Some (rl, sz)" and n: "topicNameLength i \<noteq> 0"
    by (auto simp: MQTT_GetPublishPacketSize_def split: if_splits option.splits)
  show "rl = length (publish_body i pid) + payloadLength i" "sz = 1 + remainingLengthEncodedSize rl + rl"
    using c by (auto simp: calculatePublishPacketSize_def length_publish_body [OF assms(2)] Let_def split: if_splits)
  show rl: "rl \<le> MQTT_MAX_REMAINING_LENGTH"
    using c t by (auto simp: calculatePublishPacketSize_def Let_def split: if_splits)
  show "topicNameLength i \<noteq> 0" by (rule n)
  show "sz < 2 ^ 32"
    using rl \<open>sz = _\<close> encoded_size_bounds(2) [of rl] by simp
qed

lemma flags_roundtrip:
  "processPublishFlags (publish_flags i AND 0x0F) j = (MQTTSuccess, j \<lparr> pi_qos := pi_qos i, retain := retain i, dup := dup i \<rparr>)"
  by (cases "pi_qos i"; cases "retain i"; cases "dup i")
    (simp_all add: processPublishFlags_def publish_flags_def UINT8_SET_BIT_def UINT8_CHECK_BIT_def)

lemma flags_type: "publish_flags i AND 0xF0 = MQTT_PACKET_TYPE_PUBLISH" "incomingPacketValid (publish_flags i)"
  by (cases "pi_qos i"; cases "retain i"; cases "dup i";
      simp add: publish_flags_def UINT8_SET_BIT_def incomingPacketValid_def)+

lemma UINT16_DECODE_in: "k + 1 < length data \<Longrightarrow> \<exists>x. UINT16_DECODE data k = Some x \<and> take 2 (drop k data) = u16_bytes x"
proof -
  assume k: "k + 1 < length data"
  have hi: "UINT16_HIGH_BYTE (push_bit 8 (ucast a) OR ucast b) = a" for a b :: byte
    by (rule bit_word_eqI) (auto simp: UINT16_HIGH_BYTE_def bit_simps dest: bit_imp_le_length)
  have lo: "UINT16_LOW_BYTE (push_bit 8 (ucast a) OR ucast b) = b" for a b :: byte
    by (rule bit_word_eqI) (auto simp: low_byte bit_simps)
  have "take 2 (drop k data) = [data ! k, data ! (k + 1)]"
    using k by (simp add: numeral_2_eq_2 take_Suc_conv_app_nth)
  then show ?thesis using k by (simp add: UINT16_DECODE_def rd_def u16_bytes_def hi lo)
qed

lemma deserializePublish_ok:
  assumes "pub_wf i" "topicNameLength i \<noteq> 0" "pi_qos i \<noteq> MQTTQoS0 \<Longrightarrow> pid \<noteq> 0"
    "data = publish_body i pid @ payload i" "packet_type p = publish_flags i" "remainingLength p = length data"
  shows "deserializePublish p data pid0 j = Some (MQTTSuccess, if pi_qos i \<noteq> MQTTQoS0 then pid else pid0,
    j \<lparr> pi_qos := pi_qos i, retain := retain i, dup := dup i, topicNameLength := topicNameLength i,
        pTopicName := Some (drop 2 data), payloadLength := payloadLength i,
        pPayload := (if payloadLength i \<noteq> 0 then Some (payload i) else None) \<rparr>)"
proof -
  let ?t = "unat (topicNameLength i)"
  have t: "0 < ?t" using assms(2) by (simp add: unat_gt_0)
  have lt: "length (topic i) = ?t" using assms(1) by (rule pub_wfE)
  have len: "length data = ?t + 2 + (if pi_qos i \<noteq> MQTTQoS0 then 2 else 0) + payloadLength i"
    using assms(1,4) by (simp add: length_publish_body length_payload)
  have d0: "UINT16_DECODE data 0 = Some (topicNameLength i)"
    using assms(4) by (intro decode_at [where rest = "drop 2 data"]) (simp add: publish_body_def)
  have d1: "UINT16_DECODE data (2 + ?t) = Some pid" if "pi_qos i \<noteq> MQTTQoS0"
    using that assms(4) lt by (intro decode_at [where rest = "payload i"]) (simp add: publish_body_def)
  have pl: "drop (2 + ?t + (if pi_qos i \<noteq> MQTTQoS0 then 2 else 0)) data = payload i"
    using assms(4) lt by (simp add: publish_body_def)
  show ?thesis
  proof (cases "pi_qos i = MQTTQoS0")
    case True
    then show ?thesis
      using t len d0 pl assms(5,6)
      by (simp add: deserializePublish_def flags_roundtrip checkPublishRemainingLength_def Let_def)
  next
    case False
    then show ?thesis
      using t len d0 d1 pl assms(3,5,6)
      by (simp add: deserializePublish_def flags_roundtrip checkPublishRemainingLength_def Let_def)
  qed
qed

lemma flags_status: "processPublishFlags f j = (st, k) \<Longrightarrow> st = MQTTSuccess \<or> st = MQTTBadResponse"
  by (auto simp: processPublishFlags_def Let_def split: if_splits)

lemma take_split4:
  assumes "a + b + c \<le> n"
  shows "take n d = take a d @ take b (drop a d) @ take c (drop (a + b) d) @ take (n - (a + b + c)) (drop (a + b + c) d)"
proof -
  obtain m where "n = a + (b + (c + m))" using assms by (metis add.assoc le_Suc_ex)
  then show ?thesis by (simp add: take_add ac_simps)
qed

lemma deserializePublish_parse:
  assumes "remainingLength p \<le> length data"
  obtains (bad) pid' k where "deserializePublish p data pid j = Some (MQTTBadResponse, pid', k)"
  | (good) pid' k where "deserializePublish p data pid j = Some (MQTTSuccess, pid', k)"
      "take (remainingLength p) data = publish_body k pid' @ payload k" "pub_wf k" "pi_qos k \<noteq> MQTTQoS0 \<Longrightarrow> pid' \<noteq> 0"
proof -
  obtain st k where f: "processPublishFlags (packet_type p AND 0x0F) j = (st, k)" by fastforce
  let ?rl = "remainingLength p" and ?q = "pi_qos k \<noteq> MQTTQoS0"
  show thesis
  proof (cases "st = MQTTSuccess \<and> checkPublishRemainingLength ?rl (pi_qos k) 3 = MQTTSuccess")
    case False
    then show ?thesis using f flags_status [OF f] by (intro bad [of pid k]) (auto simp: deserializePublish_def Let_def)
  next
    case True
    then have l3: "3 + (if ?q then 2 else 0) \<le> ?rl"
      by (auto simp: checkPublishRemainingLength_def split: if_splits)
    with assms obtain tl where tl: "UINT16_DECODE data 0 = Some tl" "take 2 data = u16_bytes tl"
      using UINT16_DECODE_in [of 0 data] by auto
    let ?k = "k \<lparr> topicNameLength := tl \<rparr>" and ?t = "unat tl"
    show ?thesis
    proof (cases "checkPublishRemainingLength ?rl (pi_qos k) (?t + 2) = MQTTSuccess")
      case False
      then show ?thesis using f True tl by (intro bad [of pid ?k]) (auto simp: deserializePublish_def Let_def)
    next
      case chk: True
      then have lt: "?t + 2 + (if ?q then 2 else 0) \<le> ?rl"
        by (auto simp: checkPublishRemainingLength_def split: if_splits)
      obtain x where x: "?q \<Longrightarrow> UINT16_DECODE data (2 + ?t) = Some x \<and> take 2 (drop (2 + ?t) data) = u16_bytes x"
        using UINT16_DECODE_in [of "2 + ?t" data] lt assms by (cases ?q) auto
      show ?thesis
      proof (cases "?q \<and> x = 0")
        case True
        with f tl x chk \<open>st = _ \<and> _\<close> show ?thesis
          by (intro bad [of 0 "?k \<lparr> pTopicName := Some (drop 2 data) \<rparr>"]) (auto simp: deserializePublish_def Let_def)
      next
        case False
        let ?at = "2 + ?t + (if ?q then 2 else 0)"
        let ?j = "?k \<lparr> pTopicName := Some (drop 2 data), payloadLength := ?rl - ?at,
          pPayload := (if ?rl - ?at \<noteq> 0 then Some (drop ?at data) else None) \<rparr>"
        have res: "deserializePublish p data pid j = Some (MQTTSuccess, if ?q then x else pid, ?j)"
        proof (cases ?q)
          case q: True
          have m: "?rl - ?t - 2 - 2 = ?rl - ?at" "2 + ?t + 2 = ?at" using q by simp_all
          show ?thesis using f tl x chk \<open>st = _ \<and> _\<close> False q m
            by (simp add: deserializePublish_def Let_def)
        next
          case q: False
          have m: "?rl - ?t - 2 = ?rl - ?at" "2 + ?t = ?at" using q by simp_all
          show ?thesis using f tl x chk \<open>st = _ \<and> _\<close> False q m
            by (simp add: deserializePublish_def Let_def)
        qed
        have tp: "topic ?j = take ?t (drop 2 data)" by (simp add: topic_def)
        have py: "payload ?j = take (?rl - ?at) (drop ?at data)" by (simp add: payload_def)
        have "take ?rl data = publish_body ?j (if ?q then x else pid) @ payload ?j"
          using take_split4 [of 2 ?t "if ?q then 2 else 0" ?rl data] lt tl x tp py
          by (auto simp: publish_body_def)
        moreover have "pub_wf ?j" using lt assms by (auto simp: pub_wf_def)
        ultimately show ?thesis using False res by (intro good [of "if ?q then x else pid" ?j]) auto
      qed
    qed
  qed
qed

section \<open>CONNECT, SUBSCRIBE, UNSUBSCRIBE\<close>

definition str_ok :: "byte list option \<Rightarrow> 16 word \<Rightarrow> bool" where
  "str_ok src n = (case src of None \<Rightarrow> n = 0 | Some s \<Rightarrow> unat n \<le> length s)"

definition opt_bytes :: "byte list option \<Rightarrow> 16 word \<Rightarrow> byte list" where
  "opt_bytes src n = str_bytes (case src of None \<Rightarrow> [] | Some s \<Rightarrow> s) n"

lemma encodeString_ok:
  assumes "str_ok src n"
  shows "encodeString src n = put_block (opt_bytes src n)" "length (opt_bytes src n) = unat n + 2"
proof -
  show "encodeString src n = put_block (opt_bytes src n)"
  proof (cases src)
    case None
    then show ?thesis using assms
      by (intro ext) (simp add: encodeString_def str_ok_def opt_bytes_def str_bytes_def u16_bytes_def put8_block)
  qed (use assms in \<open>simp add: str_ok_def opt_bytes_def encodeString_block\<close>)
  show "length (opt_bytes src n) = unat n + 2"
    using assms by (auto simp: str_ok_def opt_bytes_def split: option.splits)
qed

definition connect_wf :: "connect_info \<Rightarrow> pub_info option \<Rightarrow> bool" where
  "connect_wf ci will \<longleftrightarrow>
    str_ok (pClientIdentifier ci) (clientIdentifierLength ci) \<and>
    (pUserName ci \<noteq> None \<longrightarrow> str_ok (pUserName ci) (userNameLength ci)) \<and>
    (pPassword ci \<noteq> None \<longrightarrow> str_ok (pPassword ci) (passwordLength ci)) \<and>
    (case will of None \<Rightarrow> True | Some w \<Rightarrow> pTopicName w \<noteq> None \<and> str_ok (pTopicName w) (topicNameLength w) \<and>
      str_ok (pPayload w) (of_nat (payloadLength w)))"

text \<open>The flag byte as section 3.1.2.3 of MQTT 3.1.1 lays it out, bit by bit from the left.\<close>

definition connect_flag_byte :: "connect_info \<Rightarrow> pub_info option \<Rightarrow> byte" where
  "connect_flag_byte ci will =
    of_bool (pUserName ci \<noteq> None) * 128 + of_bool (pPassword ci \<noteq> None) * 64 +
    (case will of None \<Rightarrow> 0
     | Some w \<Rightarrow> of_bool (retain w) * 32 + (case pi_qos w of MQTTQoS0 \<Rightarrow> 0 | MQTTQoS1 \<Rightarrow> 1 | MQTTQoS2 \<Rightarrow> 2) * 8 + 4) +
    of_bool (cleanSession ci) * 2"

lemma connect_flags_spec: "connect_flags ci will = connect_flag_byte ci will"
proof (cases will)
  case None
  then show ?thesis
    by (cases "cleanSession ci"; cases "pUserName ci"; cases "pPassword ci")
      (simp_all add: connect_flags_def connect_flag_byte_def UINT8_SET_BIT_def push_bit_eq_mult)
next
  case (Some w)
  then show ?thesis
    by (cases "cleanSession ci"; cases "pUserName ci"; cases "pPassword ci"; cases "retain w"; cases "pi_qos w")
      (simp_all add: connect_flags_def connect_flag_byte_def UINT8_SET_BIT_def push_bit_eq_mult)
qed

definition connect_body :: "connect_info \<Rightarrow> pub_info option \<Rightarrow> byte list" where
  "connect_body ci will =
    [0, 4, 0x4D, 0x51, 0x54, 0x54, 4, connect_flag_byte ci will] @ u16_bytes (keepAliveSeconds ci) @
    opt_bytes (pClientIdentifier ci) (clientIdentifierLength ci) @
    (case will of None \<Rightarrow> []
     | Some w \<Rightarrow> opt_bytes (pTopicName w) (topicNameLength w) @ opt_bytes (pPayload w) (of_nat (payloadLength w))) @
    (if pUserName ci \<noteq> None then opt_bytes (pUserName ci) (userNameLength ci) else []) @
    (if pPassword ci \<noteq> None then opt_bytes (pPassword ci) (passwordLength ci) else [])"

lemma mqtt_string: "encodeString (Some [0x4D, 0x51, 0x54, 0x54]) 4 = put_block [0, 4, 0x4D, 0x51, 0x54, 0x54]"
proof -
  have "UINT16_HIGH_BYTE 4 = 0" "UINT16_LOW_BYTE 4 = 4" by (simp_all add: UINT16_HIGH_BYTE_def UINT16_LOW_BYTE_def)
  moreover have "take 4 [0x4D, 0x51, 0x54, 0x54] = [0x4D, 0x51, 0x54, 0x54 :: byte]" by simp
  ultimately show ?thesis
    by (subst encodeString_ok) (simp_all add: str_ok_def opt_bytes_def str_bytes_def u16_bytes_def)
qed

lemma connect_header_block:
  "MQTT_SerializeConnectFixedHeader c ci will rl =
    put_block (MQTT_PACKET_TYPE_CONNECT # length_bytes rl @ [0, 4, 0x4D, 0x51, 0x54, 0x54, 4, connect_flag_byte ci will] @
      u16_bytes (keepAliveSeconds ci)) c"
  by (simp add: MQTT_SerializeConnectFixedHeader_def connect_flags_spec put8_block encodeRemainingLength_block mqtt_string put16_block)

lemma serializeConnectPacket_block:
  assumes "connect_wf ci will"
  shows "serializeConnectPacket ci will rl buf =
    put_block (MQTT_PACKET_TYPE_CONNECT # length_bytes rl @ connect_body ci will) (buf, 0)"
proof -
  have u: "pUserName ci \<noteq> None \<Longrightarrow> str_ok (pUserName ci) (userNameLength ci)"
    and p: "pPassword ci \<noteq> None \<Longrightarrow> str_ok (pPassword ci) (passwordLength ci)"
    and c: "str_ok (pClientIdentifier ci) (clientIdentifierLength ci)"
    using assms by (auto simp: connect_wf_def)
  show ?thesis
  proof (cases will)
    case None
    then show ?thesis
      using u p c by (cases "pUserName ci = None"; cases "pPassword ci = None")
        (simp_all add: serializeConnectPacket_def connect_header_block connect_body_def encodeString_ok)
  next
    case (Some w)
    then have w: "str_ok (pTopicName w) (topicNameLength w)" "str_ok (pPayload w) (of_nat (payloadLength w))"
      using assms by (auto simp: connect_wf_def)
    show ?thesis
      using Some u p c w by (cases "pUserName ci = None"; cases "pPassword ci = None")
        (simp_all add: serializeConnectPacket_def connect_header_block connect_body_def encodeString_ok)
  qed
qed

lemma unat_16: "unat (n :: 16 word) < 65536"
  using unsigned_less [where ?'a = nat, of n] by simp

lemma connect_size:
  assumes "connect_wf ci will" "MQTT_GetConnectPacketSize ci will = (MQTTSuccess, Some (rl, sz))"
  shows "rl = length (connect_body ci will)" "sz = 1 + remainingLengthEncodedSize rl + rl" "rl \<le> 327695" "sz \<le> 327699"
proof -
  have pl: "unat (of_nat (payloadLength w) :: 16 word) = payloadLength w" if "will = Some w" for w
    using that assms(2) by (auto simp: MQTT_GetConnectPacketSize_def unat_of_nat Let_def split: if_splits)
  have u: "pUserName ci \<noteq> None \<Longrightarrow> str_ok (pUserName ci) (userNameLength ci)"
    and p: "pPassword ci \<noteq> None \<Longrightarrow> str_ok (pPassword ci) (passwordLength ci)"
    and c: "str_ok (pClientIdentifier ci) (clientIdentifierLength ci)"
    and w: "will = Some w \<Longrightarrow> str_ok (pTopicName w) (topicNameLength w) \<and> str_ok (pPayload w) (of_nat (payloadLength w))" for w
    using assms(1) by (auto simp: connect_wf_def)
  show rl: "rl = length (connect_body ci will)"
    using assms(2) pl u p c w
    by (cases will; cases "pUserName ci = None"; cases "pPassword ci = None")
      (auto simp: MQTT_GetConnectPacketSize_def connect_body_def encodeString_ok(2) Let_def split: if_splits)
  show sz: "sz = 1 + remainingLengthEncodedSize rl + rl"
    using assms(2) by (auto simp: MQTT_GetConnectPacketSize_def Let_def split: if_splits)
  have will: "will = Some w \<Longrightarrow> payloadLength w \<le> 65535" for w
    using assms(2) by (auto simp: MQTT_GetConnectPacketSize_def split: if_splits)
  have "rl \<le> 10 + 65537 + (65537 + 65537) + 65537 + 65537"
    using assms(2) unat_16 [of "clientIdentifierLength ci"] unat_16 [of "userNameLength ci"] unat_16 [of "passwordLength ci"]
      will unat_16 [of "topicNameLength (the will)"]
    by (cases will) (auto simp: MQTT_GetConnectPacketSize_def Let_def split: if_splits)
  then show "rl \<le> 327695" by simp
  then have "remainingLengthEncodedSize rl \<le> 3" by (simp add: remainingLengthEncodedSize_def)
  with sz \<open>rl \<le> 327695\<close> show "sz \<le> 327699" by simp
qed

definition sub_good :: "sub_info \<Rightarrow> bool" where
  "sub_good s \<longleftrightarrow> topicFilterLength s \<noteq> 0 \<and> pTopicFilter s \<noteq> None"

definition sub_bytes :: "subscription_type \<Rightarrow> sub_info \<Rightarrow> byte list" where
  "sub_bytes ty s = opt_bytes (pTopicFilter s) (topicFilterLength s) @ (if ty = MQTT_SUBSCRIBE then [qos_code (sub_qos s)] else [])"

definition sub_body :: "subscription_type \<Rightarrow> sub_info list \<Rightarrow> byte list" where
  "sub_body ty subs = concat (map (sub_bytes ty) subs)"

definition subs_wf :: "sub_info list \<Rightarrow> bool" where
  "subs_wf = list_all (\<lambda>s. str_ok (pTopicFilter s) (topicFilterLength s))"

lemma sub_body_simps [simp]: "sub_body ty [] = []" "sub_body ty (s # ss) = sub_bytes ty s @ sub_body ty ss"
  by (simp_all add: sub_body_def)

lemma put_subscriptions_block:
  "subs_wf subs \<Longrightarrow> put_block xs c \<bind> put_subscriptions subs = put_block (xs @ sub_body MQTT_SUBSCRIBE subs) c"
proof (induction subs arbitrary: xs)
  case (Cons s ss)
  then show ?case by (simp add: subs_wf_def encodeString_ok put8_block sub_bytes_def)
next
  case Nil
  show ?case by (cases "put_block xs c") simp_all
qed

lemma put_filters_block:
  "subs_wf subs \<Longrightarrow> put_block xs c \<bind> put_filters subs = put_block (xs @ sub_body MQTT_UNSUBSCRIBE subs) c"
proof (induction subs arbitrary: xs)
  case (Cons s ss)
  then show ?case by (simp add: subs_wf_def encodeString_ok sub_bytes_def)
next
  case Nil
  show ?case by (cases "put_block xs c") simp_all
qed

lemma serializeSubscribe_block:
  assumes "subs_wf subs" "validateSubscriptionSerializeParams subs pid rl buf = MQTTSuccess"
  shows "MQTT_SerializeSubscribe subs pid rl buf =
      put_block (MQTT_PACKET_TYPE_SUBSCRIBE # length_bytes rl @ u16_bytes pid @ sub_body MQTT_SUBSCRIBE subs) (buf, 0) \<bind>
        (\<lambda>c. Some (MQTTSuccess, fst c))"
    "MQTT_SerializeUnsubscribe subs pid rl buf =
      put_block (MQTT_PACKET_TYPE_UNSUBSCRIBE # length_bytes rl @ u16_bytes pid @ sub_body MQTT_UNSUBSCRIBE subs) (buf, 0) \<bind>
        (\<lambda>c. Some (MQTTSuccess, fst c))"
proof -
  have s: "(put_block xs c \<bind> (\<lambda>c. put_subscriptions subs c \<bind> f)) = (put_block (xs @ sub_body MQTT_SUBSCRIBE subs) c \<bind> f)"
    and u: "(put_block xs c \<bind> (\<lambda>c. put_filters subs c \<bind> f)) = (put_block (xs @ sub_body MQTT_UNSUBSCRIBE subs) c \<bind> f)"
    for xs c and f :: "cursor \<Rightarrow> (mqtt_status \<times> byte list) option"
    unfolding put_subscriptions_block [OF assms(1), symmetric] put_filters_block [OF assms(1), symmetric]
    by (simp_all only: Option.bind_assoc)
  show "MQTT_SerializeSubscribe subs pid rl buf =
      put_block (MQTT_PACKET_TYPE_SUBSCRIBE # length_bytes rl @ u16_bytes pid @ sub_body MQTT_SUBSCRIBE subs) (buf, 0) \<bind>
        (\<lambda>c. Some (MQTTSuccess, fst c))"
    using assms(2) by (simp add: MQTT_SerializeSubscribe_def MQTT_SerializeSubscribeHeader_def put8_block
        encodeRemainingLength_block put16_block s)
  show "MQTT_SerializeUnsubscribe subs pid rl buf =
      put_block (MQTT_PACKET_TYPE_UNSUBSCRIBE # length_bytes rl @ u16_bytes pid @ sub_body MQTT_UNSUBSCRIBE subs) (buf, 0) \<bind>
        (\<lambda>c. Some (MQTTSuccess, fst c))"
    using assms(2) by (simp add: MQTT_SerializeUnsubscribe_def MQTT_SerializeUnsubscribeHeader_def put8_block
        encodeRemainingLength_block put16_block u)
qed

lemma subscription_status: "fst (subscription_size ty subs st ps) = (if list_all sub_good subs then st else MQTTBadParameter)"
  by (induction subs arbitrary: st ps) (auto simp: sub_good_def Let_def)

lemma subscription_size_nowrap:
  "subs_wf subs \<Longrightarrow> ps + length (sub_body ty subs) < 2 ^ 32 \<Longrightarrow>
   snd (subscription_size ty subs st ps) = ps + length (sub_body ty subs)"
proof (induction subs arbitrary: st ps)
  case (Cons s ss)
  have l: "length (sub_bytes ty s) = unat (topicFilterLength s) + 2 + (if ty = MQTT_SUBSCRIBE then 1 else 0)"
    using Cons(2) by (simp add: subs_wf_def sub_bytes_def encodeString_ok(2))
  have ss: "subs_wf ss" using Cons(2) by (simp add: subs_wf_def)
  let ?n = "ps + (unat (topicFilterLength s) + 2)"
  have sum: "ps + length (sub_bytes ty s) = (if ty = MQTT_SUBSCRIBE then ?n + 1 else ?n)" using l by simp
  have "ps + length (sub_bytes ty s) < 2 ^ 32" using Cons(3) by simp
  then have n: "szt ?n = ?n" "ty = MQTT_SUBSCRIBE \<Longrightarrow> szt (?n + 1) = ?n + 1"
    unfolding sum szt_def by (auto simp only: mod_less split: if_splits)
  have "\<exists>st'. subscription_size ty (s # ss) st ps = subscription_size ty ss st' (ps + length (sub_bytes ty s))"
    unfolding sum subscription_size.simps Let_def n(1) using n(2) by auto
  then show ?case using Cons(1) [OF ss, of "ps + length (sub_bytes ty s)"] Cons(3) by auto
qed simp

lemma sub_body_bound: "subs_wf subs \<Longrightarrow> length (sub_body ty subs) \<le> 65538 * length subs"
proof (induction subs)
  case (Cons s ss)
  have "length (sub_bytes ty s) \<le> 65538"
    using Cons(2) unat_16 [of "topicFilterLength s"] by (simp add: subs_wf_def sub_bytes_def encodeString_ok(2))
  moreover have "length (sub_body ty ss) \<le> 65538 * length ss" using Cons by (simp add: subs_wf_def)
  ultimately show ?case by simp
qed simp

lemma calculateSubscription_ok:
  assumes "subs_wf subs" "length subs \<le> 65530" "calculateSubscriptionPacketSize subs ty = (MQTTSuccess, Some (rl, sz))"
  shows "rl = 2 + length (sub_body ty subs)" "rl \<le> MQTT_MAX_REMAINING_LENGTH" "sz = 1 + remainingLengthEncodedSize rl + rl"
    "list_all sub_good subs"
proof -
  obtain st ps where s: "subscription_size ty subs MQTTSuccess 2 = (st, ps)" by fastforce
  have "2 + length (sub_body ty subs) \<le> 2 + 65538 * 65530"
    using sub_body_bound [OF assms(1), of ty] assms(2) by linarith
  then have "2 + length (sub_body ty subs) < 2 ^ 32" by simp
  from subscription_size_nowrap [OF assms(1) this, of MQTTSuccess] s have ps: "ps = 2 + length (sub_body ty subs)" by simp
  show "rl = 2 + length (sub_body ty subs)" "rl \<le> MQTT_MAX_REMAINING_LENGTH" "sz = 1 + remainingLengthEncodedSize rl + rl"
    using assms(3) s ps by (auto simp: calculateSubscriptionPacketSize_def split: if_splits)
  show "list_all sub_good subs"
    using assms(3) s subscription_status [of ty subs MQTTSuccess 2]
    by (auto simp: calculateSubscriptionPacketSize_def split: if_splits)
qed

lemma szt_small [simp]: "rl \<le> MQTT_MAX_REMAINING_LENGTH \<Longrightarrow> szt (Suc (remainingLengthEncodedSize rl + rl)) = Suc (remainingLengthEncodedSize rl + rl)"
  using encoded_size_bounds(2) [of rl] by (simp add: szt_def)

lemma pub_wf_args:
  "pub_wf i \<Longrightarrow> \<not> (payloadLength i > 0 \<and> pPayload i = None)" "pub_wf i \<Longrightarrow> pTopicName i \<noteq> None"
  by (auto simp: pub_wf_def split: option.splits)

lemma serialize_publish_ok:
  assumes "pub_wf i" "MQTT_GetPublishPacketSize i = (MQTTSuccess, Some (rl, sz))" "sz \<le> length buf"
    "pi_qos i \<noteq> MQTTQoS0 \<longrightarrow> pid \<noteq> 0" "\<not> (dup i \<and> pi_qos i = MQTTQoS0)"
  defines "bytes \<equiv> publish_flags i # length_bytes rl @ publish_body i pid @ payload i"
  shows "MQTT_SerializePublish i pid rl buf = Some (MQTTSuccess, bytes @ drop sz buf)" "length bytes = sz"
proof -
  note sz = publish_size [OF assms(2,1)]
  show l: "length bytes = sz"
    using sz(1) [of pid] sz(2,3) by (simp add: bytes_def length_length_bytes length_payload [OF assms(1)])
  show "MQTT_SerializePublish i pid rl buf = Some (MQTTSuccess, bytes @ drop sz buf)"
    using put_block_exact [of bytes buf] assms(3,4,5) l sz(2,3,4) pub_wf_args [OF assms(1)]
    by (simp add: MQTT_SerializePublish_def serializePublishCommon_block [OF assms(1)] bytes_def) blast
qed

section \<open>Acknowledgement parsing\<close>

lemma readSubackStatus_spec:
  "n \<le> length ss \<Longrightarrow> readSubackStatus n ss st = Some
    (if list_all (\<lambda>s. s \<in> {0x00, 0x01, 0x02, 0x80}) (take n ss)
     then if 0x80 \<in> set (take n ss) then MQTTServerRefused else st else MQTTBadResponse)"
  by (induction n ss st rule: readSubackStatus.induct) auto

lemma or_one: "(b :: byte) OR 1 = 1 \<longleftrightarrow> b = 0 \<or> b = 1"
proof
  assume "b OR 1 = 1"
  then have "b AND 1 = b" by (metis and.commute word_bw_assocs word_ao_absorbs(1) and.idem or.commute word_ao_absorbs(3))
  then show "b = 0 \<or> b = 1" by (cases "odd b") (auto simp: and_one_eq mod_2_eq_odd)
qed auto

lemma deserializeConnack_spec:
  assumes "remainingLength p \<le> length d"
  shows "\<exists>st sp'. deserializeConnack p d sp = Some (st, sp') \<and>
    st \<in> {MQTTSuccess, MQTTServerRefused, MQTTBadResponse} \<and>
    (st = MQTTSuccess \<longleftrightarrow> remainingLength p = 2 \<and> (d ! 0 = 0 \<or> d ! 0 = 1) \<and> d ! 1 = 0) \<and>
    (st = MQTTSuccess \<longrightarrow> sp' = (d ! 0 = 1)) \<and>
    (st = MQTTServerRefused \<longleftrightarrow> remainingLength p = 2 \<and> d ! 0 = 0 \<and> 0 < d ! 1 \<and> d ! 1 \<le> 5)"
proof (cases "remainingLength p = 2")
  case True
  then have "rd d 0 = Some (d ! 0)" "rd d 1 = Some (d ! 1)" using assms by (auto simp: rd_def)
  moreover have "\<not> d ! 1 > 5 \<longleftrightarrow> d ! 1 \<le> 5" by auto
  ultimately show ?thesis using True
    by (auto simp: deserializeConnack_def or_one word_gt_0)
qed (simp add: deserializeConnack_def)

section \<open>Properties\<close>

text \<open>
  C37. The fixed header has one encoding, and the decoder accepts that one only: parsing a buffer
  succeeds with remaining length \<open>n\<close> exactly if the type is one a client may receive and writing
  \<open>n\<close> at the same place would leave the buffer as it is, in as many bytes as
  \<open>remainingLengthEncodedSize\<close> announces, all of them received.
\<close>

theorem mqtt_header_codec:
  assumes "index \<le> length buf"
  shows "MQTT_ProcessIncomingPacketTypeAndLength buf index p = Some (MQTTSuccess, q) \<longleftrightarrow>
    (\<exists>n. n \<le> MQTT_MAX_REMAINING_LENGTH \<and> incomingPacketValid (buf ! 0) \<and>
      1 + remainingLengthEncodedSize n \<le> index \<and>
      encodeRemainingLength n (buf, 1) = Some (buf, 1 + remainingLengthEncodedSize n) \<and>
      q = p \<lparr> packet_type := buf ! 0, remainingLength := n, headerLength := remainingLengthEncodedSize n + 1 \<rparr>)"
    (is "?parse \<longleftrightarrow> (\<exists>n. ?canonical n)")
proof
  assume ?parse
  then show "\<exists>n. ?canonical n" using assms
  proof (cases rule: process_header_inv)
    case (1 t rl rest)
    then have "put_block (length_bytes rl) (buf, 1) = Some (buf, 1 + remainingLengthEncodedSize rl)"
      unfolding put_block_same by (intro exI [of _ "[t]"] exI [of _ rest]) (simp add: length_length_bytes)
    with 1 show ?thesis by (intro exI [of _ rl]) (simp add: encodeRemainingLength_block)
  qed
next
  assume "\<exists>n. ?canonical n"
  then obtain n where n: "?canonical n" ..
  then have "put_block (length_bytes n) (buf, 1) = Some (buf, 1 + remainingLengthEncodedSize n)"
    by (simp add: encodeRemainingLength_block)
  then obtain pre rest where b: "buf = pre @ length_bytes n @ rest" "length pre = 1"
    unfolding put_block_same by auto
  then obtain t where "buf = t # length_bytes n @ rest" by (cases pre) auto
  with n process_header_ok [of n t index rest p] show ?parse by simp
qed

lemma length_bytes_321: "length_bytes 321 = [0xC1, 0x02]"
proof -
  have "length_bytes 2 = [0x02]" by (subst length_bytes.simps) simp
  then show ?thesis by (subst length_bytes.simps) (simp add: UINT8_SET_BIT_def)
qed

theorem mqtt_header_codec_witness:
  "\<exists>n. n \<le> MQTT_MAX_REMAINING_LENGTH \<and> incomingPacketValid ([0x30, 0xC1, 0x02] ! 0) \<and>
      1 + remainingLengthEncodedSize n \<le> 3 \<and>
      encodeRemainingLength n ([0x30, 0xC1, 0x02], 1) = Some ([0x30, 0xC1, 0x02], 1 + remainingLengthEncodedSize n) \<and>
      \<lparr> packet_type = 0x30, pRemainingData = None, remainingLength = 321, headerLength = 3 \<rparr> =
      \<lparr> packet_type = 0, pRemainingData = None, remainingLength = 0, headerLength = 0 \<rparr>
        \<lparr> packet_type := [0x30, 0xC1, 0x02] ! 0, remainingLength := n, headerLength := remainingLengthEncodedSize n + 1 \<rparr>"
proof (rule mqtt_header_codec [THEN iffD1])
  show "MQTT_ProcessIncomingPacketTypeAndLength [0x30, 0xC1, 0x02] 3
      \<lparr> packet_type = 0, pRemainingData = None, remainingLength = 0, headerLength = 0 \<rparr> =
    Some (MQTTSuccess, \<lparr> packet_type = 0x30, pRemainingData = None, remainingLength = 321, headerLength = 3 \<rparr>)"
    using process_header_ok [of 321 "0x30" 3 "[]"] by (simp add: length_bytes_321 incomingPacketValid_def remainingLengthEncodedSize_def)
qed simp

text \<open>
  C38. The parser that pulls the fixed header byte by byte from the transport and the one that
  reads it from the receive buffer agree on every stream: they accept the same headers with the
  same type and remaining length, the former having consumed exactly the header; where the
  buffer parser asks for more bytes or reports a bad response, the other reports a bad response.
\<close>

theorem mqtt_stream_header_agrees:
  "\<exists>st q st' q' rest.
    MQTT_ProcessIncomingPacketTypeAndLength bs (length bs) p = Some (st, q) \<and>
    MQTT_GetIncomingPacketTypeAndLength stream_recv bs p = (st', q', rest) \<and>
    (st = MQTTSuccess \<and> st' = MQTTSuccess \<and> rest = drop (headerLength q) bs \<and>
       packet_type q' = packet_type q \<and> remainingLength q' = remainingLength q
     \<or> st = MQTTNoDataAvailable \<and> st' = MQTTNoDataAvailable \<and> bs = []
     \<or> (st = MQTTNeedMoreBytes \<or> st = MQTTBadResponse) \<and> st' = MQTTBadResponse)"
proof (cases bs)
  case Nil
  then show ?thesis
    by (simp add: MQTT_ProcessIncomingPacketTypeAndLength_def MQTT_GetIncomingPacketTypeAndLength_def)
next
  case (Cons t ts)
  show ?thesis
  proof (cases "incomingPacketValid t")
    case False
    then show ?thesis using Cons
      by (simp add: MQTT_ProcessIncomingPacketTypeAndLength_def MQTT_GetIncomingPacketTypeAndLength_def rd_def Let_def)
  next
    case True
    obtain st r d where l: "process_length_loop bs (length bs) 0 0 = Some (st, r, d)"
      "st = MQTTSuccess \<Longrightarrow> get_length_loop stream_recv ts 0 0 = (r, d, drop (d + 1) bs)"
      "st \<noteq> MQTTSuccess \<Longrightarrow> st \<in> {MQTTBadResponse, MQTTNeedMoreBytes} \<and>
        fst (get_length_loop stream_recv ts 0 0) = MQTT_REMAINING_LENGTH_INVALID"
      using stream_loop [of 0 0 bs] Cons by auto
    show ?thesis
    proof (cases "st = MQTTSuccess")
      case ok: True
      have "d \<le> 4" "r < 128 ^ d" using process_loop_digits [of bs "length bs" 0 0 r d] l(1) ok by auto
      moreover have "(128::nat) ^ d \<le> 128 ^ 4" using \<open>d \<le> 4\<close> by (intro power_increasing) simp_all
      ultimately have "r \<noteq> MQTT_REMAINING_LENGTH_INVALID" by simp
      then show ?thesis using True ok Cons l(1,2)
        by (simp add: MQTT_ProcessIncomingPacketTypeAndLength_def MQTT_GetIncomingPacketTypeAndLength_def rd_def
            processRemainingLength_def getRemainingLength_def Let_def)
    next
      case bad: False
      then show ?thesis using True Cons l(1,3)
        by (cases "get_length_loop stream_recv ts 0 0")
          (auto simp: MQTT_ProcessIncomingPacketTypeAndLength_def MQTT_GetIncomingPacketTypeAndLength_def rd_def
            processRemainingLength_def getRemainingLength_def Let_def)
    qed
  qed
qed

text \<open>
  C35. PUBLISH round trip. For valid arguments and a buffer of at least the announced size,
  serializing succeeds, writes exactly the announced bytes and nothing beyond; parsing what was
  written gives back the flags, the packet identifier, the topic and the payload.
\<close>

theorem mqtt_publish_roundtrip:
  assumes "pub_wf i" "MQTT_GetPublishPacketSize i = (MQTTSuccess, Some (rl, sz))" "sz \<le> length buf"
    "pi_qos i \<noteq> MQTTQoS0 \<longrightarrow> pid \<noteq> 0" "\<not> (dup i \<and> pi_qos i = MQTTQoS0)"
  shows "\<exists>bytes. MQTT_SerializePublish i pid rl buf = Some (MQTTSuccess, bytes @ drop sz buf) \<and> length bytes = sz \<and>
    (\<exists>q. MQTT_ProcessIncomingPacketTypeAndLength bytes sz p = Some (MQTTSuccess, q) \<and>
      remainingLength q = rl \<and> headerLength q + rl = sz \<and>
      (\<exists>j. MQTT_DeserializePublish (q \<lparr> pRemainingData := Some (drop (headerLength q) bytes) \<rparr>) pid0 j0 =
          Some (MQTTSuccess, if pi_qos i = MQTTQoS0 then pid0 else pid, j) \<and>
        pi_qos j = pi_qos i \<and> retain j = retain i \<and> dup j = dup i \<and> topic j = topic i \<and> payload j = payload i))"
proof -
  note sz = publish_size [OF assms(2,1)]
  let ?body = "publish_body i pid @ payload i"
  let ?bytes = "publish_flags i # length_bytes rl @ ?body"
  have ser: "MQTT_SerializePublish i pid rl buf = Some (MQTTSuccess, ?bytes @ drop sz buf)" and lb: "length ?bytes = sz"
    by (rule serialize_publish_ok [OF assms])+
  let ?q = "p \<lparr> packet_type := publish_flags i, remainingLength := rl, headerLength := remainingLengthEncodedSize rl + 1 \<rparr>"
  have "MQTT_ProcessIncomingPacketTypeAndLength ?bytes sz p = Some (MQTTSuccess, ?q)"
    using sz(2,3) flags_type(2) by (intro process_header_ok) simp_all
  moreover have "drop (headerLength ?q) ?bytes = ?body" by (simp add: length_length_bytes [OF sz(2)])
  moreover have "deserializePublish (?q \<lparr> pRemainingData := Some ?body \<rparr>) ?body pid0 j0 =
      Some (MQTTSuccess, if pi_qos i \<noteq> MQTTQoS0 then pid else pid0,
    j0 \<lparr> pi_qos := pi_qos i, retain := retain i, dup := dup i, topicNameLength := topicNameLength i,
        pTopicName := Some (drop 2 ?body), payloadLength := payloadLength i,
        pPayload := (if payloadLength i \<noteq> 0 then Some (payload i) else None) \<rparr>)" (is "_ = Some (_, _, ?j)")
    using sz(1) [of pid] assms(4) sz(4) length_payload [OF assms(1)]
    by (intro deserializePublish_ok [OF assms(1)]) auto
  moreover have "topic ?j = topic i"
  proof -
    have "length (topic i) = unat (topicNameLength i)" using assms(1) by (rule pub_wfE)
    then have "take (unat (topicNameLength i)) (drop 2 ?body) = topic i" by (simp add: publish_body_def)
    then show ?thesis unfolding topic_def [of ?j] by simp
  qed
  moreover have "payload ?j = payload i"
    unfolding payload_def [of ?j] using length_payload [OF assms(1)] by (cases "payload i") auto
  ultimately show ?thesis
    using ser lb sz(3) flags_type(1) by (intro exI [of _ ?bytes] conjI exI [of _ ?q] exI [of _ ?j])
      (auto simp: MQTT_DeserializePublish_def)
qed

definition hello :: pub_info where
  "hello = \<lparr> pi_qos = MQTTQoS1, retain = True, dup = False, pTopicName = Some [0x61, 0x62], topicNameLength = 2,
     pPayload = Some [7, 8, 9], payloadLength = 3 \<rparr>"

lemma hello_ok:
  "pub_wf hello" "MQTT_GetPublishPacketSize hello = (MQTTSuccess, Some (9, 11))"
  "pi_qos hello \<noteq> MQTTQoS0 \<longrightarrow> (5 :: 16 word) \<noteq> 0" "\<not> (dup hello \<and> pi_qos hello = MQTTQoS0)"
  by (simp_all add: hello_def pub_wf_def MQTT_GetPublishPacketSize_def calculatePublishPacketSize_def
      remainingLengthEncodedSize_def)

theorem mqtt_publish_roundtrip_witness:
  "\<exists>bytes. MQTT_SerializePublish hello 5 9 (replicate 16 0) = Some (MQTTSuccess, bytes @ drop 11 (replicate 16 0)) \<and>
    length bytes = 11 \<and>
    (\<exists>q. MQTT_ProcessIncomingPacketTypeAndLength bytes 11
        \<lparr> packet_type = 0, pRemainingData = None, remainingLength = 0, headerLength = 0 \<rparr> = Some (MQTTSuccess, q) \<and>
      remainingLength q = 9 \<and> headerLength q + 9 = 11 \<and>
      (\<exists>j. MQTT_DeserializePublish (q \<lparr> pRemainingData := Some (drop (headerLength q) bytes) \<rparr>) 0 hello =
          Some (MQTTSuccess, if pi_qos hello = MQTTQoS0 then 0 else 5, j) \<and>
        pi_qos j = pi_qos hello \<and> retain j = retain hello \<and> dup j = dup hello \<and> topic j = topic hello \<and>
        payload j = payload hello))"
  by (rule mqtt_publish_roundtrip [OF hello_ok(1,2) _ hello_ok(3,4)]) simp

text \<open>
  C36. No PUBLISH packet makes the parser misbehave. Whatever bytes arrive, as long as the
  remaining length counts received bytes, the parser reads none outside them, and if it accepts
  the packet then the topic length, the topic, the packet identifier (nonzero, for QoS 1 and 2)
  and the payload it reports are exactly the remaining bytes, in this order.
\<close>

theorem mqtt_publish_parse_safe:
  assumes "pRemainingData p = Some d" "remainingLength p \<le> length d"
  shows "\<exists>st pid' k. MQTT_DeserializePublish p pid j = Some (st, pid', k) \<and>
    (st = MQTTSuccess \<or> st = MQTTBadResponse \<or> st = MQTTBadParameter) \<and>
    (st = MQTTSuccess \<longrightarrow>
      take (remainingLength p) d = u16_bytes (topicNameLength k) @ topic k @
        (if pi_qos k \<noteq> MQTTQoS0 then u16_bytes pid' else []) @ payload k \<and>
      length (topic k) = unat (topicNameLength k) \<and> length (payload k) = payloadLength k \<and>
      (pi_qos k \<noteq> MQTTQoS0 \<longrightarrow> pid' \<noteq> 0))"
proof (cases "packet_type p AND 0xF0 = MQTT_PACKET_TYPE_PUBLISH")
  case True
  from assms(2) show ?thesis
  proof (cases rule: deserializePublish_parse [where pid = pid and j = j])
    case (bad pid' k)
    then show ?thesis using True assms(1) by (simp add: MQTT_DeserializePublish_def)
  next
    case (good pid' k)
    have "length (topic k) = unat (topicNameLength k)" using good(3) by (rule pub_wfE)
    then show ?thesis using True assms(1) good length_payload [OF good(3)]
      by (simp add: MQTT_DeserializePublish_def publish_body_def)
  qed
qed (simp add: MQTT_DeserializePublish_def)

theorem mqtt_publish_parse_safe_witness:
  "\<exists>st pid' k. MQTT_DeserializePublish
      \<lparr> packet_type = 0x32, pRemainingData = Some [0, 9, 1], remainingLength = 3, headerLength = 2 \<rparr> 0 hello = Some (st, pid', k) \<and>
    (st = MQTTSuccess \<or> st = MQTTBadResponse \<or> st = MQTTBadParameter) \<and>
    (st = MQTTSuccess \<longrightarrow>
      take 3 [0, 9, 1] = u16_bytes (topicNameLength k) @ topic k @
        (if pi_qos k \<noteq> MQTTQoS0 then u16_bytes pid' else []) @ payload k \<and>
      length (topic k) = unat (topicNameLength k) \<and> length (payload k) = payloadLength k \<and>
      (pi_qos k \<noteq> MQTTQoS0 \<longrightarrow> pid' \<noteq> 0))"
  using mqtt_publish_parse_safe [of "\<lparr> packet_type = 0x32, pRemainingData = Some [0, 9, 1], remainingLength = 3, headerLength = 2 \<rparr>" "[0, 9, 1]" 0 hello]
  by simp

text \<open>
  The three ways of writing a PUBLISH agree. There is one packet of the announced size;
  the header function writes the packet up to the payload and reports that size, the
  function without topic writes the flags, the remaining length and the topic length, so that
  sending the pieces separately sends the same bytes as sending the whole packet.
\<close>

theorem mqtt_publish_variants:
  assumes "pub_wf i" "MQTT_GetPublishPacketSize i = (MQTTSuccess, Some (rl, sz))" "sz \<le> length buf"
    "pi_qos i \<noteq> MQTTQoS0 \<longrightarrow> pid \<noteq> 0" "\<not> (dup i \<and> pi_qos i = MQTTQoS0)"
    "sz - payloadLength i \<le> length hbuf" "7 \<le> length tbuf"
  shows "\<exists>hdr n pre. 
    MQTT_SerializePublish i pid rl buf = Some (MQTTSuccess, hdr @ payload i @ drop sz buf) \<and>
    MQTT_SerializePublishHeader i pid rl hbuf = Some (MQTTSuccess, hdr @ drop (length hdr) hbuf, Some (length hdr)) \<and>
    length hdr = sz - payloadLength i \<and>
    MQTT_SerializePublishHeaderWithoutTopic i rl tbuf = Some (MQTTSuccess, pre @ drop n tbuf, n) \<and> length pre = n \<and>
    hdr = pre @ topic i @ (if pi_qos i \<noteq> MQTTQoS0 then u16_bytes pid else [])"
proof -
  note sz = publish_size [OF assms(2,1)]
  let ?pre = "publish_flags i # length_bytes rl @ u16_bytes (topicNameLength i)"
  let ?hdr = "publish_flags i # length_bytes rl @ publish_body i pid"
  have lp: "length ?pre = 1 + remainingLengthEncodedSize rl + 2" by (simp add: length_length_bytes [OF sz(2)])
  have lh: "length ?hdr = sz - payloadLength i" using sz(1) [of pid] sz(2,3) by (simp add: length_length_bytes)
  have full: "MQTT_SerializePublish i pid rl buf = Some (MQTTSuccess, ?hdr @ payload i @ drop sz buf)"
    using serialize_publish_ok(1) [OF assms(1-5)] by simp
  have size: "szt (1 + remainingLengthEncodedSize rl + rl + (2 ^ 32 - szt (payloadLength i))) = sz - payloadLength i"
  proof -
    have "payloadLength i \<le> rl" using sz(1) [of pid] by simp
    then have "payloadLength i < 2 ^ 32" using sz(2) by simp
    then have "1 + remainingLengthEncodedSize rl + rl + (2 ^ 32 - szt (payloadLength i)) = sz - payloadLength i + 2 ^ 32"
      using \<open>payloadLength i \<le> rl\<close> sz(3) by (simp add: szt_def)
    then show ?thesis using sz(5) by (simp add: szt_def)
  qed
  have "put_block ?hdr (hbuf, 0) = Some (?hdr @ drop (length ?hdr) hbuf, length ?hdr)"
    using assms(6) lh by (intro put_block_exact) simp
  then have hdr: "MQTT_SerializePublishHeader i pid rl hbuf = Some (MQTTSuccess, ?hdr @ drop (length ?hdr) hbuf, Some (length ?hdr))"
    using assms(4-6) pub_wf_args [OF assms(1)] sz(4) size lh
    by (auto simp: MQTT_SerializePublishHeader_def serializePublishCommon_block [OF assms(1)] Let_def)
  have "length ?pre \<le> length tbuf" using assms(7) lp encoded_size_bounds(2) [of rl] by linarith
  from put_block_exact [OF this]
  have pre: "MQTT_SerializePublishHeaderWithoutTopic i rl tbuf = Some (MQTTSuccess, ?pre @ drop (length ?pre) tbuf, length ?pre)"
    using lp by (simp add: MQTT_SerializePublishHeaderWithoutTopic_def put8_block encodeRemainingLength_block put16_block)
  show ?thesis
    using full hdr pre lh by (intro exI [of _ ?hdr] exI [of _ "length ?pre"] exI [of _ ?pre]) (simp add: publish_body_def)
qed

theorem mqtt_publish_variants_witness:
  "\<exists>hdr n pre. 
    MQTT_SerializePublish hello 5 9 (replicate 16 0) = Some (MQTTSuccess, hdr @ payload hello @ drop 11 (replicate 16 0)) \<and>
    MQTT_SerializePublishHeader hello 5 9 (replicate 8 1) = Some (MQTTSuccess, hdr @ drop (length hdr) (replicate 8 1), Some (length hdr)) \<and>
    length hdr = 11 - payloadLength hello \<and>
    MQTT_SerializePublishHeaderWithoutTopic hello 9 (replicate 7 2) = Some (MQTTSuccess, pre @ drop n (replicate 7 2), n) \<and>
    length pre = n \<and> hdr = pre @ topic hello @ (if pi_qos hello \<noteq> MQTTQoS0 then u16_bytes 5 else [])"
  by (rule mqtt_publish_variants [OF hello_ok(1,2) _ hello_ok(3,4)]) (simp_all add: hello_def)

text \<open>
  C39. CONNECT. The announced size is never above 327699 bytes; for a buffer of at least that
  size, serializing writes exactly the packet MQTT 3.1.1 prescribes (type, remaining length,
  protocol name and level, flags, keep alive, client identifier, will, user name, password),
  whose body has exactly the announced remaining length, and nothing beyond it.
\<close>

theorem mqtt_connect_exact:
  assumes "connect_wf ci will" "MQTT_GetConnectPacketSize ci will = (MQTTSuccess, Some (rl, sz))" "sz \<le> length buf"
  shows "MQTT_SerializeConnect ci will rl buf =
      Some (MQTTSuccess, (MQTT_PACKET_TYPE_CONNECT # length_bytes rl @ connect_body ci will) @ drop sz buf) \<and>
    length (connect_body ci will) = rl \<and> length (length_bytes rl) + 1 + rl = sz \<and> sz \<le> 327699"
proof -
  note sz = connect_size [OF assms(1,2)]
  have rl: "rl \<le> MQTT_MAX_REMAINING_LENGTH" using sz(3) by simp
  let ?p = "MQTT_PACKET_TYPE_CONNECT # length_bytes rl @ connect_body ci will"
  have ll: "length (length_bytes rl) = remainingLengthEncodedSize rl" by (rule length_length_bytes [OF rl])
  have l: "length ?p = sz" unfolding sz(2) using ll sz(1) [symmetric] by simp
  have will: "\<not> (case will of None \<Rightarrow> False | Some w \<Rightarrow> pTopicName w = None)"
    using assms(1) by (auto simp: connect_wf_def split: option.splits)
  have fits: "\<not> szt (rl + remainingLengthEncodedSize rl + 1) > length buf"
    using assms(3) sz(2) szt_small [OF rl] by (simp add: ac_simps)
  have "put_block ?p (buf, 0) = Some (?p @ drop sz buf, sz)"
    using put_block_exact [of ?p buf] assms(3) l by simp
  then have "MQTT_SerializeConnect ci will rl buf = Some (MQTTSuccess, ?p @ drop sz buf)"
    using will fits by (simp add: MQTT_SerializeConnect_def serializeConnectPacket_block [OF assms(1)])
  then show ?thesis using sz(1) [symmetric] sz(2,4) ll by simp
qed

definition dev_connect :: connect_info where
  "dev_connect = \<lparr> cleanSession = True, keepAliveSeconds = 60, pClientIdentifier = Some [0x64], clientIdentifierLength = 1,
     pUserName = Some [0x75, 0x31], userNameLength = 2, pPassword = None, passwordLength = 0 \<rparr>"

theorem mqtt_connect_exact_witness:
  "MQTT_SerializeConnect dev_connect (Some hello) 26 (replicate 40 0) =
      Some (MQTTSuccess, (MQTT_PACKET_TYPE_CONNECT # length_bytes 26 @ connect_body dev_connect (Some hello)) @ drop 28 (replicate 40 0)) \<and>
    length (connect_body dev_connect (Some hello)) = 26 \<and> length (length_bytes 26) + 1 + 26 = 28 \<and> (28 :: nat) \<le> 327699"
  by (rule mqtt_connect_exact)
    (simp_all add: dev_connect_def hello_def connect_wf_def str_ok_def MQTT_GetConnectPacketSize_def remainingLengthEncodedSize_def)

text \<open>
  SUBSCRIBE and UNSUBSCRIBE. For any number of topic filters up to 65530 the size computation
  does not wrap; a packet whose size was announced is written into a buffer of that size exactly
  as type, remaining length, packet identifier and the filters in order (with the requested QoS
  for SUBSCRIBE), and nothing beyond it; an empty filter makes the size computation fail.
\<close>

theorem mqtt_subscribe_exact:
  assumes "subs_wf subs" "length subs \<le> 65530" "pid \<noteq> 0" "sz \<le> length buf"
  shows "(MQTT_GetSubscribePacketSize subs = (MQTTSuccess, Some (rl, sz)) \<longrightarrow>
      MQTT_SerializeSubscribe subs pid rl buf =
        Some (MQTTSuccess, MQTT_PACKET_TYPE_SUBSCRIBE # length_bytes rl @ u16_bytes pid @ sub_body MQTT_SUBSCRIBE subs @ drop sz buf) \<and>
      rl = 2 + length (sub_body MQTT_SUBSCRIBE subs) \<and> sz = 1 + length (length_bytes rl) + rl \<and> list_all sub_good subs) \<and>
    (MQTT_GetUnsubscribePacketSize subs = (MQTTSuccess, Some (rl, sz)) \<longrightarrow>
      MQTT_SerializeUnsubscribe subs pid rl buf =
        Some (MQTTSuccess, MQTT_PACKET_TYPE_UNSUBSCRIBE # length_bytes rl @ u16_bytes pid @ sub_body MQTT_UNSUBSCRIBE subs @ drop sz buf) \<and>
      rl = 2 + length (sub_body MQTT_UNSUBSCRIBE subs) \<and> sz = 1 + length (length_bytes rl) + rl \<and> list_all sub_good subs)"
proof -
  have aux: "subs \<noteq> [] \<and> validateSubscriptionSerializeParams subs pid rl buf = MQTTSuccess \<and>
      (\<forall>t. put_block (t # length_bytes rl @ u16_bytes pid @ sub_body ty subs) (buf, 0) =
        Some (t # length_bytes rl @ u16_bytes pid @ sub_body ty subs @ drop sz buf, sz)) \<and>
      rl = 2 + length (sub_body ty subs) \<and> sz = 1 + length (length_bytes rl) + rl \<and> list_all sub_good subs"
    if "subs \<noteq> []" "calculateSubscriptionPacketSize subs ty = (MQTTSuccess, Some (rl, sz))" for ty
  proof -
    note c = calculateSubscription_ok [OF assms(1,2) that(2)]
    have ll: "length (length_bytes rl) = remainingLengthEncodedSize rl" by (rule length_length_bytes [OF c(2)])
    have lp: "length (t # length_bytes rl @ u16_bytes pid @ sub_body ty subs) = sz" for t
      unfolding c(3) using ll c(1) by simp
    have "validateSubscriptionSerializeParams subs pid rl buf = MQTTSuccess"
      using assms(3,4) that(1) c(3) szt_small [OF c(2)] by (simp add: validateSubscriptionSerializeParams_def)
    moreover have "put_block (t # length_bytes rl @ u16_bytes pid @ sub_body ty subs) (buf, 0) =
        Some (t # length_bytes rl @ u16_bytes pid @ sub_body ty subs @ drop sz buf, sz)" for t
      using put_block_exact [of "t # length_bytes rl @ u16_bytes pid @ sub_body ty subs" buf] lp [of t] assms(4) by simp
    ultimately show ?thesis using c(1,3,4) ll that(1) by (metis add.assoc)
  qed
  have get: "subs \<noteq> [] \<and> calculateSubscriptionPacketSize subs MQTT_SUBSCRIBE = (MQTTSuccess, Some (rl, sz))"
    if "MQTT_GetSubscribePacketSize subs = (MQTTSuccess, Some (rl, sz))"
    using that by (auto simp: MQTT_GetSubscribePacketSize_def split: if_splits)
  have get': "subs \<noteq> [] \<and> calculateSubscriptionPacketSize subs MQTT_UNSUBSCRIBE = (MQTTSuccess, Some (rl, sz))"
    if "MQTT_GetUnsubscribePacketSize subs = (MQTTSuccess, Some (rl, sz))"
    using that by (auto simp: MQTT_GetUnsubscribePacketSize_def split: if_splits)
  show ?thesis
  proof (rule conjI; rule impI)
    assume "MQTT_GetSubscribePacketSize subs = (MQTTSuccess, Some (rl, sz))"
    note a = aux [OF get [OF this, THEN conjunct1] get [OF this, THEN conjunct2]]
    from a have v: "validateSubscriptionSerializeParams subs pid rl buf = MQTTSuccess" by blast
    have "MQTT_SerializeSubscribe subs pid rl buf = Some (MQTTSuccess,
        MQTT_PACKET_TYPE_SUBSCRIBE # length_bytes rl @ u16_bytes pid @ sub_body MQTT_SUBSCRIBE subs @ drop sz buf)"
      unfolding serializeSubscribe_block(1) [OF assms(1) v] a [THEN conjunct2, THEN conjunct2, THEN conjunct1, rule_format] by simp
    with a show "MQTT_SerializeSubscribe subs pid rl buf = Some (MQTTSuccess,
        MQTT_PACKET_TYPE_SUBSCRIBE # length_bytes rl @ u16_bytes pid @ sub_body MQTT_SUBSCRIBE subs @ drop sz buf) \<and>
      rl = 2 + length (sub_body MQTT_SUBSCRIBE subs) \<and> sz = 1 + length (length_bytes rl) + rl \<and> list_all sub_good subs"
      by blast
  next
    assume "MQTT_GetUnsubscribePacketSize subs = (MQTTSuccess, Some (rl, sz))"
    note a = aux [OF get' [OF this, THEN conjunct1] get' [OF this, THEN conjunct2]]
    from a have v: "validateSubscriptionSerializeParams subs pid rl buf = MQTTSuccess" by blast
    have "MQTT_SerializeUnsubscribe subs pid rl buf = Some (MQTTSuccess,
        MQTT_PACKET_TYPE_UNSUBSCRIBE # length_bytes rl @ u16_bytes pid @ sub_body MQTT_UNSUBSCRIBE subs @ drop sz buf)"
      unfolding serializeSubscribe_block(2) [OF assms(1) v] a [THEN conjunct2, THEN conjunct2, THEN conjunct1, rule_format] by simp
    with a show "MQTT_SerializeUnsubscribe subs pid rl buf = Some (MQTTSuccess,
        MQTT_PACKET_TYPE_UNSUBSCRIBE # length_bytes rl @ u16_bytes pid @ sub_body MQTT_UNSUBSCRIBE subs @ drop sz buf) \<and>
      rl = 2 + length (sub_body MQTT_UNSUBSCRIBE subs) \<and> sz = 1 + length (length_bytes rl) + rl \<and> list_all sub_good subs"
      by blast
  qed
qed

definition two_filters :: "sub_info list" where
  "two_filters = [\<lparr> sub_qos = MQTTQoS1, pTopicFilter = Some [0x61], topicFilterLength = 1 \<rparr>,
     \<lparr> sub_qos = MQTTQoS0, pTopicFilter = Some [0x62, 0x23], topicFilterLength = 2 \<rparr>]"

theorem mqtt_subscribe_exact_witness:
  "MQTT_SerializeSubscribe two_filters 7 11 (replicate 13 0) =
      Some (MQTTSuccess, 0x82 # length_bytes 11 @ u16_bytes 7 @ sub_body MQTT_SUBSCRIBE two_filters @ []) \<and>
    MQTT_GetUnsubscribePacketSize two_filters = (MQTTSuccess, Some (9, 11))"
proof -
  have g: "MQTT_GetSubscribePacketSize two_filters = (MQTTSuccess, Some (11, 13))"
    "MQTT_GetUnsubscribePacketSize two_filters = (MQTTSuccess, Some (9, 11))"
    by (simp_all add: two_filters_def MQTT_GetSubscribePacketSize_def MQTT_GetUnsubscribePacketSize_def
        calculateSubscriptionPacketSize_def szt_def remainingLengthEncodedSize_def)
  have "subs_wf two_filters" "length two_filters \<le> 65530" "(7 :: 16 word) \<noteq> 0" "13 \<le> length (replicate 13 (0 :: byte))"
    by (simp_all add: two_filters_def subs_wf_def str_ok_def)
  from mqtt_subscribe_exact [OF this, of 11] g show ?thesis by simp
qed

text \<open>
  Acknowledgements. A publish acknowledgement is written as four bytes that parse back to
  the same type and packet identifier; types that a client does not send, the identifier 0 and a
  short buffer are refused without a write.
\<close>

theorem mqtt_ack_roundtrip:
  "if length buf < 4 then MQTT_SerializeAck buf ty pid = Some (MQTTNoMemory, buf)
   else if pid = 0 \<or> ty \<notin> {MQTT_PACKET_TYPE_PUBACK, MQTT_PACKET_TYPE_PUBREC, MQTT_PACKET_TYPE_PUBREL, MQTT_PACKET_TYPE_PUBCOMP}
   then MQTT_SerializeAck buf ty pid = Some (MQTTBadParameter, buf)
   else \<exists>bytes q. MQTT_SerializeAck buf ty pid = Some (MQTTSuccess, bytes @ drop 4 buf) \<and> length bytes = 4 \<and>
     MQTT_ProcessIncomingPacketTypeAndLength bytes 4 p = Some (MQTTSuccess, q) \<and>
     packet_type q = ty \<and> remainingLength q = 2 \<and> headerLength q = 2 \<and>
     MQTT_DeserializeAck (q \<lparr> pRemainingData := Some (drop 2 bytes) \<rparr>) pid0 sp = Some (MQTTSuccess, pid, sp)"
proof -
  consider (short) "length buf < 4" | (bad) "4 \<le> length buf"
      "pid = 0 \<or> ty \<notin> {MQTT_PACKET_TYPE_PUBACK, MQTT_PACKET_TYPE_PUBREC, MQTT_PACKET_TYPE_PUBREL, MQTT_PACKET_TYPE_PUBCOMP}"
    | (ok) "4 \<le> length buf" "pid \<noteq> 0"
      "ty \<in> {MQTT_PACKET_TYPE_PUBACK, MQTT_PACKET_TYPE_PUBREC, MQTT_PACKET_TYPE_PUBREL, MQTT_PACKET_TYPE_PUBCOMP}"
    by linarith
  then show ?thesis
  proof cases
    case ok
    let ?b = "[ty, 2] @ u16_bytes pid"
    let ?q = "p \<lparr> packet_type := ty, remainingLength := 2, headerLength := 2 \<rparr>"
    have two: "length_bytes 2 = [2]" by (subst length_bytes.simps) simp
    have valid: "incomingPacketValid ty" using ok(3) by (auto simp: incomingPacketValid_def)
    have "MQTT_ProcessIncomingPacketTypeAndLength ?b 4 p = Some (MQTTSuccess, ?q)"
      using process_header_ok [of 2 ty 4 "u16_bytes pid" p] valid two
      by (simp add: remainingLengthEncodedSize_def numeral_2_eq_2)
    moreover have "UINT16_DECODE (u16_bytes pid) 0 = Some pid" by (rule decode_at [where rest = "[]"]) simp
    then have "MQTT_DeserializeAck (?q \<lparr> pRemainingData := Some (drop 2 ?b) \<rparr>) pid0 sp = Some (MQTTSuccess, pid, sp)"
      using ok(2,3) by (auto simp: MQTT_DeserializeAck_def deserializeSimpleAck_def)
    moreover have "MQTT_SerializeAck buf ty pid = Some (MQTTSuccess, ?b @ drop 4 buf)"
      using ok put_block_exact [of ?b buf]
      by (auto simp: MQTT_SerializeAck_def put8_block put16_block)
    ultimately show ?thesis using ok by (auto intro!: exI [of _ ?b] exI [of _ ?q])
  qed (auto simp: MQTT_SerializeAck_def)
qed

theorem mqtt_ack_roundtrip_witness:
  "\<exists>bytes q. MQTT_SerializeAck [1, 1, 1, 1, 9] 0x62 258 = Some (MQTTSuccess, bytes @ [9]) \<and> length bytes = 4 \<and>
     MQTT_ProcessIncomingPacketTypeAndLength bytes 4
       \<lparr> packet_type = 0, pRemainingData = None, remainingLength = 0, headerLength = 0 \<rparr> = Some (MQTTSuccess, q) \<and>
     packet_type q = 0x62 \<and> remainingLength q = 2 \<and> headerLength q = 2 \<and>
     MQTT_DeserializeAck (q \<lparr> pRemainingData := Some (drop 2 bytes) \<rparr>) 0 False = Some (MQTTSuccess, 258, False)"
  using mqtt_ack_roundtrip [of "[1, 1, 1, 1, 9]" "0x62" 258
      "\<lparr> packet_type = 0, pRemainingData = None, remainingLength = 0, headerLength = 0 \<rparr>" 0 False]
  by simp

text \<open>
  C40. Parsing acknowledgements is safe and decides as MQTT 3.1.1 says. Whatever the bytes, no
  byte outside the packet is read, and the outcome is success, refusal or bad response as follows.
  A CONNACK is a success exactly for two bytes with return code 0 and no reserved bit, and then reports
  the session flag; it is a refusal exactly for the return codes 1 to 5 without the session flag. A
  SUBACK is a success exactly if it has a nonzero identifier and only granted QoS values, and a refusal
  exactly if in addition some filter was refused. The other acknowledgements are a success exactly for
  two bytes that are a nonzero identifier, a PINGRESP exactly when it is empty, and no other packet type ever.
\<close>

theorem mqtt_ack_parse_safe:
  assumes "pRemainingData p = Some d" "remainingLength p \<le> length d"
  shows "\<exists>st pid' sp'. MQTT_DeserializeAck p pid sp = Some (st, pid', sp') \<and>
    st \<in> {MQTTSuccess, MQTTServerRefused, MQTTBadResponse} \<and>
    (if packet_type p = MQTT_PACKET_TYPE_CONNACK then
      (st = MQTTSuccess \<longleftrightarrow> remainingLength p = 2 \<and> (d ! 0 = 0 \<or> d ! 0 = 1) \<and> d ! 1 = 0) \<and>
      (st = MQTTSuccess \<longrightarrow> sp' = (d ! 0 = 1)) \<and>
      (st = MQTTServerRefused \<longleftrightarrow> remainingLength p = 2 \<and> d ! 0 = 0 \<and> 0 < d ! 1 \<and> d ! 1 \<le> 5)
     else if packet_type p = MQTT_PACKET_TYPE_SUBACK then
      (let codes = drop 2 (take (remainingLength p) d); valid = 3 \<le> remainingLength p \<and> take 2 d \<noteq> [0, 0]
       in (st = MQTTSuccess \<longleftrightarrow> valid \<and> set codes \<subseteq> {0, 1, 2}) \<and>
          (st = MQTTServerRefused \<longleftrightarrow> valid \<and> set codes \<subseteq> {0, 1, 2, 0x80} \<and> 0x80 \<in> set codes) \<and>
          (valid \<longrightarrow> take 2 d = u16_bytes pid'))
     else if packet_type p = MQTT_PACKET_TYPE_PINGRESP then
      st = (if remainingLength p = 0 then MQTTSuccess else MQTTBadResponse)
     else if packet_type p \<in> {MQTT_PACKET_TYPE_UNSUBACK, MQTT_PACKET_TYPE_PUBACK, MQTT_PACKET_TYPE_PUBREC,
         MQTT_PACKET_TYPE_PUBREL, MQTT_PACKET_TYPE_PUBCOMP} then
      st = (if remainingLength p = 2 \<and> take 2 d \<noteq> [0, 0] then MQTTSuccess else MQTTBadResponse) \<and>
      (remainingLength p = 2 \<longrightarrow> take 2 d = u16_bytes pid')
     else st = MQTTBadResponse)"
proof -
  have dec: "2 \<le> remainingLength p \<Longrightarrow> \<exists>x. UINT16_DECODE d 0 = Some x \<and> take 2 d = u16_bytes x \<and> (x = 0 \<longleftrightarrow> take 2 d = [0, 0])"
  proof -
    have "x = 0 \<longleftrightarrow> u16_bytes x = [0, 0]" for x
      using decode_u16 [of x] by (auto simp: u16_bytes_def UINT16_HIGH_BYTE_def UINT16_LOW_BYTE_def)
    then show "2 \<le> remainingLength p \<Longrightarrow> ?thesis" using UINT16_DECODE_in [of 0 d] assms(2) by auto
  qed
  consider (ping) "packet_type p = MQTT_PACKET_TYPE_PINGRESP" | (conn) "packet_type p = MQTT_PACKET_TYPE_CONNACK"
    | (suback) "packet_type p = MQTT_PACKET_TYPE_SUBACK"
    | (other) "packet_type p \<notin> {MQTT_PACKET_TYPE_PINGRESP, MQTT_PACKET_TYPE_CONNACK, MQTT_PACKET_TYPE_SUBACK}" by auto
  then show ?thesis
  proof cases
    case conn
    from deserializeConnack_spec [OF assms(2), of sp] obtain st sp' where
      c: "deserializeConnack p d sp = Some (st, sp')" "st \<in> {MQTTSuccess, MQTTServerRefused, MQTTBadResponse}"
        "st = MQTTSuccess \<longleftrightarrow> remainingLength p = 2 \<and> (d ! 0 = 0 \<or> d ! 0 = 1) \<and> d ! 1 = 0"
        "st = MQTTSuccess \<longrightarrow> sp' = (d ! 0 = 1)"
        "st = MQTTServerRefused \<longleftrightarrow> remainingLength p = 2 \<and> d ! 0 = 0 \<and> 0 < d ! 1 \<and> d ! 1 \<le> 5" by blast
    then have "MQTT_DeserializeAck p pid sp = Some (st, pid, sp')" using conn assms(1) by (simp add: MQTT_DeserializeAck_def)
    with c(2-5) conn show ?thesis by (intro exI [of _ st] exI [of _ pid] exI [of _ sp'] conjI) simp_all
  next
    case suback
    show ?thesis
    proof (cases "3 \<le> remainingLength p")
      case True
      then obtain x where x: "UINT16_DECODE d 0 = Some x" "take 2 d = u16_bytes x" "x = 0 \<longleftrightarrow> take 2 d = [0, 0]" using dec by force
      let ?c = "drop 2 (take (remainingLength p) d)"
      have c: "take (remainingLength p - 2) (drop 2 d) = ?c" by (simp add: drop_take)
      have "remainingLength p - 2 \<le> length (drop 2 d)" using assms(2) by simp
      from readSubackStatus_spec [OF this, of MQTTSuccess]
      have "readSubackStatus (remainingLength p - 2) (drop 2 d) MQTTSuccess =
        Some (if set ?c \<subseteq> {0, 1, 2, 0x80} then if 0x80 \<in> set ?c then MQTTServerRefused else MQTTSuccess else MQTTBadResponse)"
        unfolding c by (simp only: list_all_iff subset_iff Ball_def)
      then show ?thesis
        using suback assms(1) True x by (auto simp: MQTT_DeserializeAck_def deserializeSuback_def Let_def)
    qed (use suback assms(1) in \<open>simp add: MQTT_DeserializeAck_def deserializeSuback_def\<close>)
  next
    case other
    show ?thesis
    proof (cases "remainingLength p = 2")
      case True
      then obtain x where "UINT16_DECODE d 0 = Some x" "take 2 d = u16_bytes x" "x = 0 \<longleftrightarrow> take 2 d = [0, 0]" using dec by force
      then show ?thesis using other assms(1) True by (simp add: MQTT_DeserializeAck_def deserializeSimpleAck_def)
    qed (use other assms(1) in \<open>simp add: MQTT_DeserializeAck_def deserializeSimpleAck_def\<close>)
  qed (simp add: MQTT_DeserializeAck_def deserializePingresp_def)
qed

theorem mqtt_ack_parse_safe_witness:
  "\<exists>st pid' sp'. MQTT_DeserializeAck
      \<lparr> packet_type = 0x90, pRemainingData = Some [0, 7, 1, 0x80], remainingLength = 4, headerLength = 2 \<rparr> 0 False = Some (st, pid', sp') \<and>
    st = MQTTServerRefused"
  using mqtt_ack_parse_safe [of "\<lparr> packet_type = 0x90, pRemainingData = Some [0, 7, 1, 0x80], remainingLength = 4, headerLength = 2 \<rparr>"
      "[0, 7, 1, 0x80]" 0 False]
  by (auto simp: Let_def)

end
