(* ===== verification/Mqtt_Topic.thy ===== *)
theory Mqtt_Topic
  imports Mqtt_State "HOL-Library.Sublist"
begin

text \<open>
  Topic filters and packet ids of the MQTT client, \<open>coreMQTT/core_mqtt.c\<close>:
  \<open>MQTT_MatchTopic\<close> with its three helpers and \<open>MQTT_GetPacketId\<close>. A topic and a filter are the
  lists of their bytes; the lengths the C code passes beside the pointers are the lengths of
  the lists, so the 16-bit indices, which never pass them, are naturals.

  The specification is the one of MQTT 3.1.1, section 4.7: name and filter are split into
  levels at \<open>/\<close>, \<open>+\<close> stands for one level, \<open>#\<close> for the rest and its parent. Shown: what the
  matcher accepts the standard accepts; the two agree unless the name ends in an empty level or
  the filter ends in \<open>+/#\<close>, where the matcher misses matches. Packet ids run through
  1 to 65535 and are never 0.
\<close>

section \<open>The matcher\<close>

abbreviation SLASH :: byte where "SLASH \<equiv> CHR ''/''"
abbreviation PLUS :: byte where "PLUS \<equiv> CHR ''+''"
abbreviation HASH :: byte where "HASH \<equiv> CHR ''#''"

text \<open>
  \<open>topicFilterLength - 2U\<close> is computed in 32 bits: with a filter of one byte it wraps to a value
  no index equals.
\<close>

definition matchEndWildcardsSpecialCases :: "bytes \<Rightarrow> nat \<Rightarrow> bool" where
  "matchEndWildcardsSpecialCases pTopicFilter filterIndex =
    (let topicFilterLength = length pTopicFilter;
         matchFound = (topicFilterLength \<ge> 3 \<and> filterIndex = topicFilterLength - 3
                       \<and> pTopicFilter ! (filterIndex + 1) = SLASH \<and> pTopicFilter ! (filterIndex + 2) = HASH)
     in if topicFilterLength \<ge> 2 \<and> filterIndex = topicFilterLength - 2 \<and> pTopicFilter ! filterIndex = SLASH
        then pTopicFilter ! (filterIndex + 1) = PLUS \<or> pTopicFilter ! (filterIndex + 1) = HASH
        else matchFound)"

text \<open>The inner loop of \<open>matchWildcards\<close>: the index of the next separator, and whether there is one.\<close>

function level_end :: "bytes \<Rightarrow> nat \<Rightarrow> nat \<times> bool" where
  "level_end pTopicName nameIndex =
    (if nameIndex < length pTopicName then
       if pTopicName ! nameIndex = SLASH then (nameIndex, True)
       else level_end pTopicName (nameIndex + 1)
     else (nameIndex, False))"
  by pat_completeness auto
termination by (relation "measure (\<lambda>(s, i). length s - i)") auto

text \<open>The result is \<open>(shouldStopMatching, *pNameIndex, *pFilterIndex, *pMatch)\<close>.\<close>

definition matchWildcards :: "bytes \<Rightarrow> bytes \<Rightarrow> nat \<Rightarrow> nat \<Rightarrow> bool \<times> nat \<times> nat \<times> bool" where
  "matchWildcards pTopicName pTopicFilter nameIndex filterIndex =
    (let locationIsValidForWildcard = (filterIndex = 0 \<or> pTopicFilter ! (filterIndex - 1) = SLASH) in
     if pTopicFilter ! filterIndex = PLUS \<and> locationIsValidForWildcard then
       let (nameIndex, nextLevelExistsInTopicName) = level_end pTopicName nameIndex;
           nextLevelExistsinTopicFilter =
             (filterIndex < length pTopicFilter - 1 \<and> pTopicFilter ! (filterIndex + 1) = SLASH)
       in if nextLevelExistsInTopicName \<and> \<not> nextLevelExistsinTopicFilter then (True, nameIndex, filterIndex, False)
          else if nextLevelExistsInTopicName then (False, nameIndex, filterIndex + 1, False)
          else (False, nameIndex - 1, filterIndex, False)
     else if pTopicFilter ! filterIndex = HASH \<and> filterIndex = length pTopicFilter - 1 \<and> locationIsValidForWildcard
     then (True, nameIndex, filterIndex, True)
     else (True, nameIndex, filterIndex, False))"

declare level_end.simps [simp del]

lemma level_end_suffix:
  "level_end s ni = (if SLASH \<in> set (drop ni s) then (ni + length (takeWhile (\<lambda>x. x \<noteq> SLASH) (drop ni s)), True)
                     else (max ni (length s), False))"
proof (induction s ni rule: level_end.induct)
  case (1 s ni)
  show ?case
  proof (cases "ni < length s")
    case True
    then have "drop ni s = s ! ni # drop (ni + 1) s" by (simp add: Cons_nth_drop_Suc)
    with 1 True show ?thesis by (simp add: level_end.simps [of s ni] max_def)
  qed (simp add: level_end.simps [of s ni] max_def)
qed

text \<open>The loop of \<open>matchTopicFilter\<close>: the two indices and \<open>matchFound\<close> when it is left.\<close>

function matchTopicFilter_loop :: "bytes \<Rightarrow> bytes \<Rightarrow> nat \<Rightarrow> nat \<Rightarrow> nat \<times> nat \<times> bool" where
  "matchTopicFilter_loop pTopicName pTopicFilter nameIndex filterIndex =
    (if nameIndex < length pTopicName \<and> filterIndex < length pTopicFilter then
       let (shouldStopMatching, nameIndex', filterIndex', matchFound) =
             (if pTopicName ! nameIndex = pTopicFilter ! filterIndex
              then (False, nameIndex, filterIndex,
                    nameIndex = length pTopicName - 1 \<and> matchEndWildcardsSpecialCases pTopicFilter filterIndex)
              else matchWildcards pTopicName pTopicFilter nameIndex filterIndex)
       in if matchFound \<or> shouldStopMatching then (nameIndex', filterIndex', matchFound)
          else matchTopicFilter_loop pTopicName pTopicFilter (nameIndex' + 1) (filterIndex' + 1)
     else (nameIndex, filterIndex, False))"
  by pat_completeness auto
termination
  by (relation "measure (\<lambda>(s, f, ni, fi). length f - fi)")
    (auto simp: matchWildcards_def Let_def split: if_splits prod.splits)

definition matchTopicFilter :: "bytes \<Rightarrow> bytes \<Rightarrow> bool" where
  "matchTopicFilter pTopicName pTopicFilter =
    (let (nameIndex, filterIndex, matchFound) = matchTopicFilter_loop pTopicName pTopicFilter 0 0
     in matchFound \<or> nameIndex = length pTopicName \<and> filterIndex = length pTopicFilter)"

definition MQTT_MatchTopic :: "bytes \<Rightarrow> bytes \<Rightarrow> mqtt_status \<times> bool option" where
  "MQTT_MatchTopic pTopicName pTopicFilter =
    (if length pTopicName = 0 then (MQTTBadParameter, None)
     else if length pTopicFilter = 0 then (MQTTBadParameter, None)
     else
       let matchStatus = (length pTopicName = length pTopicFilter
                          \<and> strncmp_eq (length pTopicName) pTopicName pTopicFilter);
           topicFilterStartsWithWildcard = (pTopicFilter ! 0 = PLUS \<or> pTopicFilter ! 0 = HASH)
       in (MQTTSuccess,
           Some (if \<not> matchStatus \<and> \<not> (pTopicName ! 0 = CHR ''$'' \<and> topicFilterStartsWithWildcard)
                 then matchTopicFilter pTopicName pTopicFilter else matchStatus)))"

text \<open>\<open>MQTT_GetPacketId\<close>: the id given out and the next one kept in the context.\<close>

definition MQTT_GetPacketId :: "16 word \<Rightarrow> 16 word \<times> 16 word" where
  "MQTT_GetPacketId nextPacketId =
    (nextPacketId, if nextPacketId = - 1 then 1 else nextPacketId + 1)"

section \<open>The matcher on suffixes\<close>

text \<open>
  The same loop on what is left of name and filter; \<open>v\<close> says that a wildcard may stand at the
  current place of the filter.
\<close>

definition ends_special :: "bytes \<Rightarrow> bool" where
  "ends_special f \<longleftrightarrow> (\<exists>c. f = [c, SLASH, HASH]) \<or> f = [SLASH, PLUS] \<or> f = [SLASH, HASH]"

function match_suffix :: "bool \<Rightarrow> bytes \<Rightarrow> bytes \<Rightarrow> bool" where
  "match_suffix v [] f = (f = [])"
| "match_suffix v (c # n) [] = False"
| "match_suffix v (c # n) (a # f) =
    (if c = a then (n = [] \<and> ends_special (a # f)) \<or> match_suffix (a = SLASH) n f
     else if a = PLUS \<and> v then
       (case dropWhile (\<lambda>x. x \<noteq> SLASH) (c # n) of
          [] \<Rightarrow> f = []
        | _ # n' \<Rightarrow> f \<noteq> [] \<and> hd f = SLASH \<and> match_suffix True n' (tl f))
     else a = HASH \<and> f = [] \<and> v)"
  by pat_completeness auto
termination
  by (relation "measure (\<lambda>(v, n, f). length f)") (auto simp: less_Suc_eq_le)

lemma ends_special_index:
  assumes "fi < length f"
  shows "matchEndWildcardsSpecialCases f fi \<longleftrightarrow> ends_special (drop fi f)"
proof -
  obtain a g where g: "drop fi f = a # g" using assms by (cases "drop fi f") auto
  have nth: "f ! (fi + k) = (a # g) ! k" if "k < length (a # g)" for k
    using that by (metis g assms less_imp_le nth_drop)
  have len: "length f = fi + Suc (length g)"
    using g assms by (metis add_diff_inverse_nat length_Cons length_drop less_imp_le not_less)
  show ?thesis
  proof (cases g rule: remdups_adj.cases)
    case 1
    then show ?thesis using len by (auto simp: g matchEndWildcardsSpecialCases_def ends_special_def)
  next
    case (2 b)
    then show ?thesis using len nth [of 0] nth [of 1]
      by (auto simp: g matchEndWildcardsSpecialCases_def ends_special_def)
  next
    case (3 b c h)
    then show ?thesis using len nth [of 1] nth [of 2]
      by (cases h) (auto simp: g matchEndWildcardsSpecialCases_def ends_special_def)
  qed
qed

lemma dropWhile_level_end:
  assumes "ni < length n"
  shows "dropWhile (\<lambda>x. x \<noteq> SLASH) (drop ni n) = drop (fst (level_end n ni)) n"
    and "snd (level_end n ni) \<longleftrightarrow> SLASH \<in> set (drop ni n)"
proof -
  show "dropWhile (\<lambda>x. x \<noteq> SLASH) (drop ni n) = drop (fst (level_end n ni)) n"
  proof (cases "SLASH \<in> set (drop ni n)")
    case True
    then show ?thesis by (simp add: level_end_suffix dropWhile_eq_drop add.commute)
  next
    case False
    then have "dropWhile (\<lambda>x. x \<noteq> SLASH) (drop ni n) = []" by (auto simp: dropWhile_eq_Nil_conv)
    with False assms show ?thesis by (simp add: level_end_suffix max_def)
  qed
  show "snd (level_end n ni) \<longleftrightarrow> SLASH \<in> set (drop ni n)" by (simp add: level_end_suffix)
qed

definition verdict :: "bytes \<Rightarrow> bytes \<Rightarrow> nat \<times> nat \<times> bool \<Rightarrow> bool" where
  "verdict n f r = (case r of (i, j, m) \<Rightarrow> m \<or> i = length n \<and> j = length f)"

declare matchTopicFilter_loop.simps [simp del]

lemma loop_equal:
  assumes "ni < length n" "fi < length f" "n ! ni = f ! fi"
  shows "verdict n f (matchTopicFilter_loop n f ni fi) \<longleftrightarrow>
    drop (ni + 1) n = [] \<and> ends_special (drop fi f) \<or> verdict n f (matchTopicFilter_loop n f (ni + 1) (fi + 1))"
proof -
  have "ni = length n - 1 \<longleftrightarrow> drop (ni + 1) n = []" using assms(1) by auto
  then show ?thesis
    using assms by (auto simp: matchTopicFilter_loop.simps [of n f ni fi] ends_special_index verdict_def)
qed

lemma level_end_inside:
  assumes "ni < length n"
  shows "snd (level_end n ni) \<Longrightarrow> fst (level_end n ni) < length n"
    and "\<not> snd (level_end n ni) \<Longrightarrow> fst (level_end n ni) = length n"
proof -
  have "length (takeWhile (\<lambda>x. x \<noteq> SLASH) xs) < length xs" if "SLASH \<in> set xs" for xs
    using that by (induction xs) auto
  from this [of "drop ni n"] show "snd (level_end n ni) \<Longrightarrow> fst (level_end n ni) < length n"
    by (simp add: level_end_suffix split: if_splits)
  show "\<not> snd (level_end n ni) \<Longrightarrow> fst (level_end n ni) = length n"
    using assms by (simp add: level_end_suffix max_def split: if_splits)
qed

lemma loop_unequal:
  fixes n f :: bytes
  defines "v fi \<equiv> fi = 0 \<or> f ! (fi - 1) = SLASH"
  assumes inside: "ni < length n" "fi < length f" and neq: "n ! ni \<noteq> f ! fi"
  shows "verdict n f (matchTopicFilter_loop n f ni fi) \<longleftrightarrow>
     (if f ! fi = PLUS \<and> v fi then
       (if snd (level_end n ni)
        then fi + 1 < length f \<and> f ! (fi + 1) = SLASH
             \<and> verdict n f (matchTopicFilter_loop n f (fst (level_end n ni) + 1) (fi + 2))
        else fi + 1 = length f)
     else f ! fi = HASH \<and> fi + 1 = length f \<and> v fi)"
proof -
  note step = matchTopicFilter_loop.simps [of n f ni fi]
  have last: "fi = length f - Suc 0 \<longleftrightarrow> Suc fi = length f" using inside by auto
  obtain e b where e: "level_end n ni = (e, b)" by fastforce
  consider (no) "\<not> (f ! fi = PLUS \<and> v fi)" | (sep) "f ! fi = PLUS" "v fi" "b" | (fin) "f ! fi = PLUS" "v fi" "\<not> b"
    by blast
  then show ?thesis
  proof cases
    case no
    then have "matchWildcards n f ni fi = (True, ni, fi, f ! fi = HASH \<and> fi + 1 = length f \<and> v fi)"
      by (auto simp: matchWildcards_def v_def last Let_def)
    with no inside neq show ?thesis by (auto simp: step verdict_def)
  next
    case sep
    then have "matchWildcards n f ni fi
      = (if fi + 1 < length f \<and> f ! (fi + 1) = SLASH then (False, e, fi + 1, False) else (True, e, fi, False))"
      by (simp add: matchWildcards_def v_def e less_diff_conv)
    with sep inside neq level_end_inside(1) [of ni n] show ?thesis by (auto simp: step e verdict_def)
  next
    case fin
    then have "matchWildcards n f ni fi = (False, e - 1, fi, False)" by (simp add: matchWildcards_def v_def e)
    moreover have "Suc (length n - Suc 0) = length n" using inside by simp
    ultimately show ?thesis using fin inside neq level_end_inside(2) [of ni n]
      by (simp add: step e verdict_def matchTopicFilter_loop.simps [of n f "length n"])
  qed
qed

lemma loop_suffix:
  assumes "ni \<le> length n" "fi \<le> length f"
  shows "verdict n f (matchTopicFilter_loop n f ni fi)
    = match_suffix (fi = 0 \<or> f ! (fi - 1) = SLASH) (drop ni n) (drop fi f)"
  using assms
proof (induction "length f - fi" arbitrary: ni fi rule: less_induct)
  case less
  show ?case
  proof (cases "ni < length n \<and> fi < length f")
    case False
    then have "verdict n f (matchTopicFilter_loop n f ni fi) \<longleftrightarrow> ni = length n \<and> fi = length f"
      by (auto simp: verdict_def matchTopicFilter_loop.simps [of n f ni fi])
    moreover have "drop ni n = [] \<or> drop fi f = []" using False less(2,3) by auto
    ultimately show ?thesis using less(2,3) by (cases "drop ni n"; cases "drop fi f") auto
  next
    case True
    then have n: "drop ni n = n ! ni # drop (Suc ni) n" and f: "drop fi f = f ! fi # drop (Suc fi) f"
      by (simp_all add: Cons_nth_drop_Suc)
    show ?thesis
    proof (cases "n ! ni = f ! fi")
      case eq: True
      have "verdict n f (matchTopicFilter_loop n f (Suc ni) (Suc fi))
        = match_suffix (f ! fi = SLASH) (drop (Suc ni) n) (drop (Suc fi) f)"
        using less(1) [of "Suc fi" "Suc ni"] True by (simp add: diff_less_mono2)
      then show ?thesis using loop_equal [of ni n fi f] True eq by (simp add: n f)
    next
      case neq: False
      let ?e = "fst (level_end n ni)"
      have ih: "verdict n f (matchTopicFilter_loop n f (Suc ?e) (Suc (Suc fi)))
        = match_suffix True (drop (Suc ?e) n) (drop (Suc (Suc fi)) f)"
        if "?e < length n" "Suc fi < length f" "f ! (Suc fi) = SLASH"
        using less(1) [of "Suc (Suc fi)" "Suc ?e"] that by (simp add: diff_less_mono2)
      have d: "dropWhile (\<lambda>x. x \<noteq> SLASH) (n ! ni # drop (Suc ni) n) = drop ?e n"
        using dropWhile_level_end(1) [of ni n] True by (simp add: n)
      have nf: "Suc fi < length f \<longleftrightarrow> drop (Suc fi) f \<noteq> []" "Suc fi = length f \<longleftrightarrow> drop (Suc fi) f = []"
        using True by auto
      have hd: "hd (drop (Suc fi) f) = f ! (Suc fi)" "tl (drop (Suc fi) f) = drop (Suc (Suc fi)) f" if "Suc fi < length f"
        using that by (simp_all add: hd_drop_conv_nth) (simp add: drop_Suc tl_drop)
      show ?thesis
      proof (cases "snd (level_end n ni)")
        case sep: True
        then have "drop ?e n = n ! ?e # drop (Suc ?e) n"
          using level_end_inside(1) [of ni n] True by (simp add: Cons_nth_drop_Suc)
        with sep show ?thesis
          using loop_unequal [of ni n fi f] True neq ih level_end_inside(1) [of ni n] hd nf
          by (auto simp: n f d simp del: dropWhile.simps)
      next
        case fin: False
        then have "drop ?e n = []" using level_end_inside(2) [of ni n] True by simp
        with fin show ?thesis
          using loop_unequal [of ni n fi f] True neq nf by (auto simp: n f d simp del: dropWhile.simps)
      qed
    qed
  qed
qed

section \<open>MQTT 3.1.1, section 4.7\<close>

fun levels :: "bytes \<Rightarrow> bytes list" where
  "levels [] = [[]]"
| "levels (c # s) = (if c = SLASH then [] # levels s else (c # hd (levels s)) # tl (levels s))"

text \<open>Name levels against filter levels.\<close>

fun level_match :: "bytes list \<Rightarrow> bytes list \<Rightarrow> bool" where
  "level_match ns [] = (ns = [])"
| "level_match [] (f # fs) = (f = [HASH] \<and> fs = [])"
| "level_match (n # ns) (f # fs) = (f = [HASH] \<and> fs = [] \<or> (f = [PLUS] \<or> f = n) \<and> level_match ns fs)"

definition plain :: "bytes \<Rightarrow> bool" where
  "plain s \<longleftrightarrow> PLUS \<notin> set s \<and> HASH \<notin> set s"

text \<open>A wildcard is a level of its own; \<open>#\<close> is the last one.\<close>

fun valid_levels :: "bytes list \<Rightarrow> bool" where
  "valid_levels [] = True"
| "valid_levels (f # fs) = ((plain f \<or> f = [PLUS] \<or> f = [HASH] \<and> fs = []) \<and> valid_levels fs)"

definition mqtt_matches :: "bytes \<Rightarrow> bytes \<Rightarrow> bool" where
  "mqtt_matches name filt \<longleftrightarrow>
    level_match (levels name) (levels filt) \<and> \<not> (hd name = CHR ''$'' \<and> (hd filt = PLUS \<or> hd filt = HASH))"

lemma levels_nonempty [simp]: "levels s \<noteq> []"
  by (cases s) auto

lemma levels_Cons [simp]: "c \<noteq> SLASH \<Longrightarrow> levels s = l # ls \<Longrightarrow> levels (c # s) = (c # l) # ls"
  by simp

lemma levels_eq_Nil [simp]: "levels s = [[]] \<longleftrightarrow> s = []" "levels s = [] # ls \<longleftrightarrow> s = [] \<and> ls = [] \<or> (\<exists>t. s = SLASH # t \<and> ls = levels t)"
  by (cases s; auto)+

lemma levels_single [simp]: "c \<noteq> SLASH \<Longrightarrow> levels s = [[c]] \<longleftrightarrow> s = [c]"
  by (cases s) (auto dest: sym simp: list.expand hd_Cons_tl, metis levels_eq_Nil(1) levels_nonempty list.collapse)

lemma plain_Cons [simp]: "plain (c # s) \<longleftrightarrow> c \<noteq> PLUS \<and> c \<noteq> HASH \<and> plain s"
  by (auto simp: plain_def)

lemma plain_Nil [simp]: "plain []"
  by (simp add: plain_def)

lemma levels_dropWhile:
  "levels s = takeWhile (\<lambda>x. x \<noteq> SLASH) s #
     (case dropWhile (\<lambda>x. x \<noteq> SLASH) s of [] \<Rightarrow> [] | _ # t \<Rightarrow> levels t)"
  by (induction s) auto

lemma valid_after:
  assumes "valid_levels (levels (a # f))" "a \<noteq> PLUS" "a \<noteq> HASH"
  shows "valid_levels (levels f)" and "a = SLASH \<or> plain (hd (levels f))"
  using assms by (cases "levels f"; auto split: if_splits)+

lemma valid_plus:
  assumes "valid_levels (levels (PLUS # f))"
  shows "f = [] \<or> (\<exists>t. f = SLASH # t \<and> valid_levels (levels t))"
proof -
  obtain l ls where l: "levels f = l # ls" by (cases "levels f") auto
  with assms have "l = []" "valid_levels ls" by simp_all
  with l show ?thesis by auto
qed

lemma level_match_step:
  assumes "plain (c # n)" "valid_levels (levels (c # f))"
  shows "level_match (levels (c # n)) (levels (c # f)) \<longleftrightarrow> level_match (levels n) (levels f)"
proof (cases "c = SLASH")
  case False
  obtain l ls m ms where l: "levels f = l # ls" "levels n = m # ms" by (meson levels_nonempty neq_Nil_conv)
  have "plain l" using valid_after(2) [OF assms(2)] assms(1) False by (simp add: l)
  then have "l \<noteq> [PLUS]" "l \<noteq> [HASH]" by auto
  with False assms(1) show ?thesis by (simp add: l)
qed auto

lemma level_match_plus:
  assumes "dropWhile (\<lambda>x. x \<noteq> SLASH) n = r"
  shows "level_match (levels n) ([PLUS] # fs) \<longleftrightarrow> level_match (case r of [] \<Rightarrow> [] | _ # t \<Rightarrow> levels t) fs"
  by (subst levels_dropWhile) (simp add: assms)

lemma match_suffix_plus:
  assumes "dropWhile (\<lambda>x. x \<noteq> SLASH) (c # n) = r" "c \<noteq> PLUS"
  shows "match_suffix True (c # n) (PLUS # f) \<longleftrightarrow>
    (case r of [] \<Rightarrow> f = [] | _ # n' \<Rightarrow> f \<noteq> [] \<and> hd f = SLASH \<and> match_suffix True n' (tl f))"
  using assms(2) by (simp flip: assms(1))

lemma plain_drop: "plain n \<Longrightarrow> dropWhile P n = s # n' \<Longrightarrow> plain n'"
  using set_dropWhileD [of _ P n] by (auto simp: plain_def)

lemma ends_special_match: "ends_special (c # f) \<Longrightarrow> plain [c] \<Longrightarrow> level_match (levels [c]) (levels (c # f))"
  by (auto simp: ends_special_def)

lemma match_suffix_sound:
  "match_suffix v n f \<Longrightarrow> plain n \<Longrightarrow> valid_levels (levels f) \<Longrightarrow> level_match (levels n) (levels f)"
proof (induction v n f rule: match_suffix.induct)
  case (3 v c n a f)
  show ?case
  proof (cases "c = a")
    case True
    from 3(3) True consider "n = []" "ends_special (a # f)" | "match_suffix (a = SLASH) n f" by auto
    then show ?thesis
    proof cases
      case 1
      with 3(4) True show ?thesis using ends_special_match by auto
    next
      case 2
      then have "level_match (levels n) (levels f)" using 3(1) [OF True 2] 3(4,5) True valid_after(1) [of a f] by simp
      then show ?thesis using level_match_step [of c n f] 3(4,5) True by simp
    qed
  next
    case neq: False
    show ?thesis
    proof (cases "a = PLUS \<and> v")
      case plus: True
      with 3(3) have m: "match_suffix True (c # n) (PLUS # f)" by simp
      have c: "c \<noteq> PLUS" using neq plus by simp
      show ?thesis
      proof (cases "dropWhile (\<lambda>x. x \<noteq> SLASH) (c # n)")
        case Nil
        with m have "f = []" using match_suffix_plus [OF Nil c, of f] by simp
        with plus show ?thesis using level_match_plus [OF Nil, of "[]"] by (simp del: levels.simps(2) add: levels.simps(2) [of PLUS])
      next
        case (Cons s n')
        then obtain t where t: "f = SLASH # t" "match_suffix True n' t"
          using m match_suffix_plus [OF Cons c, of f] by (cases f) simp_all
        have "valid_levels (levels t)" using valid_plus [of f] 3(5) plus t by auto
        then have "level_match (levels n') (levels t)"
          using 3(2) [OF neq plus Cons] t plain_drop [OF 3(4) Cons] by simp
        with plus t show ?thesis using level_match_plus [OF Cons, of "levels t"] by (simp del: levels.simps(2)) simp
      qed
    next
      case False
      with 3(3) neq have "a = HASH" "f = []" by (auto split: if_splits)
      then show ?thesis by (cases "levels (c # n)") auto
    qed
  qed
qed auto

lemma last_dropWhile: "dropWhile P n = s # n' \<Longrightarrow> \<not> P s \<and> last n = last (s # n')"
  by (induction n) (auto split: if_splits)

lemma level_match_end:
  assumes "level_match [[]] (levels f)" "plain (hd (levels f))"
  shows "f = [] \<or> f = [SLASH, HASH]"
proof -
  obtain l ls where l: "levels f = l # ls" by (cases "levels f") auto
  with assms have "l = []" "ls = [] \<or> ls = [[HASH]]" by (cases ls; auto)+
  with l show ?thesis by (auto simp: levels_single)
qed

lemma match_suffix_complete:
  "level_match (levels n) (levels f) \<Longrightarrow> plain n \<Longrightarrow> valid_levels (levels f) \<Longrightarrow> v \<or> plain (hd (levels f)) \<Longrightarrow>
   n \<noteq> [] \<Longrightarrow> last n \<noteq> SLASH \<Longrightarrow> \<not> suffix [PLUS, SLASH, HASH] f \<Longrightarrow> match_suffix v n f"
proof (induction v n f rule: match_suffix.induct)
  case (3 v c n a f)
  show ?case
  proof (cases "c = a")
    case True
    have f: "valid_levels (levels f)" "a = SLASH \<or> plain (hd (levels f))"
      using valid_after [of a f] 3(4,5) True by auto
    have m: "level_match (levels n) (levels f)" using level_match_step [of c n f] 3(3-5) True by simp
    show ?thesis
    proof (cases "n = []")
      case fin: True
      then have "a \<noteq> SLASH" using 3(8) True by simp
      then have "f = [] \<or> f = [SLASH, HASH]" using level_match_end [of f] m f fin by simp
      then show ?thesis using True fin by (auto simp: ends_special_def)
    next
      case False
      then show ?thesis using 3(1) [OF True m] 3(4,8,9) f True by (auto simp: suffix_Cons)
    qed
  next
    case neq: False
    consider (plus) "a = PLUS" | (hash) "a = HASH" | (no) "a \<noteq> PLUS" "a \<noteq> HASH" by blast
    then show ?thesis
    proof cases
      case plus
      have v: "v" and c: "c \<noteq> PLUS" using 3(6) plus neq by simp_all
      have f: "f = [] \<or> (\<exists>t. f = SLASH # t \<and> valid_levels (levels t))" using valid_plus 3(5) plus by simp
      show ?thesis
      proof (cases "dropWhile (\<lambda>x. x \<noteq> SLASH) (c # n)")
        case Nil
        have "f \<noteq> [SLASH, HASH]" using 3(9) plus by auto
        moreover have False if "f = SLASH # t" "t \<noteq> [HASH]" for t
          using 3(3) that plus level_match_plus [OF Nil, of "levels t"]
          by (cases "levels t") (auto simp: levels_single simp: levels.simps(2) [of PLUS] levels.simps(2) [of SLASH] simp del: levels.simps(2))
        ultimately have "f = []" using f by auto
        then show ?thesis using match_suffix_plus [OF Nil c, of f] plus v by simp
      next
        case (Cons s n')
        have s: "s = SLASH" "last (c # n) = last (s # n')" using last_dropWhile [OF Cons] by simp_all
        then have n': "n' \<noteq> []" "last n' \<noteq> SLASH" using 3(8) by (auto split: if_splits)
        have "level_match (levels (c # n)) ([PLUS] # tl (levels (PLUS # f)))"
          using 3(3) plus f by auto
        then have "level_match (levels n') (tl (levels (PLUS # f)))"
          using level_match_plus [OF Cons] by (simp del: levels.simps(2))
        then obtain t where t: "f = SLASH # t" "valid_levels (levels t)" "level_match (levels n') (levels t)"
          using f by auto
        then have "match_suffix True n' t"
          using 3(2) [OF neq _ Cons] plus v n' plain_drop [OF 3(4) Cons] 3(9) by (simp add: suffix_Cons)
        then show ?thesis using match_suffix_plus [OF Cons c, of f] plus v t by simp
      qed
    next
      case hash
      obtain l ls where l: "levels f = l # ls" by (cases "levels f") auto
      with 3(5) hash have "l = []" "ls = []" by auto
      with l have "f = []" by (metis levels_eq_Nil(1))
      with 3(6) hash neq show ?thesis by auto
    next
      case no
      then show ?thesis using 3(3) neq by (cases "levels f"; cases "levels n") (auto split: if_splits)
    qed
  qed
qed (auto split: if_splits)

section \<open>The property\<close>

lemma matchTopicFilter_suffix: "matchTopicFilter n f = match_suffix True n f"
  using loop_suffix [of 0 n 0 f] by (simp add: matchTopicFilter_def verdict_def)

lemma level_match_refl: "plain s \<Longrightarrow> level_match (levels s) (levels s)"
proof (induction s)
  case (Cons c s)
  then obtain l ls where "levels s = l # ls" by (cases "levels s") auto
  with Cons show ?case by (auto split: if_splits)
qed simp

text \<open>
  C33. For a topic name without wildcards and a filter whose wildcards stand as MQTT 3.1.1
  demands, what \<open>MQTT_MatchTopic\<close> accepts is a match by the rules of the standard, and it accepts
  every such match unless the name ends with a separator or the filter ends with \<open>+/#\<close>. In
  those two cases it misses some: \<open>sport/+/#\<close> does not match \<open>sport/tennis\<close>, nor \<open>+/+\<close> the
  name \<open>a/\<close>.
\<close>

theorem topic_filter_match:
  assumes "n \<noteq> []" "f \<noteq> []" "plain n" "NUL \<notin> set n" "NUL \<notin> set f" "valid_levels (levels f)"
  shows "(MQTT_MatchTopic n f = (MQTTSuccess, Some True) \<longrightarrow> mqtt_matches n f)
    \<and> (last n \<noteq> SLASH \<and> \<not> suffix ''+/#'' f \<longrightarrow> MQTT_MatchTopic n f = (MQTTSuccess, Some (mqtt_matches n f)))
    \<and> mqtt_matches ''sport/tennis'' ''sport/+/#''
    \<and> MQTT_MatchTopic ''sport/tennis'' ''sport/+/#'' = (MQTTSuccess, Some False)
    \<and> mqtt_matches ''a/'' ''+/+'' \<and> MQTT_MatchTopic ''a/'' ''+/+'' = (MQTTSuccess, Some False)"
proof (intro conjI impI)
  have eq: "length n = length f \<and> strncmp_eq (length n) n f \<longleftrightarrow> n = f"
    using assms(4,5) by (auto simp: strncmp_eq_def)
  have self: "mqtt_matches n n"
    using assms(1,3) level_match_refl by (auto simp: mqtt_matches_def neq_Nil_conv)
  have M: "MQTT_MatchTopic n f = (MQTTSuccess,
      Some (n = f \<or> \<not> (hd n = CHR ''$'' \<and> (hd f = PLUS \<or> hd f = HASH)) \<and> match_suffix True n f))"
    using assms(1,2) eq by (auto simp: MQTT_MatchTopic_def Let_def matchTopicFilter_suffix hd_conv_nth)
  have sound: "match_suffix True n f \<Longrightarrow> level_match (levels n) (levels f)"
    using match_suffix_sound assms(3,6) by blast
  show "mqtt_matches n f" if "MQTT_MatchTopic n f = (MQTTSuccess, Some True)"
    using that M sound self by (auto simp: mqtt_matches_def)
  show "MQTT_MatchTopic n f = (MQTTSuccess, Some (mqtt_matches n f))" if "last n \<noteq> SLASH \<and> \<not> suffix ''+/#'' f"
    using M sound match_suffix_complete [of n f True] assms that self by (auto simp: mqtt_matches_def)
qed (simp_all add: mqtt_matches_def MQTT_MatchTopic_def matchTopicFilter_suffix strncmp_eq_def ends_special_def Let_def)

theorem topic_filter_match_witness:
  "mqtt_matches ''cy/u/cmd'' ''cy/+/cmd'' \<and> MQTT_MatchTopic ''cy/u/cmd'' ''cy/+/cmd'' = (MQTTSuccess, Some True)"
proof -
  have m: "mqtt_matches ''cy/u/cmd'' ''cy/+/cmd''" by (simp add: mqtt_matches_def)
  then show ?thesis
    using topic_filter_match [of "''cy/u/cmd''" "''cy/+/cmd''"] by (simp add: plain_def suffix_Cons)
qed

text \<open>
  The ids \<open>MQTT_GetPacketId\<close> gives out run cyclically through 1 to 65535, so none is 0 and an
  id comes back after 65535 calls only.
\<close>

lemma next_packet_id:
  assumes "i \<noteq> 0"
  shows "unat (snd (MQTT_GetPacketId i)) = unat i mod 65535 + 1"
proof -
  have top: "unat (- 1 :: 16 word) = 65535" by (simp add: unsigned_minus_1_eq_mask mask_eq_exp_minus_1)
  show ?thesis
  proof (cases "i = - 1")
    case False
    then have "unat (1 + i) = Suc (unat i)" by (intro unatSuc) (simp add: add_eq_0_iff)
    moreover have "unat i \<noteq> 65535" using False top by (metis word_unat_eq_iff)
    then have "unat i < 65535" using unsigned_less [of i, where ?'a = nat] by simp
    ultimately show ?thesis using False by (simp add: MQTT_GetPacketId_def add.commute)
  qed (simp add: MQTT_GetPacketId_def top)
qed

lemma packet_ids_cyclic:
  assumes "i \<noteq> 0"
  shows "unat (((\<lambda>a. snd (MQTT_GetPacketId a)) ^^ k) i) = (unat i - 1 + k) mod 65535 + 1"
proof (induction k)
  case 0
  have "unat i - 1 < 65535" "0 < unat i"
    using unsigned_less [of i, where ?'a = nat] assms by (simp_all add: unat_gt_0)
  then show ?case by simp
next
  case (Suc k)
  then have "((\<lambda>a. snd (MQTT_GetPacketId a)) ^^ k) i \<noteq> 0" by (metis add_is_0 one_neq_zero unat_0)
  then show ?case using Suc by (simp add: next_packet_id mod_simps)
qed
end
