(* ===== verification/Spec2Isabelle.thy ===== *)
theory Spec2Isabelle
  imports Tcp_Command Mqtt_Serializer Mqtt_Topic
begin

text \<open>
  \<^bold>\<open>Verification of the CyThing firmware.\<close>

  The program is the ESP32 library under \<open>src/src/\<close>: a device that a phone finds on the network,
  pairs with by a password, and then controls over an encrypted TCP line protocol or over MQTT. This
  development translates its modules into executable HOL functions and proves what makes them correct.

  \<^bold>\<open>How the parts interact.\<close> A boot runs the factory-reset counter, loads paired list, password,
  events and identity from flash, and chooses between the soft access point and station mode
  (\<open>cything.c\<close>). In either mode a TCP listener accepts clients; a task per client cuts the bytes into
  lines; \<open>tcp_command.c\<close> opens encrypted frames, asks the access policy, and hands the line to the
  first handler that takes it: password pairing, account enrolment and login, owner commands,
  certificate provisioning, Wi-Fi credentials, firmware update, the application. Replies go through one
  byte FIFO to the sockets. A provisioned device in station mode also runs an MQTT client.

  \<^bold>\<open>Common ground.\<close>
  \<^item> \<open>Prelude\<close>: bytes, C strings, the functions of the C library that are called, array idioms.
  \<^item> \<open>Platform\<close>: everything the firmware calls and does not contain (NVS, mbedTLS, \<open>esp_srp\<close>, entropy,
    NimBLE and mDNS return codes, heap, overridable configuration), as the record \<open>env\<close> that is
    an argument of the definitions, with the laws relied on as named predicates.
    \<open>Bench_Platform\<close> is a concrete platform that satisfies them, used to evaluate the
    definitions on concrete inputs.
  \<^item> \<open>Device\<close>: the record \<open>dev\<close> of the state the security modules share, and its invariant.

  \<^bold>\<open>Security modules\<close> (\<open>src/src/security/\<close>, one theory per file).
  \<^item> \<open>Paired_List\<close> (\<open>paired_list.c\<close>): array, count, owner, NVS blob. Invariant under every operation and
    every flash content; add and remove refine list operations (locale \<open>row_table\<close>); an acknowledged
    change is what the next boot loads; the nested loops of the migration keep the oldest entry.
  \<^item> \<open>Device_Password\<close> (\<open>device_password.c\<close>): verifier, lockouts per address and for all; lock times;
    persistence; a way around the limit per address.
  \<^item> \<open>Local_Session\<close> (\<open>local_session.c\<close>): the eight connection slots as a map from sockets.
  \<^item> \<open>Pairing_Events\<close> (\<open>pairing_events.c\<close>): refinement to a bounded queue that survives a reboot.
  \<^item> \<open>Enc_Frame\<close> (\<open>enc_frame.c\<close>): round trip with an honest peer; no counter used or accepted twice.
  \<^item> \<open>Pake_Handler\<close>, \<open>Local_Auth\<close>, \<open>Access_Policy\<close>, \<open>Owner_Commands\<close> (the files of these names): each
    line on every branch; agreement of \<open>AUTH1\<close>--\<open>AUTH3\<close>; what \<open>PWSET\<close> revokes and what it misses.
  \<^item> \<open>Session_Rights\<close>: no handler gives a session a key, role or account but by the three proofs.

  \<^bold>\<open>Finding and provisioning the device.\<close>
  \<^item> \<open>Provisioning\<close> (\<open>aws/provisioning.c\<close>, \<open>device_config/claim_credentials.c\<close>): the handshake persists
    the identity it was given; what skipped steps do.
  \<^item> \<open>Discovery\<close> (\<open>ble/discovery_mode.c\<close>, \<open>ble/ble_beacon.c\<close>, \<open>mdns/mdns_discovery.c\<close>, the names of
    \<open>wifi/wifi_info_handler.c\<close> and UUIDs of \<open>ble/ble_host.c\<close>): the beacon on the air is current, and
    on the air against the mode only while a stored mode waits to be applied.
  \<^item> \<open>Flash_Partitions\<close> (\<open>ota_lib/ota_handler.c\<close>, \<open>ota_lib/flash_boot_handler.c\<close>, \<open>memory_handler/\<close>,
    \<open>common/reset_handler.c\<close>): raw partitions over an abstract flash chip; five interrupted
    boots reset the device, nothing less does, and no other partition changes.
  \<^item> \<open>Wifi_Pairing\<close> (\<open>tcp_server/pairing.c\<close>, \<open>ble/ble_pairing.c\<close>, \<open>wifi/wifi_trial.c\<close>, mode choice of
    \<open>cything.c\<close>, credential copy of \<open>wifi/station_mode.c\<close>): credentials given over TCP or BLE are
    those of the next boot, with the conditions the code needs.

  \<^bold>\<open>The TCP server.\<close>
  \<^item> \<open>Response_Fifo\<close> (\<open>common/response_fifo.c\<close>): the byte array implements a queue of whole lines (locale
    \<open>byte_queue\<close>, interpreted on the model).
  \<^item> \<open>Tcp_Server\<close> (\<open>tcp_server/tcp_client_list.c\<close>, \<open>tcp_server.c\<close>, \<open>tcp_client_recv.c\<close>,
    \<open>tcp_response_fifo.c\<close>): registry, accept, framing, routing; the record \<open>sys\<close> adds to \<open>dev\<close> what these
    tasks own.
  \<^item> \<open>Tcp_Command\<close> (\<open>tcp_server/tcp_command.c\<close>, \<open>ota_lib/http_ota_handler.c\<close>): dispatch, update task,
    and the whole system as the inductive relation \<open>sys_step\<close>. The invariant is proved over its reachable
    states by rule induction, for a flash that takes every write; a session's rights are traced to the
    line that was received on its socket.

  \<^bold>\<open>MQTT\<close> (\<open>src/src/coreMQTT/\<close>).
  \<^item> \<open>Mqtt_State\<close> (\<open>core_mqtt_state.c\<close>): publish records; acknowledgements against a table of the delivery
    protocols of MQTT 3.1.1; exactly-once for QoS 2; resend order.
  \<^item> \<open>Mqtt_Serializer\<close> (\<open>core_mqtt_serializer.c\<close>): packet codecs, sizes at 32 bits, parsers that never
    read outside their packet.
  \<^item> \<open>Mqtt_Topic\<close> (\<open>core_mqtt.c\<close>): topic filters against MQTT 3.1.1 section 4.7, packet ids.

  \<^bold>\<open>Conventions.\<close> A C function is a HOL function from its arguments and the state it touches to its
  result and the new state. Where tasks run side by side, the step relations say how finely they
  interleave. In \<open>beacon_step\<close> a step is one section under a mutex, and the two sections of the command
  that changes the mode are two steps. In \<open>sys_step\<close> a step is one turn of a task's loop: an accepted
  connection, a received byte with the whole handling of the line it completes, one drain of the response FIFO;
  the end of a receive task is three steps. A line's handler takes several mutexes one after the other, and a
  switch to another task between them is not covered: what is proved of \<open>sys_step\<close> holds when
  lines are handled one after the other. Machine
  integers are words where the code can reach their width, naturals or integers where a bound that is
  part of an invariant keeps them inside. A line is its bytes without the newline. Calls into the
  platform are recorded in order (\<open>wire\<close>, the advertiser's calls, sockets closed and shut
  down), and what they return is an argument. No definition uses fuel: the loops of the source
  are bounded by an array or a buffer, and the recursions that follow them terminate by a measure.

  \<^bold>\<open>Not modelled.\<close>
  \<^item> The connection handling of \<open>coreMQTT/core_mqtt.c\<close> (send and receive loops over TLS, keep-alive,
    connect) and its client \<open>aws/aws_iot_handler.c\<close>: only topic matching and packet ids.
  \<^item> \<open>coreMQTT/network_transport.c\<close>, \<open>posix_compat/clock_esp.c\<close>: wrappers around one ESP-IDF call each.
  \<^item> \<open>backoffAlgorithm/\<close> and the UDP responder \<open>udp_socket/\<close>.
  \<^item> \<open>wifi/access_point.c\<close>, the driver set-up in \<open>wifi/station_mode.c\<close>, \<open>ble/ble_host.c\<close> and the GATT
    tables of \<open>ble/ble_pairing.c\<close>: sequences of ESP-IDF calls without decisions of their own.
  \<^item> Log statements, task priorities and stack sizes, and the headers that only hold constants.
\<close>

end
